(* ===== verification/Prelude.thy ===== *)
theory Prelude
  imports Main "HOL-Library.Multiset"
begin

text \<open>
  Shared vocabulary of the development: the result type of fallible Rust code
  (\<open>Result<T, E>\<close> is \<open>'e + 'a\<close>, \<open>Inl\<close> the error), its sequencing and collection over
  lists, the unsigned machine integer bounds, the small pieces of the Rust standard library
  that several components use (\<open>Iterator::max_by\<close>, \<open>slice::sort_by\<close>, \<open>enumerate\<close>,
  \<open>div_ceil\<close>), and the generic list lemmas the component proofs rest on.
\<close>

named_theorems run_simps \<open>equations that evaluate the model's operations\<close>
named_theorems inv_intros \<open>preservation of component invariants\<close>

section \<open>Results\<close>

type_synonym ('e, 'a) res = "'e + 'a"

text \<open>The operator \<open>?\<close>: continue with the value, or return the error.\<close>

definition bind_res :: "('e, 'a) res \<Rightarrow> ('a \<Rightarrow> ('e, 'b) res) \<Rightarrow> ('e, 'b) res" where
  "bind_res r f = (case r of Inl e \<Rightarrow> Inl e | Inr a \<Rightarrow> f a)"

lemma bind_res_simps [simp]:
  "bind_res (Inl e) f = Inl e"
  "bind_res (Inr a) f = f a"
  by (simp_all add: bind_res_def)

lemma bind_res_eq_Inr:
  "bind_res r f = Inr b \<longleftrightarrow> (\<exists>a. r = Inr a \<and> f a = Inr b)"
  by (cases r) auto

lemma bind_res_eq_Inl:
  "bind_res r f = Inl e \<longleftrightarrow> r = Inl e \<or> (\<exists>a. r = Inr a \<and> f a = Inl e)"
  by (cases r) auto

lemma bind_res_cong [fundef_cong]:
  "r = r' \<Longrightarrow> (\<And>a. r' = Inr a \<Longrightarrow> f a = g a) \<Longrightarrow> bind_res r f = bind_res r' g"
  by (cases r') auto

text \<open>\<open>iter.map(f).collect::<Result<Vec<_>>>()\<close>: the first error wins.\<close>

fun map_res :: "('a \<Rightarrow> ('e, 'b) res) \<Rightarrow> 'a list \<Rightarrow> ('e, 'b list) res" where
  "map_res f [] = Inr []"
| "map_res f (x # xs) =
     bind_res (f x) (\<lambda>y. bind_res (map_res f xs) (\<lambda>ys. Inr (y # ys)))"

lemma map_res_cong [fundef_cong]:
  "xs = ys \<Longrightarrow> (\<And>x. x \<in> set ys \<Longrightarrow> f x = g x) \<Longrightarrow> map_res f xs = map_res g ys"
proof (induction xs arbitrary: ys)
  case Nil
  then show ?case by simp
next
  case (Cons x xs)
  then show ?case by (auto intro!: bind_res_cong)
qed

lemma map_res_Inr_iff:
  "map_res f xs = Inr ys \<longleftrightarrow> list_all2 (\<lambda>x y. f x = Inr y) xs ys"
  by (induction xs arbitrary: ys) (auto simp: bind_res_eq_Inr list_all2_Cons1)

lemma map_res_length: "map_res f xs = Inr ys \<Longrightarrow> length ys = length xs"
  by (auto simp: map_res_Inr_iff dest: list_all2_lengthD)

lemma map_res_Inl:
  "map_res f xs = Inl e \<Longrightarrow> \<exists>x \<in> set xs. f x = Inl e"
  by (induction xs) (auto simp: bind_res_eq_Inl)

lemma map_res_total:
  "(\<And>x. x \<in> set xs \<Longrightarrow> f x = Inr (g x)) \<Longrightarrow> map_res f xs = Inr (map g xs)"
  by (induction xs) auto

section \<open>Machine integers\<close>

definition usize_max :: nat where
  "usize_max = 2 ^ 64 - 1"

definition sat_add :: "nat \<Rightarrow> nat \<Rightarrow> nat" where
  "sat_add a b = min usize_max (a + b)"

definition sat_mul :: "nat \<Rightarrow> nat \<Rightarrow> nat" where
  "sat_mul a b = min usize_max (a * b)"

definition checked_add :: "nat \<Rightarrow> nat \<Rightarrow> nat option" where
  "checked_add a b = (if a + b \<le> usize_max then Some (a + b) else None)"

definition div_ceil :: "nat \<Rightarrow> nat \<Rightarrow> nat" where
  "div_ceil a b = (if a mod b = 0 then a div b else a div b + 1)"

lemma sat_add_le [simp]: "sat_add a b \<le> usize_max"
  by (simp add: sat_add_def)

lemma sat_mul_le [simp]: "sat_mul a b \<le> usize_max"
  by (simp add: sat_mul_def)

lemma div_ceil_upper:
  assumes "0 < b"
  shows "a \<le> div_ceil a b * b"
proof -
  have "a = a div b * b + a mod b" by simp
  moreover have "a mod b < b" using assms by simp
  ultimately have "a \<le> a div b * b + b" and "a mod b = 0 \<Longrightarrow> a \<le> a div b * b"
    by linarith+
  then show ?thesis by (simp add: div_ceil_def add_mult_distrib)
qed

lemma div_ceil_lower: "0 < b \<Longrightarrow> c * b < a \<Longrightarrow> c < div_ceil a b"
  using div_ceil_upper [of b a] by (metis less_le_trans mult_less_cancel2)

lemma div_ceil_pos: "0 < b \<Longrightarrow> 0 < a \<Longrightarrow> 0 < div_ceil a b"
  using div_ceil_lower [of b 0 a] by simp

section \<open>Iterators and slices\<close>

definition enumerate_list :: "'a list \<Rightarrow> (nat \<times> 'a) list" where
  "enumerate_list xs = zip [0..<length xs] xs"

lemma enumerate_list_simps [simp]:
  "length (enumerate_list xs) = length xs"
  "map snd (enumerate_list xs) = xs"
  "map fst (enumerate_list xs) = [0..<length xs]"
  by (simp_all add: enumerate_list_def)

lemma enumerate_list_nth [simp]:
  "i < length xs \<Longrightarrow> enumerate_list xs ! i = (i, xs ! i)"
  by (simp add: enumerate_list_def)

lemma in_set_enumerate_list:
  "(i, x) \<in> set (enumerate_list xs) \<longleftrightarrow> i < length xs \<and> x = xs ! i"
  unfolding enumerate_list_def set_zip by (auto intro!: exI [of _ i])

text \<open>\<open>std::cmp::Ordering\<close>.\<close>

datatype ordering = Less | Equal | Greater

definition cmp_then :: "ordering \<Rightarrow> ordering \<Rightarrow> ordering" where
  "cmp_then a b = (if a = Equal then b else a)"

definition cmp_nat :: "nat \<Rightarrow> nat \<Rightarrow> ordering" where
  "cmp_nat a b = (if a < b then Less else if a = b then Equal else Greater)"

text \<open>\<open>Iterator::max_by\<close>: of several maximal elements the last one.\<close>

fun max_by :: "('a \<Rightarrow> 'a \<Rightarrow> ordering) \<Rightarrow> 'a list \<Rightarrow> 'a option" where
  "max_by c [] = None"
| "max_by c (x # xs) =
     Some (fold (\<lambda>y best. if c best y = Greater then best else y) xs x)"

lemma fold_choice_in_set:
  "fold (\<lambda>y best. if P best y then best else y) xs x \<in> insert x (set xs)"
proof (induction xs arbitrary: x)
  case Nil
  then show ?case by simp
next
  case (Cons y ys)
  show ?case
    using Cons.IH [of x] Cons.IH [of y] by auto
qed

lemma max_by_in_set: "max_by c xs = Some x \<Longrightarrow> x \<in> set xs"
  by (cases xs) (use fold_choice_in_set [of "\<lambda>best y. c best y = Greater"] in auto)

lemma max_by_None [simp]: "max_by c xs = None \<longleftrightarrow> xs = []"
  by (cases xs) auto

text \<open>\<open>Iterator::max\<close> on unsigned integers.\<close>

fun iter_max :: "nat list \<Rightarrow> nat option" where
  "iter_max [] = None"
| "iter_max (x # xs) = Some (fold max xs x)"

lemma fold_max_ge: "y \<in> insert x (set xs) \<Longrightarrow> y \<le> fold max xs x" for y :: nat
proof (induction xs arbitrary: x y)
  case (Cons z xs)
  have "x \<le> max z x" "z \<le> max z x"
    by simp_all
  then show ?case
    using Cons.IH [of "max z x" "max z x"] Cons.IH [of y "max z x"] Cons.prems
    by (auto intro: order_trans)
qed simp

lemma iter_max_ge: "iter_max xs = Some m \<Longrightarrow> x \<in> set xs \<Longrightarrow> x \<le> m"
  by (cases xs) (auto intro: fold_max_ge)

lemma iter_max_None [simp]: "iter_max xs = None \<longleftrightarrow> xs = []"
  by (cases xs) auto

text \<open>
  \<open>slice::sort_by\<close>, a stable sort: the elements in the order of the comparator. It is written
  as insertion, which for a total order gives the same list as any other stable sort.
\<close>

fun insert_by :: "('a \<Rightarrow> 'a \<Rightarrow> ordering) \<Rightarrow> 'a \<Rightarrow> 'a list \<Rightarrow> 'a list" where
  "insert_by c x [] = [x]"
| "insert_by c x (y # ys) = (if c x y = Greater then y # insert_by c x ys else x # y # ys)"

definition sort_by :: "('a \<Rightarrow> 'a \<Rightarrow> ordering) \<Rightarrow> 'a list \<Rightarrow> 'a list" where
  "sort_by c xs = foldr (insert_by c) xs []"

lemma insert_by_set [simp]: "set (insert_by c x xs) = insert x (set xs)"
  by (induction xs) auto

lemma insert_by_length [simp]: "length (insert_by c x xs) = Suc (length xs)"
  by (induction xs) auto

lemma insert_by_distinct: "distinct (insert_by c x xs) \<longleftrightarrow> x \<notin> set xs \<and> distinct xs"
  by (induction xs) auto

lemma sort_by_props:
  "set (sort_by c xs) = set xs" "length (sort_by c xs) = length xs"
  "distinct xs \<Longrightarrow> distinct (sort_by c xs)"
  by (induction xs) (auto simp: sort_by_def insert_by_distinct)

section \<open>Lists of slots\<close>

text \<open>Appending to one inner list of a list of lists adds exactly that element.\<close>

lemma mset_concat_push:
  "i < length xss \<Longrightarrow> mset (concat (xss[i := xss ! i @ [x]])) = add_mset x (mset (concat xss))"
proof (induction xss arbitrary: i)
  case (Cons xs xss)
  then show ?case by (cases i) auto
qed simp

lemma distinct_all_equal:
  assumes "distinct xs" "\<And>x y. x \<in> set xs \<Longrightarrow> y \<in> set xs \<Longrightarrow> x = y"
  shows "length xs \<le> 1"
proof (rule ccontr)
  assume "\<not> length xs \<le> 1"
  then have l: "0 < length xs" "1 < length xs"
    by linarith+
  then have "xs ! 0 = xs ! 1"
    using assms(2) [OF nth_mem nth_mem] by blast
  then show False
    using nth_eq_iff_index_eq [OF assms(1) l] by simp
qed

lemma mod_window_inj:
  assumes "(k + i) mod B = (k + j) mod B" "i < n" "j < n" "n \<le> (B::nat)"
  shows "i = j"
proof -
  have aux: "i = j" if "(k + i) mod B = (k + j) mod B" "i \<le> j" "j < B" for i j
  proof -
    have "B dvd (k + j) - (k + i)"
      using that mod_eq_dvd_iff_nat [of "k + i" "k + j" B] by simp
    then have "B dvd j - i"
      by simp
    then show ?thesis
      using that by (auto dest: dvd_imp_le)
  qed
  show ?thesis
    using aux [of i j] aux [of j i] assms by (metis less_le_trans nat_le_linear)
qed

end
