(* ===== verification/F64.thy ===== *)
theory F64
  imports Complex_Main "HOL-Library.Log_Nat" Prelude
begin

text \<open>
  IEEE-754 double precision, as Rust's \<open>f64\<close> has it, for the planner's soft task-count
  estimates. A value is not-a-number, an infinity, or a finite rational; arithmetic is exact
  rational arithmetic followed by \<open>rnd\<close>, rounding to 53 significant bits (fewer in the
  subnormal range), ties to even, overflow to infinity. Zero is unsigned: the code compares and
  adds zeros, where both zeros agree, and divides by a value it has tested to be positive.
  \<open>as usize\<close> truncates and saturates, and sends not-a-number to 0.
\<close>

datatype f64 = NaN | PInf | NInf | Fin rat

section \<open>Rounding\<close>

definition pow2 :: "int \<Rightarrow> rat" where
  "pow2 k = (if 0 \<le> k then 2 ^ nat k else 1 / 2 ^ nat (- k))"

text \<open>\<open>ilog2 a\<close> is the exponent of a positive rational: \<open>2 ^ e \<le> a < 2 ^ (e + 1)\<close>.\<close>

definition ilog2 :: "rat \<Rightarrow> int" where
  "ilog2 a =
     (if 1 \<le> a then int (floorlog 2 (nat \<lfloor>a\<rfloor>)) - 1
      else - int (floorlog 2 (nat \<lceil>1 / a\<rceil> - 1)))"

definition round_half_even :: "rat \<Rightarrow> int" where
  "round_half_even m =
     (let f = \<lfloor>m\<rfloor>; d = m - of_int f
      in if d < 1 / 2 then f else if 1 / 2 < d then f + 1 else if even f then f else f + 1)"

definition quantum :: "rat \<Rightarrow> int" where
  "quantum a = max (ilog2 a - 52) (- 1074)"

definition rnd_pos :: "rat \<Rightarrow> rat" where
  "rnd_pos a = of_int (round_half_even (a / pow2 (quantum a))) * pow2 (quantum a)"

definition rnd :: "rat \<Rightarrow> f64" where
  "rnd x =
     (if x = 0 then Fin 0
      else let y = rnd_pos \<bar>x\<bar>
           in if 1024 \<le> ilog2 y then (if 0 < x then PInf else NInf)
              else Fin (if 0 < x then y else - y))"

section \<open>Operations\<close>

fun f64_add :: "f64 \<Rightarrow> f64 \<Rightarrow> f64" where
  "f64_add (Fin a) (Fin b) = rnd (a + b)"
| "f64_add NaN _ = NaN"
| "f64_add _ NaN = NaN"
| "f64_add PInf NInf = NaN"
| "f64_add NInf PInf = NaN"
| "f64_add PInf _ = PInf"
| "f64_add NInf _ = NInf"
| "f64_add _ y = y"

fun f64_neg :: "f64 \<Rightarrow> f64" where
  "f64_neg NaN = NaN"
| "f64_neg PInf = NInf"
| "f64_neg NInf = PInf"
| "f64_neg (Fin a) = Fin (- a)"

definition f64_sub :: "f64 \<Rightarrow> f64 \<Rightarrow> f64" where
  "f64_sub a b = f64_add a (f64_neg b)"

definition f64_inf :: "rat \<Rightarrow> f64" where
  "f64_inf s = (if s = 0 then NaN else if 0 < s then PInf else NInf)"

fun f64_mul :: "f64 \<Rightarrow> f64 \<Rightarrow> f64" where
  "f64_mul (Fin a) (Fin b) = rnd (a * b)"
| "f64_mul NaN _ = NaN"
| "f64_mul _ NaN = NaN"
| "f64_mul (Fin a) PInf = f64_inf a"
| "f64_mul PInf (Fin a) = f64_inf a"
| "f64_mul (Fin a) NInf = f64_inf (- a)"
| "f64_mul NInf (Fin a) = f64_inf (- a)"
| "f64_mul PInf PInf = PInf"
| "f64_mul PInf NInf = NInf"
| "f64_mul NInf PInf = NInf"
| "f64_mul NInf NInf = PInf"

fun f64_div :: "f64 \<Rightarrow> f64 \<Rightarrow> f64" where
  "f64_div (Fin a) (Fin b) = (if b = 0 then f64_inf a else rnd (a / b))"
| "f64_div NaN _ = NaN"
| "f64_div _ NaN = NaN"
| "f64_div (Fin a) PInf = Fin 0"
| "f64_div (Fin a) NInf = Fin 0"
| "f64_div PInf (Fin b) = (if b < 0 then NInf else PInf)"
| "f64_div NInf (Fin b) = (if b < 0 then PInf else NInf)"
| "f64_div _ _ = NaN"

fun f64_lt :: "f64 \<Rightarrow> f64 \<Rightarrow> bool" where
  "f64_lt (Fin a) (Fin b) = (a < b)"
| "f64_lt NaN _ = False"
| "f64_lt _ NaN = False"
| "f64_lt NInf NInf = False"
| "f64_lt NInf _ = True"
| "f64_lt PInf _ = False"
| "f64_lt (Fin _) PInf = True"
| "f64_lt (Fin _) NInf = False"

definition f64_partial_cmp :: "f64 \<Rightarrow> f64 \<Rightarrow> ordering option" where
  "f64_partial_cmp a b =
     (if a = NaN \<or> b = NaN then None
      else Some (if f64_lt a b then Less else if f64_lt b a then Greater else Equal))"

text \<open>\<open>f64::min\<close> and \<open>f64::max\<close> ignore a not-a-number operand.\<close>

definition f64_min :: "f64 \<Rightarrow> f64 \<Rightarrow> f64" where
  "f64_min a b = (if a = NaN then b else if b = NaN then a else if f64_lt b a then b else a)"

definition f64_max :: "f64 \<Rightarrow> f64 \<Rightarrow> f64" where
  "f64_max a b = (if a = NaN then b else if b = NaN then a else if f64_lt a b then b else a)"

fun f64_floor :: "f64 \<Rightarrow> f64" where
  "f64_floor (Fin a) = Fin (of_int \<lfloor>a\<rfloor>)"
| "f64_floor x = x"

fun f64_ceil :: "f64 \<Rightarrow> f64" where
  "f64_ceil (Fin a) = Fin (of_int \<lceil>a\<rceil>)"
| "f64_ceil x = x"

fun f64_is_finite :: "f64 \<Rightarrow> bool" where
  "f64_is_finite (Fin _) = True"
| "f64_is_finite _ = False"

fun f64_to_usize :: "f64 \<Rightarrow> nat" where
  "f64_to_usize NaN = 0"
| "f64_to_usize NInf = 0"
| "f64_to_usize PInf = usize_max"
| "f64_to_usize (Fin a) = (if 2 ^ 64 - 1 \<le> \<lfloor>a\<rfloor> then usize_max else nat \<lfloor>a\<rfloor>)"

definition f64_of_usize :: "nat \<Rightarrow> f64" where
  "f64_of_usize n = rnd (of_nat n)"

definition f64_max_value :: f64 where
  "f64_max_value = Fin ((2 ^ 53 - 1) * 2 ^ 971)"

definition f64_sum :: "f64 list \<Rightarrow> f64" where
  "f64_sum xs = foldl f64_add (Fin 0) xs"

section \<open>Order\<close>

definition f64_le :: "f64 \<Rightarrow> f64 \<Rightarrow> bool" where
  "f64_le a b \<longleftrightarrow> a \<noteq> NaN \<and> b \<noteq> NaN \<and> \<not> f64_lt b a"

lemma f64_min_le_right:
  assumes "b \<noteq> NaN"
  shows "f64_le (f64_min a b) b"
  using assms by (cases a; cases b) (auto simp: f64_min_def f64_le_def)

lemma f64_min_comm_NaN [simp]: "f64_min NaN b = b" "f64_min a NaN = a"
  by (auto simp: f64_min_def)

lemma f64_max_comm_NaN [simp]: "f64_max NaN b = b" "f64_max a NaN = a"
  by (auto simp: f64_max_def)

lemma f64_max_commute: "f64_max a b = f64_max b a"
  by (cases a; cases b) (auto simp: f64_max_def)

lemma f64_max_assoc: "f64_max (f64_max a b) c = f64_max a (f64_max b c)"
  by (cases a; cases b; cases c) (auto simp: f64_max_def)

lemma f64_max_idem [simp]: "f64_max a a = a"
  by (cases a) (auto simp: f64_max_def)

lemma f64_to_usize_Fin: "f64_to_usize (Fin a) = min usize_max (nat \<lfloor>a\<rfloor>)"
proof -
  define f where "f = \<lfloor>a\<rfloor>"
  have "usize_max \<le> nat f \<longleftrightarrow> 2 ^ 64 - 1 \<le> f"
    by (cases "0 \<le> f") (auto simp: usize_max_def nat_le_iff le_nat_iff)
  then have "usize_max \<le> nat \<lfloor>a\<rfloor> \<longleftrightarrow> 2 ^ 64 - 1 \<le> \<lfloor>a\<rfloor>"
    by (simp only: f_def)
  then show ?thesis
    unfolding f64_to_usize.simps min_def by simp
qed

lemma f64_to_usize_mono:
  "f64_le a b \<Longrightarrow> f64_to_usize a \<le> f64_to_usize b"
  by (cases a; cases b)
     (auto simp: f64_le_def not_less f64_to_usize_Fin simp del: f64_to_usize.simps(4)
        intro!: min.coboundedI2 nat_mono floor_mono)

lemma f64_ceil_mono: "f64_le a b \<Longrightarrow> f64_le (f64_ceil a) (f64_ceil b)"
  by (cases a; cases b) (auto simp: f64_le_def not_less ceiling_mono)

lemma f64_to_usize_bound [simp]: "f64_to_usize a \<le> usize_max"
  by (cases a) (simp_all add: f64_to_usize_Fin del: f64_to_usize.simps(4))

section \<open>Rounding lemmas\<close>

lemma pow2_pos [simp]: "0 < pow2 k"
  by (simp add: pow2_def)

lemma pow2_nonneg [simp]: "0 \<le> pow2 k"
  by (simp add: less_imp_le)

lemma pow2_neq_0 [simp]: "pow2 k \<noteq> 0"
  using pow2_pos [of k] by linarith

lemma pow2_powi: "pow2 k = power_int 2 k"
  by (simp add: pow2_def power_int_def inverse_eq_divide power_one_over)

lemma pow2_add: "pow2 (a + b) = pow2 a * pow2 b"
  by (simp add: pow2_powi power_int_add)

lemma pow2_0 [simp]: "pow2 0 = 1"
  by (simp add: pow2_def)

lemma pow2_int [simp]: "pow2 (int n) = 2 ^ n"
  by (simp add: pow2_def)

lemma pow2_Suc: "pow2 (e + 1) = 2 * pow2 e"
  using pow2_add [of 1 e] by (simp add: pow2_def add.commute)

lemma pow2_mono: "a \<le> b \<Longrightarrow> pow2 a \<le> pow2 b"
  by (simp add: pow2_powi power_int_increasing)

lemma pow2_less_cancel: "pow2 a < pow2 b \<Longrightarrow> a < b"
  using pow2_mono [of b a] by linarith

lemma floorlog2:
  assumes "0 < n"
  shows "2 ^ (floorlog 2 n - 1) \<le> n \<and> n < 2 ^ floorlog 2 n \<and> 0 < floorlog 2 n"
  using floorlog_bounds [of n 2] floorlog_eq_zero_iff [of 2 n] assms by simp

lemma ilog2_bounds:
  assumes "0 < a"
  shows "pow2 (ilog2 a) \<le> a \<and> a < pow2 (ilog2 a + 1)"
proof (cases "1 \<le> a")
  case True
  define n where "n = nat \<lfloor>a\<rfloor>"
  have n: "0 < n" "of_nat n \<le> a" "a < of_nat n + 1"
    using True by (auto simp: n_def le_floor_iff) linarith+
  have fl: "2 ^ (floorlog 2 n - 1) \<le> n" "n < 2 ^ floorlog 2 n" "0 < floorlog 2 n"
    using floorlog2 [OF n(1)] by auto
  have e: "ilog2 a = int (floorlog 2 n - 1)" "ilog2 a + 1 = int (floorlog 2 n)"
    using True fl(3) by (auto simp: ilog2_def n_def of_nat_diff)
  have "(2::rat) ^ (floorlog 2 n - 1) \<le> of_nat n"
    using of_nat_mono [OF fl(1), where 'a = rat] by simp
  moreover have "of_nat n + 1 \<le> (2::rat) ^ floorlog 2 n"
    using of_nat_mono [of "Suc n" "2 ^ floorlog 2 n", where 'a = rat] fl(2) by simp
  ultimately show ?thesis
    using n(2,3) unfolding e(2) unfolding e(1) pow2_int by linarith
next
  case False
  define n where "n = nat \<lceil>1 / a\<rceil> - 1"
  have one: "1 < 1 / a"
    using False assms by simp
  have n: "0 < n" "of_nat n < 1 / a" "1 / a \<le> of_nat n + 1"
  proof -
    have c: "2 \<le> \<lceil>1 / a\<rceil>"
      using one by linarith
    then show "0 < n"
      by (simp add: n_def)
    have i: "int n = \<lceil>1 / a\<rceil> - 1"
      unfolding n_def using c by linarith
    have "rat_of_int (int n) = of_int (\<lceil>1 / a\<rceil> - 1)"
      by (simp only: i)
    then show "of_nat n < 1 / a" "1 / a \<le> of_nat n + 1"
      by (simp_all) linarith+
  qed
  have fl: "2 ^ (floorlog 2 n - 1) \<le> n" "n < 2 ^ floorlog 2 n" "0 < floorlog 2 n"
    using floorlog2 [OF n(1)] by auto
  have e: "ilog2 a = - int (floorlog 2 n)"
    using False by (simp add: ilog2_def n_def)
  have "(2::rat) ^ (floorlog 2 n - 1) \<le> of_nat n"
    using of_nat_mono [OF fl(1), where 'a = rat] by simp
  then have lo: "(2::rat) ^ (floorlog 2 n - 1) < 1 / a"
    using n(2) by linarith
  have "of_nat n + 1 \<le> (2::rat) ^ floorlog 2 n"
    using of_nat_mono [of "Suc n" "2 ^ floorlog 2 n", where 'a = rat] fl(2) by simp
  then have hi: "1 / a \<le> (2::rat) ^ floorlog 2 n"
    using n(3) by linarith
  have "pow2 (ilog2 a + 1) = 1 / 2 ^ (floorlog 2 n - 1)"
    using fl(3) unfolding e
    by (auto simp: pow2_def nat_diff_distrib intro!: arg_cong [where f = "(^) 2"])
  moreover have "pow2 (ilog2 a) = 1 / 2 ^ floorlog 2 n"
    using fl(3) by (simp add: e pow2_def)
  moreover have "1 / 2 ^ floorlog 2 n \<le> a" "a < 1 / 2 ^ (floorlog 2 n - 1)"
    using lo hi assms by (simp_all add: field_simps)
  ultimately show ?thesis
    by simp
qed

lemma ilog2_unique:
  assumes "pow2 e \<le> a" "a < pow2 (e + 1)"
  shows "ilog2 a = e"
proof -
  have a: "0 < a"
    using assms(1) pow2_pos [of e] by linarith
  have "pow2 (ilog2 a) < pow2 (e + 1)" "pow2 e < pow2 (ilog2 a + 1)"
    using ilog2_bounds [OF a] assms by linarith+
  then show ?thesis
    by (auto dest!: pow2_less_cancel)
qed

lemma ilog2_mono: "0 < a \<Longrightarrow> a \<le> b \<Longrightarrow> ilog2 a \<le> ilog2 b"
  using ilog2_bounds [of a] ilog2_bounds [of b] pow2_less_cancel [of "ilog2 a" "ilog2 b + 1"]
  by linarith


lemma round_half_even_int [simp]: "round_half_even (of_int k) = k"
  by (simp add: round_half_even_def)

lemma round_half_even_bounds: "\<lfloor>m\<rfloor> \<le> round_half_even m \<and> round_half_even m \<le> \<lceil>m\<rceil>"
proof (cases "m = of_int \<lfloor>m\<rfloor>")
  case True
  then show ?thesis
    by (metis ceiling_of_int order.refl round_half_even_int)
next
  case False
  then have "\<lceil>m\<rceil> = \<lfloor>m\<rfloor> + 1"
    by (simp add: ceiling_altdef)
  then show ?thesis
    by (simp add: round_half_even_def Let_def)
qed

lemma round_half_even_err: "\<bar>of_int (round_half_even m) - m\<bar> \<le> 1 / 2"
proof -
  have "of_int \<lfloor>m\<rfloor> \<le> m" "m < of_int \<lfloor>m\<rfloor> + 1"
    by linarith+
  then show ?thesis
    unfolding round_half_even_def Let_def abs_le_iff by simp linarith
qed

lemma round_half_even_mono:
  assumes "m \<le> n"
  shows "round_half_even m \<le> round_half_even n"
proof (cases "\<lfloor>m\<rfloor> = \<lfloor>n\<rfloor>")
  case True
  then show ?thesis
    using assms unfolding round_half_even_def Let_def by (auto split: if_splits)
next
  case False
  then have "\<lfloor>m\<rfloor> < \<lfloor>n\<rfloor>"
    using floor_mono [OF assms] by linarith
  moreover have "\<lceil>m\<rceil> \<le> \<lfloor>m\<rfloor> + 1"
    by linarith
  ultimately show ?thesis
    using round_half_even_bounds [of m] round_half_even_bounds [of n] by linarith
qed

text \<open>A positive rational that needs no rounding: an integer multiple of its own quantum.\<close>

lemma rnd_pos_exact:
  assumes "a = of_int k * pow2 (quantum a)"
  shows "rnd_pos a = a"
proof -
  have "a / pow2 (quantum a) = of_int k"
    by (subst assms) simp
  then show ?thesis
    using assms by (simp add: rnd_pos_def)
qed

lemma pow2_multiple: "i \<le> j \<Longrightarrow> \<exists>k. pow2 j = of_int k * pow2 i"
  using pow2_add [of "j - i" i] pow2_int [of "nat (j - i)"]
  by (intro exI [of _ "2 ^ nat (j - i)"]) (simp add: pow2_def)

lemma quantum_mono: "0 < a \<Longrightarrow> a \<le> b \<Longrightarrow> quantum a \<le> quantum b"
  unfolding quantum_def using ilog2_mono [of a b] by linarith

lemma rnd_pos_pow2:
  assumes "- 1074 \<le> e"
  shows "rnd_pos (pow2 e) = pow2 e"
proof -
  have "ilog2 (pow2 e) = e"
    by (rule ilog2_unique) (simp_all add: pow2_Suc)
  then obtain k where "pow2 e = of_int k * pow2 (quantum (pow2 e))"
    using pow2_multiple [of "quantum (pow2 e)" e] assms by (auto simp: quantum_def)
  then show ?thesis
    by (rule rnd_pos_exact)
qed

lemma rnd_pos_err: "\<bar>rnd_pos a - a\<bar> \<le> pow2 (quantum a) / 2"
proof -
  let ?p = "pow2 (quantum a)"
  have "rnd_pos a - a = (of_int (round_half_even (a / ?p)) - a / ?p) * ?p"
    by (simp add: rnd_pos_def left_diff_distrib)
  then have "\<bar>rnd_pos a - a\<bar> = \<bar>of_int (round_half_even (a / ?p)) - a / ?p\<bar> * ?p"
    by (simp add: abs_mult)
  then show ?thesis
    using mult_right_mono [OF round_half_even_err [of "a / ?p"], of ?p] by simp
qed

lemma rnd_pos_mono_same:
  assumes "a \<le> b" "quantum a = quantum b"
  shows "rnd_pos a \<le> rnd_pos b"
  using assms round_half_even_mono [of "a / pow2 (quantum b)" "b / pow2 (quantum b)"]
  by (simp add: rnd_pos_def divide_right_mono mult_right_mono)

lemma rnd_pos_le_multiple:
  assumes "0 < a" "a \<le> of_int k * pow2 (quantum a)"
  shows "rnd_pos a \<le> of_int k * pow2 (quantum a)"
proof -
  have "a / pow2 (quantum a) \<le> of_int k"
    using assms(2) by (simp add: divide_le_eq)
  then have "round_half_even (a / pow2 (quantum a)) \<le> k"
    using round_half_even_mono [of "a / pow2 (quantum a)" "of_int k"] by simp
  then show ?thesis
    by (simp add: rnd_pos_def)
qed

lemma multiple_le_rnd_pos:
  assumes "0 < a" "of_int k * pow2 (quantum a) \<le> a"
  shows "of_int k * pow2 (quantum a) \<le> rnd_pos a"
proof -
  have "of_int k \<le> a / pow2 (quantum a)"
    using assms(2) by (simp add: le_divide_eq)
  then have "k \<le> round_half_even (a / pow2 (quantum a))"
    using round_half_even_mono [of "of_int k" "a / pow2 (quantum a)"] by simp
  then show ?thesis
    by (simp add: rnd_pos_def)
qed

text \<open>Rounding is monotone: between two quanta it stays on its side of the next power of two.\<close>

lemma rnd_pos_mono:
  assumes "0 < a" "a \<le> b"
  shows "rnd_pos a \<le> rnd_pos b"
proof (cases "quantum a = quantum b")
  case True
  then show ?thesis
    using assms(2) by (rule rnd_pos_mono_same [rotated])
next
  case False
  then have q: "quantum a < quantum b"
    using quantum_mono [OF assms] by linarith
  have b: "0 < b"
    using assms by linarith
  have eb: "quantum b = ilog2 b - 52" "ilog2 a + 1 \<le> ilog2 b" "quantum a \<le> ilog2 b"
    using q by (auto simp: quantum_def)
  obtain k where k: "pow2 (ilog2 b) = of_int k * pow2 (quantum a)"
    using pow2_multiple [OF eb(3)] by blast
  have "a \<le> pow2 (ilog2 b)"
    using ilog2_bounds [OF assms(1)] pow2_mono [OF eb(2)] by linarith
  then have "rnd_pos a \<le> pow2 (ilog2 b)"
    using rnd_pos_le_multiple [OF assms(1)] k by simp
  moreover obtain l where l: "pow2 (ilog2 b) = of_int l * pow2 (quantum b)"
    using pow2_multiple [of "quantum b" "ilog2 b"] eb(1) by auto
  then have "pow2 (ilog2 b) \<le> rnd_pos b"
    using multiple_le_rnd_pos [OF b] ilog2_bounds [OF b] by simp
  ultimately show ?thesis
    by linarith
qed

lemma rnd_pos_nat:
  assumes "0 < n" "n \<le> 2 ^ 53"
  shows "rnd_pos (of_nat n) = of_nat n"
proof (cases "n = 2 ^ 53")
  case True
  then show ?thesis
    using rnd_pos_pow2 [of 53] by (simp add: pow2_def)
next
  case False
  let ?a = "of_nat n :: rat"
  have a: "0 < ?a" "?a < 2 ^ 53"
    using assms False of_nat_less_iff [of n "2 ^ 53", where 'a = rat] by auto
  have "pow2 (ilog2 ?a) < pow2 53"
    using ilog2_bounds [OF a(1)] a(2) by (simp add: pow2_def)
  then have "quantum ?a \<le> 0"
    by (auto simp: quantum_def dest!: pow2_less_cancel)
  then obtain k where "1 = of_int k * pow2 (quantum ?a)"
    using pow2_multiple [of "quantum ?a" 0] by auto
  then have "?a = of_int (int n * k) * pow2 (quantum ?a)"
    by (metis (no_types) mult.assoc mult.right_neutral of_int_mult of_int_of_nat_eq)
  then show ?thesis
    by (rule rnd_pos_exact)
qed

lemma ilog2_no_overflow:
  assumes "0 < y" "y < 2 ^ 1024"
  shows "\<not> 1024 \<le> ilog2 y"
  using ilog2_bounds [OF assms(1)] assms(2) pow2_int [of 1024] pow2_less_cancel [of "ilog2 y" 1024]
  by simp

lemma f64_of_usize_exact:
  assumes "n \<le> 2 ^ 53"
  shows "f64_of_usize n = Fin (of_nat n)"
proof (cases "n = 0")
  case False
  have "(of_nat n :: rat) \<le> 2 ^ 53"
    using of_nat_mono [OF assms, where 'a = rat] by simp
  also have "\<dots> < 2 ^ 1024"
    by simp
  finally show ?thesis
    using False rnd_pos_nat [of n] assms ilog2_no_overflow [of "of_nat n"]
    by (simp add: f64_of_usize_def rnd_def)
qed (simp add: f64_of_usize_def rnd_def)

section \<open>Representable values\<close>

text \<open>The finite values an \<open>f64\<close> can hold are the fixed points of rounding.\<close>

fun f64_wf :: "f64 \<Rightarrow> bool" where
  "f64_wf (Fin a) = (rnd a = Fin a)"
| "f64_wf _ = True"

lemma rnd_pos_nonneg: "0 < a \<Longrightarrow> 0 \<le> rnd_pos a"
  using multiple_le_rnd_pos [of a 0] by simp

lemma rnd_pos_idem:
  assumes "0 < a" "rnd_pos a \<noteq> 0"
  shows "rnd_pos (rnd_pos a) = rnd_pos a"
proof -
  define M where "M = max (ilog2 a + 1) (- 1074)"
  have q: "quantum a \<le> M"
    by (simp add: M_def quantum_def)
  obtain k where k: "pow2 M = of_int k * pow2 (quantum a)"
    using pow2_multiple [OF q] by blast
  have "a \<le> pow2 M"
    using ilog2_bounds [OF assms(1)] pow2_mono [of "ilog2 a + 1" M] by (simp add: M_def)
  then have le: "rnd_pos a \<le> pow2 M"
    using rnd_pos_le_multiple [OF assms(1)] k by simp
  have pos: "0 < rnd_pos a"
    using assms rnd_pos_nonneg [OF assms(1)] by simp
  show ?thesis
  proof (cases "rnd_pos a = pow2 M")
    case True
    then show ?thesis
      using rnd_pos_pow2 [of M] by (simp add: M_def)
  next
    case False
    then have "pow2 (ilog2 (rnd_pos a)) < pow2 M"
      using le ilog2_bounds [OF pos] by linarith
    then have "quantum (rnd_pos a) \<le> quantum a"
      by (auto simp: quantum_def M_def dest!: pow2_less_cancel)
    then obtain l where "pow2 (quantum a) = of_int l * pow2 (quantum (rnd_pos a))"
      using pow2_multiple by blast
    then have "rnd_pos a = of_int (round_half_even (a / pow2 (quantum a)) * l) * pow2 (quantum (rnd_pos a))"
      by (simp add: rnd_pos_def [of a])
    then show ?thesis
      by (rule rnd_pos_exact)
  qed
qed

lemma rnd_Fin_pos:
  assumes "rnd x = Fin y" "0 < x"
  shows "y = rnd_pos x" "0 \<le> y"
  using assms rnd_pos_nonneg [of x] by (auto simp: rnd_def Let_def split: if_splits)

lemma rnd_nonneg_cases:
  assumes "0 \<le> x"
  shows "rnd x = PInf \<or> (\<exists>y. rnd x = Fin y \<and> 0 \<le> y \<and> f64_wf (Fin y))"
proof (cases "x = 0 \<or> rnd_pos x = 0")
  case True
  then show ?thesis
    using assms by (auto simp: rnd_def Let_def ilog2_def)
next
  case False
  then have x: "0 < x" "0 < rnd_pos x"
    using assms rnd_pos_nonneg [of x] by auto
  then show ?thesis
    using rnd_pos_idem [OF x(1)] by (auto simp: rnd_def Let_def)
qed

lemma rnd_mono_wf:
  assumes "f64_wf (Fin a)" "0 \<le> a" "a \<le> x" "rnd x = Fin y"
  shows "a \<le> y"
proof (cases "a = 0")
  case True
  then show ?thesis
    using assms rnd_nonneg_cases [of x] by auto
next
  case False
  then have a: "0 < a" "0 < x"
    using assms by auto
  have "rnd_pos a = a"
    using rnd_Fin_pos(1) [of a a] assms(1) a(1) by simp
  then show ?thesis
    using rnd_pos_mono [OF a(1) assms(3)] rnd_Fin_pos(1) [OF assms(4) a(2)] by simp
qed

lemma rnd_le_wf:
  assumes "f64_wf (Fin b)" "0 \<le> x" "x \<le> b" "rnd x = Fin y"
  shows "y \<le> b"
proof (cases "x = 0")
  case True
  then show ?thesis
    using assms by (simp add: rnd_def)
next
  case False
  then have x: "0 < x" "0 < b"
    using assms by auto
  have "rnd_pos b = b"
    using rnd_Fin_pos(1) [of b b] assms(1) x(2) by simp
  then show ?thesis
    using rnd_pos_mono [OF x(1) assms(3)] rnd_Fin_pos(1) [OF assms(4) x(1)] by simp
qed

lemma rnd_pos_multiple:
  assumes "a = of_int k * pow2 e" "- 1074 \<le> e" "0 < a" "a < pow2 (e + 53)"
  shows "rnd_pos a = a"
proof -
  have "pow2 (ilog2 a) < pow2 (e + 53)"
    using ilog2_bounds [OF assms(3)] assms(4) by linarith
  then have "quantum a \<le> e"
    using assms(2) by (auto simp: quantum_def dest!: pow2_less_cancel)
  then obtain l where "pow2 e = of_int l * pow2 (quantum a)"
    using pow2_multiple by blast
  then have "a = of_int (k * l) * pow2 (quantum a)"
    using assms(1) by simp
  then show ?thesis
    by (rule rnd_pos_exact)
qed

lemma rnd_no_overflow:
  assumes "0 < x" "rnd_pos x < 2 ^ 1024"
  shows "rnd x = Fin (rnd_pos x)"
proof (cases "rnd_pos x = 0")
  case True
  then show ?thesis
    using assms by (simp add: rnd_def ilog2_def)
next
  case False
  then have "\<not> 1024 \<le> ilog2 (rnd_pos x)"
    using assms rnd_pos_nonneg [OF assms(1)] by (intro ilog2_no_overflow) auto
  then show ?thesis
    using assms by (simp add: rnd_def)
qed

lemma f64_wf_half:
  assumes "n < 2 ^ 52"
  shows "f64_wf (Fin (of_nat n + 1 / 2))"
proof -
  let ?a = "of_nat n + 1 / 2 :: rat"
  have "of_nat (Suc n) \<le> (2 ^ 52 :: rat)"
    using of_nat_mono [of "Suc n" "2 ^ 52", where 'a = rat] assms by simp
  then have lt: "?a < 2 ^ 52"
    by simp
  have "rnd_pos ?a = ?a"
    using lt by (intro rnd_pos_multiple [of _ "2 * int n + 1" "- 1"]) (simp_all add: pow2_def field_simps)
  moreover have "?a < 2 ^ 1024"
    by (rule less_trans [OF lt]) simp
  moreover have "0 < ?a"
    by (simp add: add_nonneg_pos)
  ultimately show ?thesis
    using rnd_no_overflow [of ?a] by simp
qed

lemma f64_sum_nonneg:
  assumes "\<forall>x \<in> set xs. \<exists>s. x = Fin s \<and> 0 \<le> s \<and> f64_wf x"
  shows "f64_sum xs = PInf \<or>
    (\<exists>w. f64_sum xs = Fin w \<and> 0 \<le> w \<and> f64_wf (Fin w) \<and> (\<forall>s. Fin s \<in> set xs \<longrightarrow> s \<le> w))"
  using assms
proof (induction xs rule: rev_induct)
  case Nil
  then show ?case
    by (simp add: f64_sum_def rnd_def)
next
  case (snoc x xs)
  obtain s where s: "x = Fin s" "0 \<le> s" "f64_wf (Fin s)"
    using snoc.prems by auto
  have step: "f64_sum (xs @ [x]) = f64_add (f64_sum xs) x"
    by (simp add: f64_sum_def)
  have "f64_sum xs = PInf \<or>
      (\<exists>w. f64_sum xs = Fin w \<and> 0 \<le> w \<and> f64_wf (Fin w) \<and> (\<forall>s. Fin s \<in> set xs \<longrightarrow> s \<le> w))"
    using snoc by simp
  then show ?case
  proof (elim disjE exE conjE)
    assume "f64_sum xs = PInf"
    then show ?thesis
      using s(1) unfolding step by simp
  next
    fix w assume w: "f64_sum xs = Fin w" "0 \<le> w" "f64_wf (Fin w)" "\<forall>s. Fin s \<in> set xs \<longrightarrow> s \<le> w"
    have total: "f64_sum (xs @ [x]) = rnd (w + s)"
      unfolding step w(1) by (simp add: s(1))
    have "rnd (w + s) = PInf \<or> (\<exists>y. rnd (w + s) = Fin y \<and> 0 \<le> y \<and> f64_wf (Fin y))"
      using w(2) s(2) by (intro rnd_nonneg_cases) simp
    then show ?thesis
    proof (elim disjE exE conjE)
      fix y assume y: "rnd (w + s) = Fin y" "0 \<le> y" "f64_wf (Fin y)"
      have "w \<le> y" "s \<le> y"
        using rnd_mono_wf [OF w(3,2) _ y(1)] rnd_mono_wf [OF s(3,2) _ y(1)] w(2) s(2) by simp_all
      then have "\<forall>t. Fin t \<in> set (xs @ [x]) \<longrightarrow> t \<le> y"
        using w(4) s(1) by force
      then show ?thesis
        unfolding total y(1) using y(2,3) by blast
    qed (simp only: total simp_thms)
  qed
qed

lemma rnd_pos_mul_bound:
  assumes "f64_wf (Fin s)" "0 < s" "0 < n" "n < 2 ^ 52"
  shows "rnd_pos (of_nat n * s) \<le> (of_nat n + 1 / 2) * s"
proof (cases "- 1074 < quantum (of_nat n * s)")
  case True
  let ?a = "of_nat n * s"
  have a: "0 < ?a"
    using assms by simp
  have "pow2 (quantum ?a) = pow2 (ilog2 ?a) * pow2 (- 52)"
    using True pow2_add [of "ilog2 ?a" "- 52"] by (simp add: quantum_def)
  also have "\<dots> \<le> ?a * pow2 (- 52)"
    using ilog2_bounds [OF a] by (intro mult_right_mono) simp_all
  also have "\<dots> = (of_nat n * pow2 (- 52)) * s"
    by simp
  also have "\<dots> \<le> 1 * s"
    using assms(2,4) of_nat_mono [of n "2 ^ 52", where 'a = rat]
    by (intro mult_right_mono) (simp_all add: pow2_def)
  finally have "pow2 (quantum ?a) / 2 \<le> s / 2"
    by simp
  moreover have "rnd_pos ?a \<le> ?a + pow2 (quantum ?a) / 2"
    using rnd_pos_err [of ?a] by linarith
  ultimately show ?thesis
    by (simp add: distrib_right)
next
  case False
  let ?a = "of_nat n * s"
  have q: "quantum ?a = - 1074"
    using False by (simp add: quantum_def)
  have "quantum s \<le> quantum ?a"
    using assms by (intro quantum_mono) simp_all
  then have qs: "quantum s = - 1074"
    using q by (simp add: quantum_def)
  have "s = of_int (round_half_even (s / pow2 (- 1074))) * pow2 (- 1074)"
    using rnd_Fin_pos(1) [of s s] assms(1,2) qs by (simp add: rnd_pos_def)
  then have "?a = of_int (int n * round_half_even (s / pow2 (- 1074))) * pow2 (quantum ?a)"
    unfolding q by (metis mult.assoc of_int_mult of_int_of_nat_eq)
  then have "rnd_pos ?a = ?a"
    by (rule rnd_pos_exact)
  then show ?thesis
    using assms(2) by (simp add: distrib_right)
qed

lemma f64_to_usize_floor_le:
  assumes "0 \<le> y" "y < of_nat n + 1"
  shows "f64_to_usize (f64_floor (Fin y)) \<le> n"
proof -
  have "\<lfloor>y\<rfloor> \<le> int n"
    using assms(2) by (simp add: floor_le_iff)
  then show ?thesis
    by (simp add: f64_to_usize_Fin del: f64_to_usize.simps(4))
qed

lemma rnd_le_half:
  assumes "0 \<le> x" "x \<le> of_nat n + 1 / 2" "n < 2 ^ 52"
  shows "\<exists>y. rnd x = Fin y \<and> 0 \<le> y \<and> y \<le> of_nat n + 1 / 2"
proof (cases "x = 0")
  case True
  then show ?thesis
    by (simp add: rnd_def)
next
  case False
  let ?b = "of_nat n + 1 / 2 :: rat"
  have x: "0 < x" "0 < ?b"
    using assms False by auto
  have "rnd_pos ?b = ?b"
    using rnd_Fin_pos(1) [of ?b ?b] f64_wf_half [OF assms(3)] x(2) by simp
  then have le: "rnd_pos x \<le> ?b"
    using rnd_pos_mono [OF x(1) assms(2)] by simp
  have "of_nat n < (2 ^ 52 :: rat)"
    using of_nat_less_iff [of n "2 ^ 52", where 'a = rat] assms(3) by simp
  then have "?b < 2 ^ 53"
    by simp
  also have "\<dots> < (2 ^ 1024 :: rat)"
    by simp
  finally have "rnd x = Fin (rnd_pos x)"
    using le by (intro rnd_no_overflow [OF x(1)]) linarith
  then show ?thesis
    using le rnd_pos_nonneg [OF x(1)] by simp
qed

text \<open>A proportional share of \<open>n\<close> never floors above \<open>n\<close>, although both the product and the
  quotient are rounded.\<close>

lemma share_floor_le:
  assumes "f64_wf (Fin s)" "0 \<le> s" "n < 2 ^ 52" "of_nat n * s < 2 ^ 1023"
    "w = PInf \<or> (\<exists>v. w = Fin v \<and> 0 < v \<and> s \<le> v)"
  shows "f64_to_usize (f64_floor (f64_div (f64_mul (f64_of_usize n) (Fin s)) w)) \<le> n"
proof -
  have n: "f64_of_usize n = Fin (of_nat n)"
    using assms(3) by (intro f64_of_usize_exact) simp
  have "\<exists>p. rnd (of_nat n * s) = Fin p \<and> 0 \<le> p \<and> p \<le> (of_nat n + 1 / 2) * s"
  proof (cases "of_nat n * s = 0")
    case True
    then show ?thesis
      using assms(2) by (simp add: rnd_def)
  next
    case False
    then have pos: "0 < s" "0 < n"
      using assms(2) by auto
    have le: "rnd_pos (of_nat n * s) \<le> (of_nat n + 1 / 2) * s"
      using pos assms by (intro rnd_pos_mul_bound) auto
    have "1 / 2 \<le> (of_nat n :: rat)"
      using pos(2) of_nat_mono [of 1 n, where 'a = rat] by simp
    then have "(of_nat n + 1 / 2) * s \<le> (of_nat n + of_nat n) * s"
      using pos(1) by (intro mult_right_mono add_left_mono) simp_all
    also have "\<dots> < 2 * 2 ^ 1023"
      using assms(4) by (simp only: distrib_right)
    also have "\<dots> = (2 :: rat) ^ Suc 1023"
      by (rule power_Suc [symmetric])
    also have "Suc 1023 = 1024"
      by simp
    finally have "rnd (of_nat n * s) = Fin (rnd_pos (of_nat n * s))"
      using le pos by (intro rnd_no_overflow) auto
    then show ?thesis
      using le rnd_pos_nonneg [of "of_nat n * s"] pos by simp
  qed
  then obtain p where p: "rnd (of_nat n * s) = Fin p" "0 \<le> p" "p \<le> (of_nat n + 1 / 2) * s"
    by blast
  from assms(5) show ?thesis
  proof (elim disjE exE conjE)
    assume "w = PInf"
    then show ?thesis
      using f64_to_usize_floor_le [of 0 n] by (simp add: n p(1) del: f64_to_usize.simps)
  next
    fix v assume v: "w = Fin v" "0 < v" "s \<le> v"
    have "(of_nat n + 1 / 2) * s \<le> (of_nat n + 1 / 2) * v"
      using v(3) by (intro mult_left_mono) simp_all
    then have "p \<le> (of_nat n + 1 / 2) * v"
      using p(3) by linarith
    then have "p / v \<le> of_nat n + 1 / 2"
      using v(2) by (simp add: divide_le_eq)
    then obtain y where "rnd (p / v) = Fin y" "0 \<le> y" "y \<le> of_nat n + 1 / 2"
      using rnd_le_half [of "p / v" n] p(2) v(2) assms(3) by auto
    then show ?thesis
      using f64_to_usize_floor_le [of y n] v(2) by (simp add: n p(1) v(1) del: f64_to_usize.simps)
  qed
qed

end
