(* ===== verification/EventHandlers.thy ===== *)
theory EventHandlers
  imports Prelude
begin

text \<open>
  The chains of event handlers a session registers (\<open>src/src/events/common.rs\<close>): user
  handlers are asked before the built-in ones, and the first handler that answers decides. The
  session configuration stores one chain per handler type, so the operations that register a
  handler work on the optional chain found under that type.
\<close>

record 'h handler_chain =
  builtin :: "'h list"
  custom :: "'h list"

definition chain_default :: "'h handler_chain" where
  "chain_default = \<lparr>builtin = [], custom = []\<rparr>"

definition chain_iter :: "'h handler_chain \<Rightarrow> 'h list" where
  "chain_iter c = custom c @ builtin c"

text \<open>\<open>Iterator::find_map\<close>.\<close>

fun iter_find_map :: "('h \<Rightarrow> 'r option) \<Rightarrow> 'h list \<Rightarrow> 'r option" where
  "iter_find_map f [] = None"
| "iter_find_map f (h # hs) = (case f h of Some r \<Rightarrow> Some r | None \<Rightarrow> iter_find_map f hs)"

definition chain_find_map :: "'h handler_chain \<Rightarrow> ('h \<Rightarrow> 'r option) \<Rightarrow> 'r option" where
  "chain_find_map c f =
     (case iter_find_map f (custom c) of
        Some r \<Rightarrow> Some r
      | None \<Rightarrow> iter_find_map f (builtin c))"

definition get_chain :: "'h handler_chain option \<Rightarrow> 'h handler_chain" where
  "get_chain ext = (case ext of Some c \<Rightarrow> c | None \<Rightarrow> chain_default)"

definition push_builtin :: "'h \<Rightarrow> 'h handler_chain option \<Rightarrow> 'h handler_chain option" where
  "push_builtin h ext = (let c = get_chain ext in Some (c\<lparr>builtin := builtin c @ [h]\<rparr>))"

definition extend_builtin :: "'h list \<Rightarrow> 'h handler_chain option \<Rightarrow> 'h handler_chain option" where
  "extend_builtin hs ext =
     (let c = get_chain ext
      in Some (fold (\<lambda>h c. c\<lparr>builtin := builtin c @ [h]\<rparr>) hs c))"

definition push_custom :: "'h \<Rightarrow> 'h handler_chain option \<Rightarrow> 'h handler_chain option" where
  "push_custom h ext = (let c = get_chain ext in Some (c\<lparr>custom := custom c @ [h]\<rparr>))"

text \<open>
  The \<open>handle\<close> functions of the typed chains: a missing extension answers nothing, otherwise
  the handlers are asked in the order of \<open>iter\<close> and the first answer returns.
\<close>

definition handlers_handle ::
  "('h \<Rightarrow> 'ev \<Rightarrow> 'r option) \<Rightarrow> 'h handler_chain option \<Rightarrow> 'ev \<Rightarrow> 'r option" where
  "handlers_handle handle ext ev =
     (case ext of
        None \<Rightarrow> None
      | Some c \<Rightarrow> iter_find_map (\<lambda>h. handle h ev) (chain_iter c))"

section \<open>Lemmas\<close>

lemma iter_find_map_append:
  "iter_find_map f (xs @ ys) =
     (case iter_find_map f xs of Some r \<Rightarrow> Some r | None \<Rightarrow> iter_find_map f ys)"
  by (induction xs) (auto split: option.splits)

lemma iter_find_map_None: "iter_find_map f xs = None \<longleftrightarrow> (\<forall>x \<in> set xs. f x = None)"
  by (induction xs) (auto split: option.splits)

lemma iter_find_map_SomeI:
  assumes "\<forall>y \<in> set ys. f y = None" "f h = Some r"
  shows "iter_find_map f (ys @ h # zs) = Some r"
  using assms iter_find_map_None [of f ys] by (simp add: iter_find_map_append)

lemma iter_find_map_SomeD:
  "iter_find_map f xs = Some r \<Longrightarrow>
     \<exists>ys h zs. xs = ys @ h # zs \<and> (\<forall>y \<in> set ys. f y = None) \<and> f h = Some r"
proof (induction xs)
  case (Cons x xs)
  show ?case
  proof (cases "f x")
    case None
    then obtain ys h zs
      where "xs = ys @ h # zs" "\<forall>y \<in> set ys. f y = None" "f h = Some r"
      using Cons by auto
    then show ?thesis
      using None by (intro exI [of _ "x # ys"] exI [of _ h] exI [of _ zs]) auto
  next
    case (Some a)
    then show ?thesis
      using Cons.prems by (intro exI [of _ "[]"]) auto
  qed
qed simp

lemma chain_find_map_iter: "chain_find_map c f = iter_find_map f (chain_iter c)"
  by (simp add: chain_find_map_def chain_iter_def iter_find_map_append)

lemma fold_push_builtin:
  "fold (\<lambda>h c. c\<lparr>builtin := builtin c @ [h]\<rparr>) hs c = c\<lparr>builtin := builtin c @ hs\<rparr>"
  by (induction hs arbitrary: c) auto

lemma extend_builtin_foldr:
  "extend_builtin hs ext = Some ((get_chain ext)\<lparr>builtin := builtin (get_chain ext) @ hs\<rparr>)"
  by (simp add: extend_builtin_def Let_def fold_push_builtin)

end
