(* ===== verification/TaskCount.thy ===== *)
theory TaskCount
  imports F64 EventHandlers
begin

text \<open>
  Task-count annotations (\<open>src/src/events/desired_task_count.rs\<close>). Every plan node may carry a
  soft estimate and a restriction on the number of tasks of its stage; the planner merges the
  annotations of a stage and resolves the result to an integer.
\<close>

section \<open>Restrictions\<close>

text \<open>\<open>NonZeroUsize\<close> values are naturals; \<open>wf_restriction\<close> says that they are not 0.\<close>

datatype task_count_restriction =
    RNone
  | Exact nat
  | Min nat
  | Max nat
  | Range nat nat

datatype task_count_error =
    IncompatibleExact nat nat
  | ExactBelowMin nat nat
  | ExactAboveMax nat nat
  | ExactOutsideRange nat nat nat
  | MinAboveMax nat nat
  | MaxBelowMin nat nat
  | IncompatibleRanges nat nat nat nat
  | RangeMinAboveMax nat nat

definition merge_exact_min :: "nat \<Rightarrow> nat \<Rightarrow> (task_count_error, task_count_restriction) res" where
  "merge_exact_min e mn = (if e < mn then Inl (ExactBelowMin e mn) else Inr (Exact e))"

definition merge_exact_max :: "nat \<Rightarrow> nat \<Rightarrow> (task_count_error, task_count_restriction) res" where
  "merge_exact_max e mx = (if mx < e then Inl (ExactAboveMax e mx) else Inr (Exact e))"

definition merge_exact_range ::
  "nat \<Rightarrow> nat \<Rightarrow> nat \<Rightarrow> (task_count_error, task_count_restriction) res" where
  "merge_exact_range e mn mx =
     (if \<not> (mn \<le> e \<and> e \<le> mx) then Inl (ExactOutsideRange e mn mx) else Inr (Exact e))"

definition merge_range_min ::
  "nat \<Rightarrow> nat \<Rightarrow> nat \<Rightarrow> (task_count_error, task_count_restriction) res" where
  "merge_range_min rmin rmax mn =
     (if rmax < mn then Inl (MinAboveMax mn rmax)
      else let mn' = max mn rmin in if mn' = rmax then Inr (Exact mn') else Inr (Range mn' rmax))"

definition merge_range_max ::
  "nat \<Rightarrow> nat \<Rightarrow> nat \<Rightarrow> (task_count_error, task_count_restriction) res" where
  "merge_range_max rmin rmax mx =
     (if mx < rmin then Inl (MaxBelowMin mx rmin)
      else let mx' = min mx rmax in if rmin = mx' then Inr (Exact mx') else Inr (Range rmin mx'))"

definition merge_min_max :: "nat \<Rightarrow> nat \<Rightarrow> (task_count_error, task_count_restriction) res" where
  "merge_min_max mn mx =
     (if mx < mn then Inl (MinAboveMax mn mx)
      else if mn = mx then Inr (Exact mn) else Inr (Range mn mx))"

definition merge_range_range ::
  "nat \<Rightarrow> nat \<Rightarrow> nat \<Rightarrow> nat \<Rightarrow> (task_count_error, task_count_restriction) res" where
  "merge_range_range amin amax bmin bmax =
     (if \<not> (amin \<le> bmax \<and> bmin \<le> amax) then Inl (IncompatibleRanges amin amax bmin bmax)
      else let mn = max amin bmin; mx = min amax bmax
           in if mn = mx then Inr (Exact mn) else Inr (Range mn mx))"

fun restriction_merge ::
  "task_count_restriction \<Rightarrow> task_count_restriction \<Rightarrow>
     (task_count_error, task_count_restriction) res" where
  "restriction_merge RNone r = Inr r"
| "restriction_merge r RNone = Inr r"
| "restriction_merge (Exact a) (Exact b) =
     (if a \<noteq> b then Inl (IncompatibleExact a b) else Inr (Exact a))"
| "restriction_merge (Min a) (Min b) = Inr (Min (max a b))"
| "restriction_merge (Max a) (Max b) = Inr (Max (min a b))"
| "restriction_merge (Exact e) (Min mn) = merge_exact_min e mn"
| "restriction_merge (Min mn) (Exact e) = merge_exact_min e mn"
| "restriction_merge (Exact e) (Max mx) = merge_exact_max e mx"
| "restriction_merge (Max mx) (Exact e) = merge_exact_max e mx"
| "restriction_merge (Exact e) (Range mn mx) = merge_exact_range e mn mx"
| "restriction_merge (Range mn mx) (Exact e) = merge_exact_range e mn mx"
| "restriction_merge (Range rmin rmax) (Min mn) = merge_range_min rmin rmax mn"
| "restriction_merge (Min mn) (Range rmin rmax) = merge_range_min rmin rmax mn"
| "restriction_merge (Range rmin rmax) (Max mx) = merge_range_max rmin rmax mx"
| "restriction_merge (Max mx) (Range rmin rmax) = merge_range_max rmin rmax mx"
| "restriction_merge (Min mn) (Max mx) = merge_min_max mn mx"
| "restriction_merge (Max mx) (Min mn) = merge_min_max mn mx"
| "restriction_merge (Range amin amax) (Range bmin bmax) = merge_range_range amin amax bmin bmax"

section \<open>Annotations\<close>

record task_count_annotation =
  soft :: f64
  restriction :: task_count_restriction

definition ann_soft :: "f64 \<Rightarrow> task_count_annotation" where
  "ann_soft v = \<lparr>soft = v, restriction = RNone\<rparr>"

definition ann_exact :: "nat \<Rightarrow> f64 \<Rightarrow> task_count_annotation" where
  "ann_exact e s = \<lparr>soft = s, restriction = Exact e\<rparr>"

definition get_exact :: "task_count_annotation \<Rightarrow> nat option" where
  "get_exact a = (case restriction a of Exact v \<Rightarrow> Some v | _ \<Rightarrow> None)"

definition get_min :: "task_count_annotation \<Rightarrow> nat option" where
  "get_min a =
     (case restriction a of Exact v \<Rightarrow> Some v | Min v \<Rightarrow> Some v | Range v _ \<Rightarrow> Some v | _ \<Rightarrow> None)"

definition get_max :: "task_count_annotation \<Rightarrow> nat option" where
  "get_max a =
     (case restriction a of Exact v \<Rightarrow> Some v | Max v \<Rightarrow> Some v | Range _ v \<Rightarrow> Some v | _ \<Rightarrow> None)"

definition ann_min :: "nat \<Rightarrow> f64 \<Rightarrow> task_count_annotation" where
  "ann_min mn s = \<lparr>soft = s, restriction = Min mn\<rparr>"

definition ann_max :: "nat \<Rightarrow> f64 \<Rightarrow> task_count_annotation" where
  "ann_max mx s = \<lparr>soft = s, restriction = Max mx\<rparr>"

definition ann_try_range ::
  "nat \<Rightarrow> nat \<Rightarrow> f64 \<Rightarrow> (task_count_error, task_count_annotation) res" where
  "ann_try_range mn mx s =
     (if mx < mn then Inl (RangeMinAboveMax mn mx)
      else Inr \<lparr>soft = s, restriction = (if mn = mx then Exact mn else Range mn mx)\<rparr>)"

definition response_exactly_one :: task_count_annotation where
  "response_exactly_one = ann_exact 1 (Fin 0)"

definition response_unbounded :: task_count_annotation where
  "response_unbounded = ann_soft f64_max_value"

text \<open>The integer the soft estimate alone asks for.\<close>

definition soft_tasks :: "f64 \<Rightarrow> nat" where
  "soft_tasks s = max (f64_to_usize (f64_ceil s)) 1"

definition as_usize :: "task_count_annotation \<Rightarrow> nat" where
  "as_usize a =
     (let tasks = soft_tasks (soft a)
      in case restriction a of
           RNone \<Rightarrow> tasks
         | Exact e \<Rightarrow> e
         | Min mn \<Rightarrow> max tasks mn
         | Max mx \<Rightarrow> min tasks mx
         | Range mn mx \<Rightarrow> min (max mn tasks) mx)"

definition ann_merge ::
  "task_count_annotation \<Rightarrow> task_count_annotation \<Rightarrow>
     (task_count_error, task_count_annotation) res" where
  "ann_merge a b =
     bind_res (restriction_merge (restriction a) (restriction b)) (\<lambda>r.
       Inr \<lparr>soft = f64_max (soft a) (soft b), restriction = r\<rparr>)"

text \<open>
  A plain \<open>usize\<close> registered as a handler answers for leaf nodes only, with itself as the soft
  estimate.
\<close>

definition usize_handler ::
  "('p \<Rightarrow> 'p list) \<Rightarrow> nat \<Rightarrow> 'p \<Rightarrow> (task_count_error, task_count_annotation) res option" where
  "usize_handler children n plan =
     (if children plan = [] then Some (Inr (ann_soft (f64_of_usize n))) else None)"

section \<open>The counts a restriction admits\<close>

fun admits :: "task_count_restriction \<Rightarrow> nat \<Rightarrow> bool" where
  "admits RNone n = True"
| "admits (Exact e) n = (n = e)"
| "admits (Min mn) n = (mn \<le> n)"
| "admits (Max mx) n = (n \<le> mx)"
| "admits (Range mn mx) n = (mn \<le> n \<and> n \<le> mx)"

fun wf_restriction :: "task_count_restriction \<Rightarrow> bool" where
  "wf_restriction RNone = True"
| "wf_restriction (Exact e) = (0 < e)"
| "wf_restriction (Min mn) = (0 < mn)"
| "wf_restriction (Max mx) = (0 < mx)"
| "wf_restriction (Range mn mx) = (0 < mn \<and> mn < mx)"

lemmas merge_defs = merge_exact_min_def merge_exact_max_def merge_exact_range_def
  merge_range_min_def merge_range_max_def merge_min_max_def merge_range_range_def Let_def

lemma restriction_merge_admits:
  "restriction_merge a b = Inr r \<Longrightarrow> admits r n \<longleftrightarrow> admits a n \<and> admits b n"
  by (induction a b rule: restriction_merge.induct) (auto simp: merge_defs split: if_splits)

lemma restriction_merge_wf:
  "restriction_merge a b = Inr r \<Longrightarrow> wf_restriction a \<Longrightarrow> wf_restriction b \<Longrightarrow> wf_restriction r"
  by (induction a b rule: restriction_merge.induct) (auto simp: merge_defs split: if_splits)

lemma restriction_merge_Inl:
  "restriction_merge a b = Inl e \<Longrightarrow> wf_restriction a \<Longrightarrow> wf_restriction b \<Longrightarrow>
     \<not> (admits a n \<and> admits b n)"
  by (induction a b rule: restriction_merge.induct) (auto simp: merge_defs split: if_splits)

lemma wf_restriction_admits_pos: "wf_restriction r \<Longrightarrow> \<exists>n > 0. admits r n"
  by (cases r) auto

text \<open>Well-formed restrictions are canonical: equal admitted sets, equal restrictions.\<close>

lemma wf_restriction_canonical:
  assumes "wf_restriction a" "wf_restriction b" "\<And>n. admits a n = admits b n"
  shows "a = b"
proof -
  define low where
    "low r = (case r of Exact e \<Rightarrow> e | Min m \<Rightarrow> m | Range m _ \<Rightarrow> m | _ \<Rightarrow> 0)" for r
  define high where
    "high r = (case r of Exact e \<Rightarrow> e | Min m \<Rightarrow> m | Max m \<Rightarrow> m | Range _ m \<Rightarrow> m | _ \<Rightarrow> 0)" for r
  note at = assms(3) [of "low a"] assms(3) [of "low b"] assms(3) [of "high a"] assms(3) [of "high b"]
    assms(3) [of 0] assms(3) [of "Suc (high a + high b)"]
  show ?thesis
    using assms(1,2) at by (cases a; cases b) (simp_all add: low_def high_def)
qed

text \<open>Merging the restrictions of several nodes one after the other, as the planner does.\<close>

definition merge_all ::
  "task_count_restriction list \<Rightarrow> (task_count_error, task_count_restriction) res" where
  "merge_all rs = foldl (\<lambda>acc r. bind_res acc (\<lambda>a. restriction_merge a r)) (Inr RNone) rs"

lemma foldl_merge_Inl [simp]:
  "foldl (\<lambda>acc r. bind_res acc (\<lambda>a. restriction_merge a r)) (Inl e) rs = Inl e"
  by (induction rs) auto

lemma foldl_merge_ok:
  assumes "wf_restriction a" "\<forall>r \<in> set rs. wf_restriction r"
  shows "case foldl (\<lambda>acc r. bind_res acc (\<lambda>a. restriction_merge a r)) (Inr a) rs of
      Inr m \<Rightarrow> wf_restriction m \<and> (\<forall>n. admits m n \<longleftrightarrow> admits a n \<and> (\<forall>r \<in> set rs. admits r n))
    | Inl e \<Rightarrow> \<not> (\<exists>n. admits a n \<and> (\<forall>r \<in> set rs. admits r n))"
  using assms
proof (induction rs arbitrary: a)
  case (Cons r rs)
  show ?case
  proof (cases "restriction_merge a r")
    case (Inl e)
    then show ?thesis
      using restriction_merge_Inl [OF Inl] Cons.prems by auto
  next
    case (Inr b)
    have "wf_restriction b"
      using restriction_merge_wf [OF Inr] Cons.prems by simp
    then show ?thesis
      using Cons.IH [of b] Cons.prems Inr restriction_merge_admits [OF Inr]
      by (auto split: sum.splits)
  qed
qed simp

lemma soft_tasks_max: "soft_tasks (f64_max s t) = max (soft_tasks s) (soft_tasks t)"
proof (cases "s = NaN \<or> t = NaN")
  case True
  then show ?thesis by (auto simp: soft_tasks_def)
next
  case False
  then have "f64_le s t \<and> f64_max s t = t \<or> f64_le t s \<and> f64_max s t = s"
    by (cases s; cases t) (auto simp: f64_le_def f64_max_def)
  then show ?thesis
    using f64_to_usize_mono [OF f64_ceil_mono, of s t] f64_to_usize_mono [OF f64_ceil_mono, of t s]
    by (auto simp: soft_tasks_def)
qed

lemma as_usize_admits:
  "wf_restriction (restriction a) \<Longrightarrow> 0 < as_usize a \<and> admits (restriction a) (as_usize a)"
  by (cases "restriction a") (auto simp: as_usize_def Let_def soft_tasks_def)

lemma as_usize_exact [simp]: "as_usize (ann_exact n s) = n"
  by (simp add: as_usize_def ann_exact_def Let_def)

text \<open>Capping the estimate caps the resolved count, unless a minimum demands more.\<close>

lemma soft_tasks_capped:
  assumes "0 < m" "m < 2 ^ 53"
  shows "soft_tasks (f64_min s (f64_of_usize m)) \<le> m"
proof -
  have m: "f64_of_usize m = Fin (of_nat m)"
    using assms f64_of_usize_exact [of m] by simp
  have "f64_le (f64_min s (Fin (of_nat m))) (Fin (of_nat m))"
    by (cases s) (auto simp: f64_min_def f64_le_def)
  then have "f64_to_usize (f64_ceil (f64_min s (f64_of_usize m))) \<le> f64_to_usize (f64_ceil (Fin (of_nat m)))"
    unfolding m by (intro f64_to_usize_mono f64_ceil_mono)
  also have "\<dots> \<le> m"
    by (simp add: usize_max_def)
  finally show ?thesis
    using assms by (simp add: soft_tasks_def)
qed

lemma as_usize_capped:
  assumes "0 < m" "m < 2 ^ 53" "\<And>mn. get_min a = Some mn \<Longrightarrow> mn \<le> m"
  shows "as_usize (a\<lparr>soft := f64_min (soft a) (f64_of_usize m)\<rparr>) \<le> m"
  using soft_tasks_capped [OF assms(1,2), of "soft a"] assms(3)
  by (cases "restriction a") (auto simp: as_usize_def get_min_def Let_def min_le_iff_disj)

section \<open>Properties\<close>

text \<open>C10. Merging two restrictions intersects them: a successful merge is well formed and admits
  exactly the counts both sides admit, and an error means that no count satisfies both.\<close>

theorem restriction_merge_intersects:
  assumes "wf_restriction a" "wf_restriction b"
  shows "case restriction_merge a b of
      Inr r \<Rightarrow> wf_restriction r \<and> (\<forall>n. admits r n \<longleftrightarrow> admits a n \<and> admits b n)
    | Inl e \<Rightarrow> \<not> (\<exists>n. admits a n \<and> admits b n)"
  using assms restriction_merge_admits [of a b] restriction_merge_wf [of a b]
    restriction_merge_Inl [of a b]
  by (auto split: sum.splits)

theorem restriction_merge_intersects_witness:
  "wf_restriction (Min 3) \<and> wf_restriction (Range 2 5) \<and>
   restriction_merge (Min 3) (Range 2 5) = Inr (Range 3 5) \<and>
   (\<forall>n. admits (Range 3 5) n \<longleftrightarrow> admits (Min 3) n \<and> admits (Range 2 5) n)"
  using restriction_merge_intersects [of "Min 3" "Range 2 5"] by (simp add: merge_defs)

text \<open>C13. The order in which a stage's restrictions are merged does not matter: every ordering
  succeeds with the same restriction or every ordering fails.\<close>

theorem merge_all_order_independent:
  assumes "\<forall>r \<in> set rs. wf_restriction r" "mset rs = mset rs'"
  shows "merge_all rs = Inr m \<longleftrightarrow> merge_all rs' = Inr m"
proof -
  have set_eq: "set rs' = set rs"
    using assms(2) by (metis set_mset_mset)
  have ok: "case merge_all xs of
      Inr m \<Rightarrow> wf_restriction m \<and> (\<forall>n. admits m n \<longleftrightarrow> (\<forall>r \<in> set rs. admits r n))
    | Inl e \<Rightarrow> \<not> (\<exists>n. \<forall>r \<in> set rs. admits r n)" if "set xs = set rs" for xs
    using foldl_merge_ok [of RNone xs] assms(1) that by (simp add: merge_all_def split: sum.splits)
  show ?thesis
    using ok [of rs] ok [OF set_eq] wf_restriction_admits_pos wf_restriction_canonical
    by (auto split: sum.splits) metis+
qed

theorem merge_all_order_independent_witness:
  "merge_all [Min 2, Max 6, Range 4 9] = Inr (Range 4 6) \<longleftrightarrow>
   merge_all [Range 4 9, Min 2, Max 6] = Inr (Range 4 6)"
  by (rule merge_all_order_independent) simp_all

text \<open>C14. Resolving an annotation yields a positive count that its restriction admits, and of the
  admitted counts the one closest to the soft estimate rounded up.\<close>

theorem as_usize_closest_admitted:
  assumes "wf_restriction (restriction a)"
  shows "0 < as_usize a \<and> admits (restriction a) (as_usize a) \<and>
    (\<forall>n. admits (restriction a) n \<longrightarrow>
       \<bar>int (as_usize a) - int (soft_tasks (soft a))\<bar> \<le> \<bar>int n - int (soft_tasks (soft a))\<bar>)"
  using as_usize_admits [OF assms] by (cases "restriction a") (auto simp: as_usize_def Let_def)

theorem as_usize_closest_admitted_witness:
  "as_usize \<lparr>soft = Fin (5 / 2), restriction = Range 4 8\<rparr> = 4 \<and>
   0 < as_usize \<lparr>soft = Fin (5 / 2), restriction = Range 4 8\<rparr>"
proof -
  have "\<lceil>5 / 2 :: rat\<rceil> = 3"
    by (rule ceiling_unique) simp_all
  then show ?thesis
    using as_usize_closest_admitted [of "\<lparr>soft = Fin (5 / 2), restriction = Range 4 8\<rparr>"]
    by (simp add: as_usize_def soft_tasks_def usize_max_def)
qed

text \<open>A merged annotation admits the counts both annotations admit, and asks for the larger
  of their soft task counts; a not-a-number estimate is ignored.\<close>

theorem ann_merge_soft_and_restriction:
  assumes "ann_merge a b = Inr c"
  shows "soft_tasks (soft c) = max (soft_tasks (soft a)) (soft_tasks (soft b)) \<and>
    (\<forall>n. admits (restriction c) n \<longleftrightarrow> admits (restriction a) n \<and> admits (restriction b) n)"
  using assms restriction_merge_admits [of "restriction a" "restriction b"]
  by (auto simp: ann_merge_def bind_res_eq_Inr soft_tasks_max)

theorem ann_merge_soft_and_restriction_witness:
  "ann_merge (ann_soft (Fin 3)) (ann_min 2 NaN) = Inr (ann_min 2 (Fin 3)) \<and>
   soft_tasks (Fin 3) = max (soft_tasks (Fin 3)) (soft_tasks NaN)"
proof -
  have m: "ann_merge (ann_soft (Fin 3)) (ann_min 2 NaN) = Inr (ann_min 2 (Fin 3))"
    by (simp add: ann_merge_def ann_soft_def ann_min_def)
  show ?thesis
    using ann_merge_soft_and_restriction [OF m] m by (simp add: ann_soft_def ann_min_def)
qed

end
