(* ===== verification/Stage.thy ===== *)
theory Stage
  imports Prelude
begin

text \<open>
  Stages and task contexts (\<open>src/src/stage.rs\<close>). A stage is local while the coordinator
  holds its plan and remote once the plan has been moved to workers, one worker URL per task. The
  plan, URL, identifier and statistics types belong to other crates and stay type parameters.
\<close>

record task_ctx =
  task_index :: nat
  task_count :: nat

text \<open>\<open>DistributedTaskContext::from_ctx\<close>: the session extension, or the only task of one.\<close>

definition from_ctx :: "task_ctx option \<Rightarrow> task_ctx" where
  "from_ctx ext = (case ext of Some c \<Rightarrow> c | None \<Rightarrow> \<lparr>task_index = 0, task_count = 1\<rparr>)"

record ('id, 'p, 'm) local_stage =
  ls_query_id :: 'id
  ls_num :: nat
  ls_plan :: 'p
  ls_tasks :: nat
  ls_metrics_set :: 'm

record ('id, 'url, 's, 'e) remote_stage =
  rs_query_id :: 'id
  rs_num :: nat
  rs_workers :: "'url list"
  rs_runtime_stats :: "'s option"
  rs_dynamic_filter_anchors :: "'e list"

datatype ('id, 'p, 'm, 'url, 's, 'e) stage =
    Local "('id, 'p, 'm) local_stage"
  | Remote "('id, 'url, 's, 'e) remote_stage"

fun stage_query_id :: "('id, 'p, 'm, 'url, 's, 'e) stage \<Rightarrow> 'id" where
  "stage_query_id (Local v) = ls_query_id v"
| "stage_query_id (Remote v) = rs_query_id v"

fun stage_num :: "('id, 'p, 'm, 'url, 's, 'e) stage \<Rightarrow> nat" where
  "stage_num (Local v) = ls_num v"
| "stage_num (Remote v) = rs_num v"

fun stage_task_count :: "('id, 'p, 'm, 'url, 's, 'e) stage \<Rightarrow> nat" where
  "stage_task_count (Local v) = ls_tasks v"
| "stage_task_count (Remote v) = length (rs_workers v)"

fun stage_local_plan :: "('id, 'p, 'm, 'url, 's, 'e) stage \<Rightarrow> 'p option" where
  "stage_local_plan (Local v) = Some (ls_plan v)"
| "stage_local_plan (Remote _) = None"

fun stage_dynamic_filter_anchors :: "('id, 'p, 'm, 'url, 's, 'e) stage \<Rightarrow> 'e list" where
  "stage_dynamic_filter_anchors (Local _) = []"
| "stage_dynamic_filter_anchors (Remote v) = rs_dynamic_filter_anchors v"

fun stage_metrics :: "'m \<Rightarrow> ('id, 'p, 'm, 'url, 's, 'e) stage \<Rightarrow> 'm" where
  "stage_metrics no_metrics (Local v) = ls_metrics_set v"
| "stage_metrics no_metrics (Remote _) = no_metrics"

datatype 'e local_stage_error = TooManyTasks nat | PlanError 'e

text \<open>\<open>LocalStage::execute\<close>; \<open>exec\<close> is the plan's own \<open>execute\<close> on the given partition.\<close>

definition local_stage_execute ::
  "('p \<Rightarrow> nat \<Rightarrow> ('e, 'str) res) \<Rightarrow> ('id, 'p, 'm) local_stage \<Rightarrow> nat \<Rightarrow>
     ('e local_stage_error, 'str) res" where
  "local_stage_execute exec st part =
     (if 1 < ls_tasks st then Inl (TooManyTasks (ls_tasks st))
      else case exec (ls_plan st) part of Inl e \<Rightarrow> Inl (PlanError e) | Inr s \<Rightarrow> Inr s)"

end
