(* ===== verification/SplitChildren.thy ===== *)
theory SplitChildren
  imports TaskCount Stage
begin

text \<open>
  The task allocation of a distributed union
  (\<open>split_children\<close> in \<open>src/src/execution_plans/children_isolator_union.rs\<close>): the children of
  a union share a budget of outer tasks in proportion to their soft estimates, subject to their
  restrictions, and every child runs as \<open>n\<close> isolated tasks placed in outer slots. Each numbered
  step of the function is a definition here. Task counts are naturals; \<open>split_children_no_overflow\<close>
  bounds them, so that the sums the code computes on \<open>usize\<close> are these sums.
\<close>

type_synonym task_slot = "(nat \<times> task_ctx) list"
type_synonym task_idx_map = "task_slot list"

datatype split_error =
    ZeroBudget
  | NoChildren
  | ExactAboveBudget nat nat nat
  | MinAboveBudget nat nat nat
  | NegativeSoft nat f64
  | NonFiniteSoft nat f64

section \<open>Step 1: validation\<close>

definition validate_child ::
  "nat \<Rightarrow> nat \<times> task_count_annotation \<Rightarrow> (split_error, unit) res" where
  "validate_child budget ia =
     (let (i, a) = ia;
          bound =
            (case restriction a of
               Exact e \<Rightarrow> if budget < e then Some (ExactAboveBudget i e budget) else None
             | _ \<Rightarrow> None);
          bound' =
            (case bound of
               Some e \<Rightarrow> Some e
             | None \<Rightarrow>
                 (case get_min a of
                    Some m \<Rightarrow> if budget < m then Some (MinAboveBudget i m budget) else None
                  | None \<Rightarrow> None))
      in case bound' of
           Some e \<Rightarrow> Inl e
         | None \<Rightarrow>
             if f64_lt (soft a) (Fin 0) then Inl (NegativeSoft i (soft a))
             else if \<not> f64_is_finite (soft a) then Inl (NonFiniteSoft i (soft a))
             else Inr ())"

definition validate ::
  "task_count_annotation list \<Rightarrow> nat \<Rightarrow> (split_error, unit) res" where
  "validate children budget =
     (if budget = 0 then Inl ZeroBudget
      else if children = [] then Inl NoChildren
      else bind_res (map_res (validate_child budget) (enumerate_list children)) (\<lambda>_. Inr ()))"

section \<open>Steps 2 and 3: fractional shares and largest remainders\<close>

definition is_exact :: "task_count_annotation \<Rightarrow> bool" where
  "is_exact a = (case restriction a of Exact _ \<Rightarrow> True | _ \<Rightarrow> False)"

definition exact_total :: "task_count_annotation list \<Rightarrow> nat" where
  "exact_total children = foldl sat_add 0 (List.map_filter get_exact children)"

definition total_weight :: "task_count_annotation list \<Rightarrow> f64" where
  "total_weight children = f64_sum (map soft children)"

definition unrounded_child_task_counts :: "task_count_annotation list \<Rightarrow> nat \<Rightarrow> f64 list" where
  "unrounded_child_task_counts children budget =
     (let w = total_weight children;
          flexible = length (filter (\<lambda>c. \<not> is_exact c) children)
      in if f64_lt (Fin 0) w then
           map (\<lambda>c. f64_div (f64_mul (f64_of_usize budget) (soft c)) w) children
         else if 0 < flexible then
           map (\<lambda>c. if is_exact c then Fin 0
                    else f64_div (f64_of_usize (budget - exact_total children))
                           (f64_of_usize flexible)) children
         else replicate (length children) (Fin 0))"

definition remainder :: "f64 list \<Rightarrow> nat \<Rightarrow> f64" where
  "remainder shares i = f64_sub (shares ! i) (f64_floor (shares ! i))"

definition unwrap_equal :: "ordering option \<Rightarrow> ordering" where
  "unwrap_equal r = (case r of Some c \<Rightarrow> c | None \<Rightarrow> Equal)"

definition remainder_cmp :: "f64 list \<Rightarrow> nat \<Rightarrow> nat \<Rightarrow> ordering" where
  "remainder_cmp shares a b =
     cmp_then (unwrap_equal (f64_partial_cmp (remainder shares b) (remainder shares a)))
       (cmp_nat a b)"

fun give_remainders :: "nat \<Rightarrow> nat list \<Rightarrow> nat list \<Rightarrow> nat list" where
  "give_remainders unallocated [] counts = counts"
| "give_remainders unallocated (idx # order) counts =
     (if unallocated = 0 then counts
      else give_remainders (unallocated - 1) order (counts[idx := counts ! idx + 1]))"

definition rounded_counts :: "task_count_annotation list \<Rightarrow> nat \<Rightarrow> f64 list \<Rightarrow> nat list" where
  "rounded_counts children budget shares =
     (let counts = map (\<lambda>x. f64_to_usize (f64_floor x)) shares;
          order = sort_by (remainder_cmp shares) [0..<length children]
      in if f64_lt (Fin 0) (total_weight children)
         then give_remainders (budget - sum_list counts) order counts
         else counts)"

section \<open>Steps 4 and 5: restrictions and unused slots\<close>

definition impose :: "nat \<Rightarrow> task_count_annotation \<Rightarrow> nat" where
  "impose n a =
     (let n1 = (case get_min a of Some m \<Rightarrow> max n m | None \<Rightarrow> n)
      in case get_max a of Some m \<Rightarrow> min n1 m | None \<Rightarrow> n1)"

definition eligible :: "task_count_annotation list \<Rightarrow> nat list \<Rightarrow> nat \<Rightarrow> bool" where
  "eligible children counts idx =
     (case get_max (children ! idx) of None \<Rightarrow> True | Some m \<Rightarrow> counts ! idx < m)"

definition deficit :: "f64 list \<Rightarrow> nat list \<Rightarrow> nat \<Rightarrow> f64" where
  "deficit shares counts i = f64_sub (shares ! i) (f64_of_usize (counts ! i))"

definition deficit_cmp :: "f64 list \<Rightarrow> nat list \<Rightarrow> nat \<Rightarrow> nat \<Rightarrow> ordering" where
  "deficit_cmp shares counts a b =
     cmp_then (unwrap_equal (f64_partial_cmp (deficit shares counts a) (deficit shares counts b)))
       (cmp_nat b a)"

fun fill_unused ::
  "task_count_annotation list \<Rightarrow> f64 list \<Rightarrow> nat \<Rightarrow> nat list \<Rightarrow> nat list" where
  "fill_unused children shares 0 counts = counts"
| "fill_unused children shares (Suc unallocated) counts =
     (case max_by (deficit_cmp shares counts)
             (filter (eligible children counts) [0..<length children]) of
        None \<Rightarrow> counts
      | Some idx \<Rightarrow> fill_unused children shares unallocated (counts[idx := counts ! idx + 1]))"

definition child_task_counts :: "task_count_annotation list \<Rightarrow> nat \<Rightarrow> nat list" where
  "child_task_counts children budget =
     (let shares = unrounded_child_task_counts children budget;
          imposed = map2 impose (rounded_counts children budget shares) children
      in fill_unused children shares (budget - sum_list imposed) imposed)"

section \<open>Steps 6 and 7: placement\<close>

definition place_item ::
  "nat \<Rightarrow> nat \<times> task_ctx \<Rightarrow> nat \<times> task_idx_map \<Rightarrow> nat \<times> task_idx_map" where
  "place_item budget x st =
     (let (task_idx, result) = st; slot = task_idx mod budget
      in (task_idx + 1, result[slot := result ! slot @ [x]]))"

definition place_child ::
  "nat \<Rightarrow> nat \<times> nat \<Rightarrow> nat \<times> task_idx_map \<Rightarrow> nat \<times> task_idx_map" where
  "place_child budget cn st =
     (let (child_idx, n) = cn
      in fold (\<lambda>task_i. place_item budget (child_idx, \<lparr>task_index = task_i, task_count = n\<rparr>))
           [0..<n] st)"

definition place_children :: "nat \<Rightarrow> nat list \<Rightarrow> nat \<times> task_idx_map" where
  "place_children budget counts =
     fold (place_child budget) (enumerate_list counts) (0, replicate budget [])"

definition place_zero_child ::
  "nat \<Rightarrow> nat \<times> nat \<Rightarrow> nat \<times> task_idx_map \<Rightarrow> nat \<times> task_idx_map" where
  "place_zero_child occupied cn st =
     (let (child_idx, n) = cn; (zero_alloc_i, result) = st; slot = zero_alloc_i mod occupied
      in if n \<noteq> 0 then st
         else (zero_alloc_i + 1,
               result[slot := result ! slot @ [(child_idx, \<lparr>task_index = 0, task_count = 1\<rparr>)]]))"

definition place_zero_children ::
  "nat \<Rightarrow> nat list \<Rightarrow> nat \<times> task_idx_map \<Rightarrow> task_idx_map" where
  "place_zero_children budget counts st =
     (let (task_idx, result) = st
      in if 0 < task_idx
         then snd (fold (place_zero_child (min task_idx budget)) (enumerate_list counts) (0, result))
         else result)"

definition split_children ::
  "task_count_annotation list \<Rightarrow> nat \<Rightarrow> (split_error, task_idx_map) res" where
  "split_children children budget =
     bind_res (validate children budget) (\<lambda>_.
       let counts = child_task_counts children budget
       in Inr (place_zero_children budget counts (place_children budget counts)))"

section \<open>Placement lemmas\<close>

lemma place_item_pair [simp]:
  "place_item B x (k, res) = (k + 1, res[k mod B := res ! (k mod B) @ [x]])"
  by (simp add: place_item_def Let_def)

lemma fold_place_item:
  assumes "length res = B" "0 < B"
  shows "fst (fold (place_item B) xs (k, res)) = k + length xs"
    and "length (snd (fold (place_item B) xs (k, res))) = B"
    and "t < B \<Longrightarrow> snd (fold (place_item B) xs (k, res)) ! t =
           res ! t @ map ((!) xs) (filter (\<lambda>j. (k + j) mod B = t) [0..<length xs])"
proof (induction xs rule: rev_induct)
  case (snoc x xs)
  let ?st = "fold (place_item B) xs (k, res)"
  have st: "?st = (k + length xs, snd ?st)"
    by (metis prod.collapse snoc.IH(1))
  have map_eq: "map ((!) (xs @ [x])) (filter P [0..<length xs]) = map ((!) xs) (filter P [0..<length xs])"
    for P by (auto simp: nth_append)
  have step: "fold (place_item B) (xs @ [x]) (k, res) =
      (k + length xs + 1, (snd ?st)[(k + length xs) mod B := snd ?st ! ((k + length xs) mod B) @ [x]])"
    by (subst fold_append, simp, subst st) simp
  { case 1 then show ?case unfolding step by simp }
  { case 2 then show ?case using snoc.IH(2) unfolding step by simp }
  { case 3 then show ?case
      using snoc.IH(2,3) unfolding step by (auto simp: map_eq nth_append nth_list_update) }
qed (simp_all add: assms)

lemma fold_place_item_mset:
  assumes "length res = B" "0 < B"
  shows "mset (concat (snd (fold (place_item B) xs (k, res)))) = mset (concat res) + mset xs"
  using assms
proof (induction xs arbitrary: k res)
  case (Cons x xs)
  have "mset (concat (res[k mod B := res ! (k mod B) @ [x]])) = add_mset x (mset (concat res))"
    using Cons.prems by (intro mset_concat_push) simp
  then show ?case
    using Cons by simp
qed simp

text \<open>The isolated tasks of one child, and of all children in order.\<close>

definition child_items :: "nat \<times> nat \<Rightarrow> (nat \<times> task_ctx) list" where
  "child_items cn =
     (let (i, n) = cn in map (\<lambda>k. (i, \<lparr>task_index = k, task_count = n\<rparr>)) [0..<n])"

lemma child_items_enumerate:
  "map child_items (enumerate_list ns) =
     map (\<lambda>i. map (\<lambda>k. (i, \<lparr>task_index = k, task_count = ns ! i\<rparr>)) [0..<ns ! i]) [0..<length ns]"
  by (rule nth_equalityI) (auto simp: child_items_def)

lemma place_child_items: "place_child B cn st = fold (place_item B) (child_items cn) st"
  by (simp add: place_child_def child_items_def fold_map comp_def split: prod.splits)

lemma fold_place_child:
  "fold (place_child B) cns st = fold (place_item B) (concat (map child_items cns)) st"
  by (induction cns arbitrary: st) (simp_all add: place_child_items)

lemma length_child_items [simp]: "length (child_items cn) = snd cn"
  by (simp add: child_items_def split: prod.splits)

lemma length_all_items: "length (concat (map child_items cns)) = sum_list (map snd cns)"
  by (simp add: length_concat comp_def)

lemma place_children_props:
  assumes "0 < B"
  shows "fst (place_children B counts) = sum_list counts"
    and "length (snd (place_children B counts)) = B"
    and "mset (concat (snd (place_children B counts))) =
           mset (concat (map child_items (enumerate_list counts)))"
  using fold_place_item(1,2) [of "replicate B []" B] fold_place_item_mset [of "replicate B []" B] assms
  by (simp_all add: place_children_def fold_place_child length_all_items)

lemma place_children_occupied:
  assumes "0 < B" "t < B" "t < sum_list counts"
  shows "snd (place_children B counts) ! t \<noteq> []"
proof -
  let ?xs = "concat (map child_items (enumerate_list counts))"
  have "t \<in> set (filter (\<lambda>j. j mod B = t) [0..<length ?xs])"
    using assms by (simp add: length_all_items)
  then have "map ((!) ?xs) (filter (\<lambda>j. j mod B = t) [0..<length ?xs]) \<noteq> []"
    by (metis empty_iff empty_set map_is_Nil_conv)
  then show ?thesis
    using fold_place_item(3) [of "replicate B []" B t ?xs 0] assms
    by (simp add: place_children_def fold_place_child)
qed

text \<open>No child twice in one slot.\<close>

definition slots_ok :: "nat set \<Rightarrow> task_idx_map \<Rightarrow> bool" where
  "slots_ok I res \<longleftrightarrow> (\<forall>s \<in> set res. distinct (map fst s) \<and> fst ` set s \<subseteq> I)"

lemma place_child_slots_ok:
  assumes "slots_ok I res" "length res = B" "0 < B" "i \<notin> I" "n \<le> B"
  shows "slots_ok (insert i I) (snd (place_child B (i, n) (k, res)))"
  unfolding slots_ok_def
proof
  fix s assume "s \<in> set (snd (place_child B (i, n) (k, res)))"
  then obtain t where t: "t < B" "s = snd (place_child B (i, n) (k, res)) ! t"
    using fold_place_item(2) [OF assms(2,3)] by (auto simp: in_set_conv_nth place_child_items)
  define js where "js = filter (\<lambda>j. (k + j) mod B = t) [0..<n]"
  have s: "s = res ! t @ map ((!) (child_items (i, n))) js"
    using t fold_place_item(3) [OF assms(2,3) t(1)] by (simp add: place_child_items js_def)
  have "length js \<le> 1"
  proof (rule distinct_all_equal)
    show "distinct js"
      by (simp add: js_def)
    show "a = b" if "a \<in> set js" "b \<in> set js" for a b
      using mod_window_inj [of k a B b n] assms(5) that by (simp add: js_def)
  qed
  then consider "js = []" | j where "js = [j]" "j < n"
  proof (cases js)
    case (Cons j js')
    then have "js = [j]" "j \<in> set js"
      using \<open>length js \<le> 1\<close> by auto
    from this(2) have "j < n"
      unfolding js_def by simp
    with \<open>js = [j]\<close> show ?thesis
      by (rule that(2))
  qed (rule that(1))
  moreover have "distinct (map fst (res ! t))" "fst ` set (res ! t) \<subseteq> I"
    using assms(1,2) t(1) by (auto simp: slots_ok_def)
  ultimately show "distinct (map fst s) \<and> fst ` set s \<subseteq> insert i I"
  proof cases
    case 1
    then show ?thesis
      using \<open>distinct (map fst (res ! t))\<close> \<open>fst ` set (res ! t) \<subseteq> I\<close> by (auto simp: s)
  next
    case (2 j)
    then have "s = res ! t @ [(i, \<lparr>task_index = j, task_count = n\<rparr>)]"
      by (simp add: s child_items_def)
    then show ?thesis
      using \<open>distinct (map fst (res ! t))\<close> \<open>fst ` set (res ! t) \<subseteq> I\<close> assms(4) by auto
  qed
qed

lemma fold_place_child_props:
  assumes "length res = B" "0 < B"
  shows "length (snd (fold (place_child B) cns (k, res))) = B"
  using fold_place_item(2) [OF assms] by (simp add: fold_place_child)

lemma fold_place_child_slots_ok:
  assumes "slots_ok I res" "length res = B" "0 < B" "\<forall>(i, n) \<in> set cns. i \<notin> I \<and> n \<le> B"
    "distinct (map fst cns)"
  shows "slots_ok (I \<union> fst ` {q \<in> set cns. 0 < snd q}) (snd (fold (place_child B) cns (k, res)))"
  using assms
proof (induction cns arbitrary: k res I)
  case (Cons cn cns)
  obtain i n where cn: "cn = (i, n)"
    by (cases cn)
  have fresh: "\<And>m. (i, m) \<notin> set cns"
    using Cons.prems by (force simp: cn)
  define J where "J = (if 0 < n then insert i I else I)"
  let ?st = "place_child B cn (k, res)"
  have "slots_ok J (snd ?st)"
  proof (cases "0 < n")
    case True
    then show ?thesis
      using place_child_slots_ok [of I res B i n k] Cons.prems by (simp add: cn J_def)
  next
    case False
    then show ?thesis
      using Cons.prems by (simp add: cn J_def place_child_def)
  qed
  moreover have "length (snd ?st) = B"
    using fold_place_child_props [of res B "[cn]" k] Cons.prems by simp
  ultimately have "slots_ok (J \<union> fst ` {q \<in> set cns. 0 < snd q})
      (snd (fold (place_child B) cns (fst ?st, snd ?st)))"
    using Cons.prems by (intro Cons.IH) (auto simp: cn J_def fresh)
  moreover have "I \<union> fst ` {q \<in> set (cn # cns). 0 < snd q} = J \<union> fst ` {q \<in> set cns. 0 < snd q}"
    by (force simp: cn J_def)
  ultimately show ?case
    by simp
qed (simp add: slots_ok_def)

lemma place_zero_child_pair [simp]:
  "place_zero_child oc (i, n) (z, res) =
     (if n \<noteq> 0 then (z, res)
      else (z + 1, res[z mod oc := res ! (z mod oc) @ [(i, \<lparr>task_index = 0, task_count = 1\<rparr>)]]))"
  by (simp add: place_zero_child_def Let_def)

lemma fold_place_zero_child:
  assumes "0 < oc" "oc \<le> length res"
  shows "length (snd (fold (place_zero_child oc) cns (z, res))) = length res \<and>
    mset (concat (snd (fold (place_zero_child oc) cns (z, res)))) =
      mset (concat res) +
      mset (map (\<lambda>(i, _). (i, \<lparr>task_index = 0, task_count = 1\<rparr>)) (filter (\<lambda>(_, n). n = 0) cns))"
  using assms
proof (induction cns arbitrary: z res)
  case (Cons cn cns)
  obtain i n where cn: "cn = (i, n)"
    by (cases cn)
  have "z mod oc < length res"
    using Cons.prems by (meson mod_less_divisor order_less_le_trans)
  then show ?case
    using Cons.IH [of "res[z mod oc := res ! (z mod oc) @ [(i, \<lparr>task_index = 0, task_count = 1\<rparr>)]]" "z + 1"]
      Cons.IH [of res z] Cons.prems
    by (auto simp: cn mset_concat_push)
qed simp

lemma fold_place_zero_slots_ok:
  assumes "slots_ok I res" "0 < oc" "oc \<le> length res" "\<forall>(i, n) \<in> set cns. n = 0 \<longrightarrow> i \<notin> I"
    "distinct (map fst cns)"
  shows "slots_ok (I \<union> fst ` set cns) (snd (fold (place_zero_child oc) cns (z, res)))"
  using assms
proof (induction cns arbitrary: z res I)
  case (Cons cn cns)
  obtain i n where cn: "cn = (i, n)"
    by (cases cn)
  have fresh: "\<And>m. (i, m) \<notin> set cns"
    using Cons.prems by (force simp: cn)
  show ?case
  proof (cases "n = 0")
    case True
    let ?res = "res[z mod oc := res ! (z mod oc) @ [(i, \<lparr>task_index = 0, task_count = 1\<rparr>)]]"
    have "z mod oc < length res"
      using Cons.prems by (meson mod_less_divisor order_less_le_trans)
    then have "slots_ok (insert i I) ?res"
      using Cons.prems True unfolding slots_ok_def
      by (fastforce simp: cn dest: in_set_takeD set_update_subset_insert [THEN subsetD])
    then have "slots_ok (insert i I \<union> fst ` set cns) (snd (fold (place_zero_child oc) cns (z + 1, ?res)))"
      using Cons.prems True by (intro Cons.IH) (auto simp: cn fresh)
    then show ?thesis
      by (simp add: cn True)
  next
    case False
    then have "slots_ok (I \<union> fst ` set cns) (snd (fold (place_zero_child oc) cns (z, res)))"
      using Cons.prems by (intro Cons.IH) (auto simp: cn)
    then show ?thesis
      using False by (fastforce simp: cn slots_ok_def)
  qed
qed simp

section \<open>Count lemmas\<close>

text \<open>A count that respects a child's minimum and maximum.\<close>

definition count_ok :: "task_count_annotation \<Rightarrow> nat \<Rightarrow> bool" where
  "count_ok a n \<longleftrightarrow>
     (\<forall>m. get_min a = Some m \<longrightarrow> m \<le> n) \<and> (\<forall>m. get_max a = Some m \<longrightarrow> n \<le> m)"

lemma count_ok_admits:
  "wf_restriction (restriction a) \<Longrightarrow> count_ok a n \<Longrightarrow> admits (restriction a) (max 1 n)"
  by (cases "restriction a") (auto simp: count_ok_def get_min_def get_max_def)

lemma impose_count_ok: "wf_restriction (restriction a) \<Longrightarrow> count_ok a (impose n a)"
  by (cases "restriction a") (auto simp: count_ok_def get_min_def get_max_def impose_def Let_def)

lemma length_unrounded [simp]:
  "length (unrounded_child_task_counts children budget) = length children"
  by (simp add: unrounded_child_task_counts_def Let_def)

lemma length_give_remainders [simp]: "length (give_remainders u order counts) = length counts"
  by (induction u order counts rule: give_remainders.induct) simp_all

lemma length_rounded_counts [simp]: "length (rounded_counts children budget shares) = length shares"
  by (simp add: rounded_counts_def Let_def)

lemma length_fill_unused [simp]: "length (fill_unused children shares u counts) = length counts"
  by (induction u arbitrary: counts) (simp_all split: option.splits)

lemma length_child_task_counts [simp]:
  "length (child_task_counts children budget) = length children"
  by (simp add: child_task_counts_def Let_def)

lemma fill_unused_pick:
  assumes "max_by c (filter (eligible children counts) [0..<length children]) = Some idx"
  shows "idx < length children" "eligible children counts idx"
  using max_by_in_set [OF assms] by auto

lemma fill_unused_count_ok:
  assumes "length counts = length children" "\<forall>i < length children. count_ok (children ! i) (counts ! i)"
  shows "\<forall>i < length children. count_ok (children ! i) (fill_unused children shares u counts ! i)"
  using assms
proof (induction u arbitrary: counts)
  case (Suc u)
  show ?case
  proof (cases "max_by (deficit_cmp shares counts) (filter (eligible children counts) [0..<length children])")
    case None
    then show ?thesis
      using Suc.prems by simp
  next
    case (Some idx)
    have "count_ok (children ! idx) (counts ! idx + 1)"
      using Suc.prems fill_unused_pick [OF Some]
      by (auto simp: count_ok_def eligible_def split: option.splits)
    then have "\<forall>i < length children. count_ok (children ! i) (counts[idx := counts ! idx + 1] ! i)"
      using Suc.prems fill_unused_pick(1) [OF Some] by (auto simp: nth_list_update)
    then show ?thesis
      using Suc.IH [of "counts[idx := counts ! idx + 1]"] Suc.prems(1) Some by simp
  qed
qed simp

lemma sum_list_update_Suc:
  "i < length xs \<Longrightarrow> sum_list (xs[i := xs ! i + 1]) = Suc (sum_list xs)"
  for xs :: "nat list"
proof (induction xs arbitrary: i)
  case (Cons x xs)
  then show ?case by (cases i) auto
qed simp

lemma fill_unused_sum:
  assumes "length counts = length children"
  shows "sum_list (fill_unused children shares u counts) = sum_list counts + u \<or>
    (\<forall>i < length children. \<not> eligible children (fill_unused children shares u counts) i)"
  using assms
proof (induction u arbitrary: counts)
  case (Suc u)
  show ?case
  proof (cases "max_by (deficit_cmp shares counts) (filter (eligible children counts) [0..<length children])")
    case None
    then show ?thesis
      by (simp add: filter_empty_conv)
  next
    case (Some idx)
    then show ?thesis
      using Suc.IH [of "counts[idx := counts ! idx + 1]"] Suc.prems fill_unused_pick(1) [OF Some]
        sum_list_update_Suc [of idx counts]
      by simp
  qed
qed simp

lemma child_task_counts_ok:
  assumes "\<forall>a \<in> set children. wf_restriction (restriction a)" "i < length children"
  shows "count_ok (children ! i) (child_task_counts children budget ! i)"
  unfolding child_task_counts_def Let_def
  using fill_unused_count_ok [of "map2 impose (rounded_counts children budget
      (unrounded_child_task_counts children budget)) children" children] assms impose_count_ok
  by simp

lemma child_task_counts_sum:
  "budget \<le> sum_list (child_task_counts children budget) \<or>
     (\<forall>i < length children. \<not> eligible children (child_task_counts children budget) i)"
proof -
  let ?sh = "unrounded_child_task_counts children budget"
  let ?im = "map2 impose (rounded_counts children budget ?sh) children"
  have "length ?im = length children"
    by simp
  from fill_unused_sum [OF this, of ?sh "budget - sum_list ?im"] show ?thesis
    by (auto simp: child_task_counts_def Let_def)
qed

lemma child_task_counts_pos:
  assumes "\<forall>a \<in> set children. wf_restriction (restriction a)" "children \<noteq> []" "0 < budget"
  shows "0 < sum_list (child_task_counts children budget)"
proof (cases "budget \<le> sum_list (child_task_counts children budget)")
  case True
  then show ?thesis
    using assms(3) by linarith
next
  case False
  let ?c = "child_task_counts children budget"
  have "\<not> eligible children ?c 0"
    using False child_task_counts_sum [of budget children] assms(2) by auto
  then obtain m where m: "get_max (children ! 0) = Some m" "m \<le> ?c ! 0"
    by (auto simp: eligible_def split: option.splits)
  have "wf_restriction (restriction (children ! 0))"
    using assms(1,2) by simp
  then have "0 < m"
    using m(1) by (auto simp: get_max_def split: task_count_restriction.splits)
  moreover have "?c ! 0 \<le> sum_list ?c"
    using assms(2) by (intro elem_le_sum_list) simp
  ultimately show ?thesis
    using m(2) by linarith
qed

section \<open>The whole allocation\<close>

lemma validate_Inr_iff:
  "validate children budget = Inr () \<longleftrightarrow>
     0 < budget \<and> children \<noteq> [] \<and>
     (\<forall>a \<in> set children. (\<forall>m. get_min a = Some m \<longrightarrow> m \<le> budget) \<and>
        f64_is_finite (soft a) \<and> \<not> f64_lt (soft a) (Fin 0))"
proof -
  have v: "validate_child budget (i, a) = Inr () \<longleftrightarrow>
      (\<forall>m. get_min a = Some m \<longrightarrow> m \<le> budget) \<and> f64_is_finite (soft a) \<and>
      \<not> f64_lt (soft a) (Fin 0)" for i a
    by (cases "restriction a") (auto simp: validate_child_def get_min_def Let_def)
  have "(\<exists>us. map_res (validate_child budget) (enumerate_list children) = Inr us) \<longleftrightarrow>
      (\<forall>ia \<in> set (enumerate_list children). validate_child budget ia = Inr ())"
  proof
    assume "\<exists>us. map_res (validate_child budget) (enumerate_list children) = Inr us"
    then show "\<forall>ia \<in> set (enumerate_list children). validate_child budget ia = Inr ()"
      by (auto simp: map_res_Inr_iff list_all2_conv_all_nth in_set_conv_nth)
  next
    assume "\<forall>ia \<in> set (enumerate_list children). validate_child budget ia = Inr ()"
    then show "\<exists>us. map_res (validate_child budget) (enumerate_list children) = Inr us"
      using map_res_total [of "enumerate_list children" "validate_child budget" "\<lambda>_. ()"] by auto
  qed
  moreover have "(\<forall>ia \<in> set (enumerate_list children). validate_child budget ia = Inr ()) \<longleftrightarrow>
      (\<forall>a \<in> set children. (\<forall>m. get_min a = Some m \<longrightarrow> m \<le> budget) \<and>
         f64_is_finite (soft a) \<and> \<not> f64_lt (soft a) (Fin 0))"
    by (force simp: v in_set_enumerate_list in_set_conv_nth Ball_def split_paired_All)
  ultimately show ?thesis
    by (auto simp: validate_def bind_res_eq_Inr)
qed

lemma split_children_Inr:
  assumes "split_children children budget = Inr m"
  shows "0 < budget" "children \<noteq> []" "validate children budget = Inr ()"
    "m = place_zero_children budget (child_task_counts children budget)
           (place_children budget (child_task_counts children budget))"
  using assms validate_Inr_iff [of children budget]
  by (auto simp: split_children_def bind_res_eq_Inr Let_def)

lemma enumerate_list_map: "enumerate_list (map f xs) = map (\<lambda>(i, x). (i, f x)) (enumerate_list xs)"
  by (auto simp: enumerate_list_def zip_map2)

lemma child_items_max_1:
  "mset (concat (map child_items (map (\<lambda>(i, n). (i, max 1 n)) cns))) =
     mset (concat (map child_items cns)) +
     mset (map (\<lambda>(i, _). (i, \<lparr>task_index = 0, task_count = 1\<rparr>)) (filter (\<lambda>(_, n). n = 0) cns))"
  by (induction cns) (auto simp: child_items_def max_def)

text \<open>The number of tasks every child really runs with.\<close>

definition run_counts :: "task_count_annotation list \<Rightarrow> nat \<Rightarrow> nat list" where
  "run_counts children budget = map (max 1) (child_task_counts children budget)"

lemma place_all_props:
  assumes "0 < B" "0 < sum_list counts"
  shows "length (place_zero_children B counts (place_children B counts)) = B"
    and "mset (concat (place_zero_children B counts (place_children B counts))) =
           mset (concat (map child_items (enumerate_list (map (max 1) counts))))"
proof -
  note pc = place_children_props [OF assms(1), of counts]
  have oc: "0 < min (sum_list counts) B" "min (sum_list counts) B \<le> length (snd (place_children B counts))"
    using assms pc(2) by auto
  have "place_zero_children B counts (place_children B counts) =
      snd (fold (place_zero_child (min (sum_list counts) B)) (enumerate_list counts)
             (0, snd (place_children B counts)))"
    using assms(2) pc(1) by (cases "place_children B counts") (simp add: place_zero_children_def)
  then show "length (place_zero_children B counts (place_children B counts)) = B"
    and "mset (concat (place_zero_children B counts (place_children B counts))) =
           mset (concat (map child_items (enumerate_list (map (max 1) counts))))"
    using fold_place_zero_child [OF oc, of "enumerate_list counts" 0] pc
      child_items_max_1 [of "enumerate_list counts"]
    unfolding enumerate_list_map by metis+
qed


lemma place_all_distinct:
  assumes "0 < B" "0 < sum_list counts" "\<forall>n \<in> set counts. n \<le> B"
  shows "\<forall>s \<in> set (place_zero_children B counts (place_children B counts)). distinct (map fst s)"
proof -
  note pc = place_children_props [OF assms(1), of counts]
  let ?I = "fst ` {q \<in> set (enumerate_list counts). 0 < snd q}"
  have "slots_ok ({} \<union> ?I) (snd (place_children B counts))"
    unfolding place_children_def using assms
    by (intro fold_place_child_slots_ok) (auto simp: slots_ok_def in_set_enumerate_list)
  then have "slots_ok (?I \<union> fst ` set (enumerate_list counts))
      (snd (fold (place_zero_child (min (sum_list counts) B)) (enumerate_list counts)
        (0, snd (place_children B counts))))"
    using assms pc
    by (intro fold_place_zero_slots_ok) (auto simp: in_set_enumerate_list)
  then show ?thesis
    using assms(2) pc(1)
    by (cases "place_children B counts") (simp add: place_zero_children_def slots_ok_def)
qed

lemma fold_place_zero_nonempty:
  assumes "0 < oc" "oc \<le> length res" "t < length res" "res ! t \<noteq> []"
  shows "snd (fold (place_zero_child oc) cns (z, res)) ! t \<noteq> []"
  using assms
proof (induction cns arbitrary: z res)
  case (Cons cn cns)
  obtain i n where cn: "cn = (i, n)"
    by (cases cn)
  let ?res = "res[z mod oc := res ! (z mod oc) @ [(i, \<lparr>task_index = 0, task_count = 1\<rparr>)]]"
  have "?res ! t \<noteq> []"
    using Cons.prems by (cases "z mod oc = t") auto
  then show ?case
    using Cons.IH [of ?res "z + 1"] Cons.IH [of res z] Cons.prems by (auto simp: cn)
qed simp

section \<open>No count exceeds the budget\<close>

text \<open>An estimate an \<open>f64\<close> can hold whose product with the budget does not overflow.\<close>

definition soft_in_range :: "nat \<Rightarrow> task_count_annotation \<Rightarrow> bool" where
  "soft_in_range budget a \<longleftrightarrow>
     f64_wf (soft a) \<and>
     (case soft a of Fin s \<Rightarrow> of_nat budget * s < 2 ^ 1023 | _ \<Rightarrow> True)"

lemma unrounded_le_budget:
  assumes "validate children budget = Inr ()" "\<forall>a \<in> set children. soft_in_range budget a"
    "budget < 2 ^ 52" "length children \<le> 2 ^ 53" "x \<in> set (unrounded_child_task_counts children budget)"
  shows "f64_to_usize (f64_floor x) \<le> budget"
proof -
  have soft: "\<exists>s. soft a = Fin s \<and> 0 \<le> s \<and> f64_wf (Fin s) \<and> of_nat budget * s < 2 ^ 1023"
    if "a \<in> set children" for a
    using assms(1,2) that validate_Inr_iff [of children budget]
    by (cases "soft a") (fastforce simp: soft_in_range_def not_less)+
  let ?w = "total_weight children"
  have w: "?w = PInf \<or> (\<exists>v. ?w = Fin v \<and> 0 \<le> v \<and> (\<forall>s. Fin s \<in> set (map soft children) \<longrightarrow> s \<le> v))"
    using f64_sum_nonneg [of "map soft children"] soft unfolding total_weight_def by fastforce
  have zero: "f64_to_usize (f64_floor (Fin 0)) \<le> budget"
    using f64_to_usize_floor_le [of 0 budget] by simp
  show ?thesis
  proof (cases "f64_lt (Fin 0) ?w")
    case True
    then obtain a where a: "a \<in> set children"
      "x = f64_div (f64_mul (f64_of_usize budget) (soft a)) ?w"
      using assms(5) by (auto simp: unrounded_child_task_counts_def Let_def)
    obtain s where s: "soft a = Fin s" "0 \<le> s" "f64_wf (Fin s)" "of_nat budget * s < 2 ^ 1023"
      using soft [OF a(1)] by blast
    have "Fin s \<in> set (map soft children)"
      using a(1) s(1) by (metis image_eqI list.set_map)
    then have "?w = PInf \<or> (\<exists>v. ?w = Fin v \<and> 0 < v \<and> s \<le> v)"
      using w True by auto
    then show ?thesis
      unfolding a(2) s(1) by (rule share_floor_le [OF s(3,2) assms(3) s(4)])
  next
    case False
    let ?f = "length (filter (\<lambda>c. \<not> is_exact c) children)"
    let ?b = "budget - exact_total children"
    have "x = Fin 0 \<or> 0 < ?f \<and> x = f64_div (f64_of_usize ?b) (f64_of_usize ?f)"
      using False assms(5)
      by (auto simp: unrounded_child_task_counts_def Let_def split: if_splits)
    then show ?thesis
    proof (elim disjE conjE)
      assume f: "0 < ?f" "x = f64_div (f64_of_usize ?b) (f64_of_usize ?f)"
      have exact: "f64_of_usize ?b = Fin (of_nat ?b)" "f64_of_usize ?f = Fin (of_nat ?f)"
        using assms(3) order_trans [OF length_filter_le assms(4)]
        by (auto intro!: f64_of_usize_exact)
      have "1 \<le> (of_nat ?f :: rat)"
        using of_nat_mono [of 1 ?f, where 'a = rat] f(1) by linarith
      then have "of_nat ?b / of_nat ?f \<le> (of_nat ?b / 1 :: rat)"
        by (intro divide_left_mono mult_pos_pos) (simp_all only: zero_less_one of_nat_0_le_iff)
      also have "\<dots> \<le> of_nat budget + 1 / 2"
        using of_nat_mono [of ?b budget, where 'a = rat] by linarith
      finally obtain y where "rnd (of_nat ?b / of_nat ?f) = Fin y" "0 \<le> y" "y \<le> of_nat budget + 1 / 2"
        using rnd_le_half [of "of_nat ?b / of_nat ?f" budget] assms(3) by auto
      then show ?thesis
        using f(1) f64_to_usize_floor_le [of y budget]
        by (simp add: f(2) exact del: f64_to_usize.simps)
    qed (simp add: zero)
  qed
qed

lemma give_remainders_le:
  assumes "distinct order" "i < length counts"
  shows "give_remainders u order counts ! i \<le>
    counts ! i + (if i \<in> set order \<and> 0 < u then 1 else 0)"
  using assms
proof (induction u order counts rule: give_remainders.induct)
  case (2 u idx order counts)
  then show ?case
    by (cases "idx = i") (auto split: if_splits)
qed simp

lemma rounded_le_budget:
  assumes "validate children budget = Inr ()" "\<forall>a \<in> set children. soft_in_range budget a"
    "budget < 2 ^ 52" "length children \<le> 2 ^ 53" "i < length children"
  shows "rounded_counts children budget (unrounded_child_task_counts children budget) ! i \<le> budget"
proof -
  let ?sh = "unrounded_child_task_counts children budget"
  let ?fl = "map (\<lambda>x. f64_to_usize (f64_floor x)) ?sh"
  let ?o = "sort_by (remainder_cmp ?sh) [0..<length children]"
  have fl: "?fl ! i \<le> budget"
    using unrounded_le_budget [OF assms(1-4), of "?sh ! i"] assms(5) by simp
  have "give_remainders (budget - sum_list ?fl) ?o ?fl ! i \<le> budget"
  proof (cases "sum_list ?fl < budget")
    case True
    have "?fl ! i \<le> sum_list ?fl"
      using assms(5) by (intro elem_le_sum_list) simp
    then show ?thesis
      using True give_remainders_le [of ?o i ?fl "budget - sum_list ?fl"] assms(5)
        sort_by_props(3) [of "[0..<length children]" "remainder_cmp ?sh"]
      by (auto split: if_splits)
  next
    case False
    then show ?thesis
      using fl give_remainders_le [of ?o i ?fl 0] assms(5)
        sort_by_props(3) [of "[0..<length children]" "remainder_cmp ?sh"]
      by simp
  qed
  then show ?thesis
    using fl by (simp add: rounded_counts_def Let_def)
qed

lemma fill_unused_le:
  assumes "length counts = length children" "i < length children"
  shows "fill_unused children shares u counts ! i \<le>
    (if 0 < u then max (counts ! i) (sum_list counts + u) else counts ! i)"
  using assms
proof (induction u arbitrary: counts)
  case (Suc u)
  show ?case
  proof (cases "max_by (deficit_cmp shares counts) (filter (eligible children counts) [0..<length children])")
    case None
    then show ?thesis by simp
  next
    case (Some idx)
    let ?c = "counts[idx := counts ! idx + 1]"
    note idx = fill_unused_pick(1) [OF Some]
    have "sum_list ?c = Suc (sum_list counts)"
      using idx Suc.prems(1) by (intro sum_list_update_Suc) simp
    moreover have "?c ! i \<le> sum_list ?c"
      using Suc.prems by (intro elem_le_sum_list) simp
    ultimately show ?thesis
      using Suc.IH [of ?c] Suc.prems Some by (auto split: if_splits)
  qed
qed simp

lemma child_task_counts_le_budget:
  assumes "validate children budget = Inr ()" "\<forall>a \<in> set children. soft_in_range budget a"
    "budget < 2 ^ 52" "length children \<le> 2 ^ 53" "i < length children"
  shows "child_task_counts children budget ! i \<le> budget"
proof -
  let ?sh = "unrounded_child_task_counts children budget"
  let ?im = "map2 impose (rounded_counts children budget ?sh) children"
  have "impose n a \<le> budget" if "n \<le> budget" "a \<in> set children" for n a
    using that assms(1) validate_Inr_iff [of children budget]
    by (auto simp: impose_def Let_def split: option.splits)
  then have "?im ! i \<le> budget"
    using rounded_le_budget [OF assms] assms(5) by simp
  then show ?thesis
    using fill_unused_le [of ?im children i ?sh "budget - sum_list ?im"] assms(5)
    by (auto simp: child_task_counts_def Let_def split: if_splits)
qed

section \<open>Properties\<close>



text \<open>C11. No child occurs twice in the same outer task: as long as the budget is below \<open>2 ^ 52\<close>
  and its products with the estimates stay in range, the rounded shares never exceed the budget,
  so a child's consecutive placements never wrap onto themselves.\<close>

theorem split_children_no_child_twice:
  assumes "split_children children budget = Inr m"
    "\<forall>a \<in> set children. wf_restriction (restriction a) \<and> soft_in_range budget a"
    "budget < 2 ^ 52" "length children \<le> 2 ^ 53"
  shows "\<forall>slot \<in> set m. distinct (map fst slot)"
proof -
  let ?c = "child_task_counts children budget"
  note s = split_children_Inr [OF assms(1)]
  have "\<forall>n \<in> set ?c. n \<le> budget"
    using child_task_counts_le_budget [OF s(3) _ assms(3,4)] assms(2)
    by (auto simp: in_set_conv_nth)
  then show ?thesis
    using place_all_distinct [OF s(1)] child_task_counts_pos [OF _ s(2,1)] assms(2) s(4) by simp
qed

theorem split_children_no_child_twice_witness:
  "distinct (map fst [(0::nat, \<lparr>task_index = 0, task_count = 2\<rparr>), (1, \<lparr>task_index = 0, task_count = 1\<rparr>)]) \<and>
   distinct (map fst [(0::nat, \<lparr>task_index = 1, task_count = 2\<rparr>)])"
proof -
  have e: "split_children [ann_soft (Fin 2), ann_exact 1 (Fin 0)] 2 =
    Inr [[(0, \<lparr>task_index = 0, task_count = 2\<rparr>), (1, \<lparr>task_index = 0, task_count = 1\<rparr>)],
      [(0, \<lparr>task_index = 1, task_count = 2\<rparr>)]]"
    by code_simp
  have "rnd 2 = Fin 2"
    by code_simp
  then have r: "\<forall>a \<in> set [ann_soft (Fin 2), ann_exact 1 (Fin 0)].
      wf_restriction (restriction a) \<and> soft_in_range 2 a"
    by (simp add: ann_soft_def ann_exact_def soft_in_range_def rnd_def)
  show ?thesis
    using split_children_no_child_twice [OF e r] by simp
qed

text \<open>No outer task stays empty when some child has no maximum: the fill loop gives it the
  unused budget.\<close>

theorem split_children_no_empty_slot:
  assumes "split_children children budget = Inr m"
    "\<forall>a \<in> set children. wf_restriction (restriction a)"
    "\<exists>a \<in> set children. get_max a = None" "slot \<in> set m"
  shows "slot \<noteq> []"
proof -
  let ?c = "child_task_counts children budget"
  note s = split_children_Inr [OF assms(1)]
  have pos: "0 < sum_list ?c"
    using child_task_counts_pos [OF assms(2) s(2,1)] .
  obtain i where "i < length children" "get_max (children ! i) = None"
    using assms(3) by (auto simp: in_set_conv_nth)
  then have full: "budget \<le> sum_list ?c"
    using child_task_counts_sum [of budget children] by (auto simp: eligible_def)
  have len: "length (snd (place_children budget ?c)) = budget" "fst (place_children budget ?c) = sum_list ?c"
    using place_children_props [OF s(1)] by auto
  obtain t where t: "t < budget" "slot = m ! t"
    using assms(4) place_all_props(1) [OF s(1) pos] s(4) by (auto simp: in_set_conv_nth)
  have "snd (place_children budget ?c) ! t \<noteq> []"
    using t(1) full by (intro place_children_occupied [OF s(1)]) simp_all
  then have "snd (fold (place_zero_child budget) (enumerate_list ?c)
      (0, snd (place_children budget ?c))) ! t \<noteq> []"
    using s(1) t(1) len by (intro fold_place_zero_nonempty) simp_all
  then show ?thesis
    using t(2) pos full len
    by (cases "place_children budget ?c") (simp add: s(4) place_zero_children_def min_absorb2)
qed

theorem split_children_no_empty_slot_witness:
  "[(1::nat, \<lparr>task_index = 1, task_count = 2\<rparr>)] \<noteq> []"
proof (rule split_children_no_empty_slot)
  show "split_children [ann_max 1 (Fin 3), ann_soft (Fin 1)] 3 =
    Inr [[(0, \<lparr>task_index = 0, task_count = 1\<rparr>)], [(1, \<lparr>task_index = 0, task_count = 2\<rparr>)],
      [(1, \<lparr>task_index = 1, task_count = 2\<rparr>)]]"
    by code_simp
qed (simp_all add: ann_max_def ann_soft_def get_max_def)

text \<open>C15. The allocation fails exactly on an empty budget, no children, a minimum (or exact
  count) above the budget, or an estimate that is negative or not finite.\<close>

theorem split_children_error_iff:
  "(\<exists>e. split_children children budget = Inl e) \<longleftrightarrow>
     budget = 0 \<or> children = [] \<or>
     (\<exists>a \<in> set children. (\<exists>mn. get_min a = Some mn \<and> budget < mn) \<or>
        \<not> f64_is_finite (soft a) \<or> f64_lt (soft a) (Fin 0))"
proof -
  have "(\<exists>e. split_children children budget = Inl e) \<longleftrightarrow> validate children budget \<noteq> Inr ()"
    by (cases "validate children budget") (auto simp: split_children_def Let_def)
  then show ?thesis
    unfolding validate_Inr_iff by (auto simp: not_le)
qed

theorem split_children_error_iff_witness:
  "\<exists>e. split_children [ann_soft (Fin 1), ann_exact 3 (Fin 0)] 2 = Inl e"
  unfolding split_children_error_iff by (simp add: ann_soft_def ann_exact_def get_min_def)

end
