(* ===== verification/ChildrenIsolatorUnion.thy ===== *)
theory ChildrenIsolatorUnion
  imports SplitChildren
begin

text \<open>
  \<open>ChildrenIsolatorUnionExec\<close>
  (\<open>src/src/execution_plans/children_isolator_union.rs\<close>): a union whose children run
  isolated from each other, each in its own tasks, according to the task map of
  \<open>split_children\<close>. The children are plans of another crate: their type, the function \<open>parts\<close>
  that gives a plan's number of output partitions, \<open>union_new\<close> that computes the properties of a
  plain union, and \<open>empty_exec\<close> that builds an empty plan are parameters. \<open>ObservedStream\<close>, the
  stream wrapper of the same file, is modelled on batches that are lists of rows.
\<close>

record ('p, 'props) children_isolator_union =
  properties :: 'props
  partition_count :: nat
  children :: "'p list"
  child_annotations :: "task_count_annotation list"
  task_idx_map :: task_idx_map

datatype 'e union_error =
    ChildCountMismatch nat nat
  | Split split_error
  | EmptyTaskMap
  | UnionError 'e
  | NewChildrenMismatch nat nat
  | ChildNotFound nat
  | ChildExecError 'e

section \<open>Construction\<close>

definition task_partitions :: "('p \<Rightarrow> nat) \<Rightarrow> 'p list \<Rightarrow> task_slot \<Rightarrow> nat" where
  "task_partitions parts cs slot = fold (\<lambda>(i, _) acc. acc + parts (cs ! i)) slot 0"

definition from_children_and_annotations ::
  "('p \<Rightarrow> nat) \<Rightarrow> ('p list \<Rightarrow> ('e, 'props) res) \<Rightarrow> 'p list \<Rightarrow> task_count_annotation list \<Rightarrow> nat \<Rightarrow>
     ('e union_error, ('p, 'props) children_isolator_union) res" where
  "from_children_and_annotations parts union_new cs anns budget =
     (if length cs \<noteq> length anns then Inl (ChildCountMismatch (length cs) (length anns))
      else case split_children anns budget of
        Inl e \<Rightarrow> Inl (Split e)
      | Inr m \<Rightarrow>
          (let partition_counts = map (task_partitions parts cs) m
           in case iter_max partition_counts of
                None \<Rightarrow> Inl EmptyTaskMap
              | Some n \<Rightarrow>
                  (case union_new cs of
                     Inl e \<Rightarrow> Inl (UnionError e)
                   | Inr props \<Rightarrow>
                       Inr \<lparr>properties = props, partition_count = n, children = cs,
                            child_annotations = anns, task_idx_map = m\<rparr>)))"

definition new_single_task ::
  "('p \<Rightarrow> nat) \<Rightarrow> ('p list \<Rightarrow> ('e, 'props) res) \<Rightarrow> 'p list \<Rightarrow>
     ('e union_error, ('p, 'props) children_isolator_union) res" where
  "new_single_task parts union_new cs =
     from_children_and_annotations parts union_new cs
       (replicate (length cs) (ann_soft (Fin 1))) 1"

definition with_new_children ::
  "('p \<Rightarrow> nat) \<Rightarrow> ('p list \<Rightarrow> ('e, 'props) res) \<Rightarrow> ('p, 'props) children_isolator_union \<Rightarrow>
     'p list \<Rightarrow> ('e union_error, ('p, 'props) children_isolator_union) res" where
  "with_new_children parts union_new u cs =
     (if length cs \<noteq> length (children u)
      then Inl (NewChildrenMismatch (length cs) (length (children u)))
      else from_children_and_annotations parts union_new cs (child_annotations u)
             (length (task_idx_map u)))"

section \<open>Task counts and specialization\<close>

definition count_item :: "nat \<times> task_ctx \<Rightarrow> nat list \<Rightarrow> nat list" where
  "count_item ic counts =
     (let (i, ctx) = ic in counts[i := max (counts ! i) (task_count ctx)])"

definition union_child_task_counts :: "('p, 'props) children_isolator_union \<Rightarrow> nat list" where
  "union_child_task_counts u =
     fold (fold count_item) (task_idx_map u) (replicate (length (children u)) 0)"

definition to_task_specialized ::
  "('p \<Rightarrow> 'p) \<Rightarrow> ('p, 'props) children_isolator_union \<Rightarrow> nat \<Rightarrow> ('p, 'props) children_isolator_union" where
  "to_task_specialized empty_exec u task_i =
     (let children_to_keep = map fst (task_idx_map u ! task_i)
      in u\<lparr>children := map (\<lambda>(child_i, plan).
               if child_i \<in> set children_to_keep then plan else empty_exec plan)
             (enumerate_list (children u))\<rparr>)"

section \<open>Execution\<close>

text \<open>
  \<open>execute\<close> walks the children of its task: the requested partition belongs to the child in
  whose range it falls; the error of \<open>union_route\<close> is the index of a child that does not exist. \<open>exec\<close> runs a child on a partition in a task context; \<open>Inr None\<close> is the
  empty stream of a partition beyond the last child.
\<close>

fun union_route ::
  "('p \<Rightarrow> nat) \<Rightarrow> 'p list \<Rightarrow> task_slot \<Rightarrow> nat \<Rightarrow> (nat, (nat \<times> task_ctx \<times> nat) option) res" where
  "union_route parts cs [] p = Inr None"
| "union_route parts cs ((i, ctx) # rest) p =
     (if length cs \<le> i then Inl i
      else if p < parts (cs ! i) then Inr (Some (i, ctx, p))
      else union_route parts cs rest (p - parts (cs ! i)))"

definition union_execute ::
  "('p \<Rightarrow> nat) \<Rightarrow> ('p \<Rightarrow> task_ctx \<Rightarrow> nat \<Rightarrow> ('e, 's) res) \<Rightarrow> ('p, 'props) children_isolator_union \<Rightarrow>
     task_ctx \<Rightarrow> nat \<Rightarrow> ('e union_error, 's option) res" where
  "union_execute parts exec u d_ctx p =
     (case union_route parts (children u) (task_idx_map u ! task_index d_ctx) p of
        Inl i \<Rightarrow> Inl (ChildNotFound i)
      | Inr None \<Rightarrow> Inr None
      | Inr (Some (i, ctx, q)) \<Rightarrow>
          (case exec (children u ! i) ctx q of
             Inl e \<Rightarrow> Inl (ChildExecError e)
           | Inr s \<Rightarrow> Inr (Some s)))"

section \<open>ObservedStream\<close>

datatype ('e, 'row) poll = Pending | Done | Item "('e, 'row list) res"

record observed_stream =
  fetch :: "nat option"
  produced :: nat

definition limit_reached ::
  "observed_stream \<Rightarrow> ('e, 'row) poll \<Rightarrow> observed_stream \<times> ('e, 'row) poll" where
  "limit_reached st p =
     (case fetch st of
        None \<Rightarrow> (st, p)
      | Some f \<Rightarrow>
          if f \<le> produced st then (st, Done)
          else case p of
            Item (Inr batch) \<Rightarrow>
              if f < produced st + length batch then
                let b = take (f - produced st) batch
                in (st\<lparr>produced := produced st + length b\<rparr>, Item (Inr b))
              else (st\<lparr>produced := produced st + length batch\<rparr>, p)
          | _ \<Rightarrow> (st, p))"

definition observed_poll_next ::
  "observed_stream \<Rightarrow> ('e, 'row) poll \<Rightarrow> observed_stream \<times> ('e, 'row) poll" where
  "observed_poll_next st inner =
     (if fetch st \<noteq> None then limit_reached st inner else (st, inner))"

text \<open>The polls a consumer sees for a sequence of polls of the inner stream.\<close>

fun observed_run :: "observed_stream \<Rightarrow> ('e, 'row) poll list \<Rightarrow> ('e, 'row) poll list" where
  "observed_run st [] = []"
| "observed_run st (p # ps) =
     (let (st', q) = observed_poll_next st p in q # observed_run st' ps)"

fun poll_rows :: "('e, 'row) poll \<Rightarrow> 'row list" where
  "poll_rows (Item (Inr b)) = b"
| "poll_rows _ = []"

section \<open>Lemmas\<close>

lemma task_partitions_sum: "task_partitions parts cs slot = (\<Sum>(i, _) \<leftarrow> slot. parts (cs ! i))"
proof -
  have "fold (\<lambda>(i, _) acc. acc + parts (cs ! i)) slot k = k + (\<Sum>(i, _) \<leftarrow> slot. parts (cs ! i))" for k
    by (induction slot arbitrary: k) auto
  then show ?thesis
    by (simp add: task_partitions_def)
qed

text \<open>What the constructor establishes and every operation keeps.\<close>

definition task_map_inv :: "('p, 'props) children_isolator_union \<Rightarrow> bool" where
  "task_map_inv u \<longleftrightarrow>
     length (child_annotations u) = length (children u) \<and>
     split_children (child_annotations u) (length (task_idx_map u)) = Inr (task_idx_map u)"

definition union_inv :: "('p \<Rightarrow> nat) \<Rightarrow> ('p, 'props) children_isolator_union \<Rightarrow> bool" where
  "union_inv parts u \<longleftrightarrow>
     task_map_inv u \<and>
     (\<forall>slot \<in> set (task_idx_map u). task_partitions parts (children u) slot \<le> partition_count u)"

lemma place_all_length:
  assumes "0 < B"
  shows "length (place_zero_children B counts (place_children B counts)) = B"
proof (cases "0 < sum_list counts")
  case True
  then show ?thesis
    using place_all_props(1) [OF assms] by simp
next
  case False
  then have "fst (place_children B counts) = 0"
    using place_children_props(1) [OF assms, of counts] by linarith
  then show ?thesis
    using place_children_props(2) [OF assms, of counts]
    by (cases "place_children B counts") (simp add: place_zero_children_def)
qed

lemma split_children_length:
  assumes "split_children anns budget = Inr m"
  shows "length m = budget"
  using split_children_Inr [OF assms] place_all_length by simp

lemma from_children_Inr:
  assumes "from_children_and_annotations parts union_new cs anns budget = Inr u"
  shows "children u = cs" "child_annotations u = anns"
    "split_children anns budget = Inr (task_idx_map u)" "union_inv parts u"
proof -
  obtain m where m: "length cs = length anns" "split_children anns budget = Inr m"
    "children u = cs" "child_annotations u = anns" "task_idx_map u = m"
    "iter_max (map (task_partitions parts cs) m) = Some (partition_count u)"
    using assms
    by (auto simp: from_children_and_annotations_def Let_def
        split: if_splits sum.splits option.splits)
  then show "children u = cs" "child_annotations u = anns"
    "split_children anns budget = Inr (task_idx_map u)"
    by auto
  show "union_inv parts u"
    using m split_children_length [OF m(2)] iter_max_ge [OF m(6)] by (auto simp: union_inv_def task_map_inv_def)
qed

text \<open>Everything the tasks of a union execute, over all tasks and advertised partitions.\<close>

definition slot_routes ::
  "('p \<Rightarrow> nat) \<Rightarrow> 'p list \<Rightarrow> task_slot \<Rightarrow> nat \<Rightarrow> (nat \<times> task_ctx \<times> nat) list" where
  "slot_routes parts cs slot n =
     List.map_filter (\<lambda>p. case union_route parts cs slot p of
       Inr (Some r) \<Rightarrow> Some r | _ \<Rightarrow> None) [0..<n]"

definition union_routes ::
  "('p \<Rightarrow> nat) \<Rightarrow> ('p, 'props) children_isolator_union \<Rightarrow> (nat \<times> task_ctx \<times> nat) list" where
  "union_routes parts u =
     concat (map (\<lambda>slot. slot_routes parts (children u) slot (partition_count u)) (task_idx_map u))"

definition child_partitions ::
  "('p \<Rightarrow> nat) \<Rightarrow> 'p list \<Rightarrow> nat \<times> task_ctx \<Rightarrow> (nat \<times> task_ctx \<times> nat) list" where
  "child_partitions parts cs ic = (let (i, ctx) = ic in map (\<lambda>q. (i, ctx, q)) [0..<parts (cs ! i)])"

lemma union_route_beyond:
  "\<forall>(i, _) \<in> set slot. i < length cs \<Longrightarrow> task_partitions parts cs slot \<le> p \<Longrightarrow>
     union_route parts cs slot p = Inr None"
  by (induction slot arbitrary: p) (auto simp: task_partitions_sum)

lemma upt_append_shift: "[0..<a + b] = [0..<a] @ map (\<lambda>q. a + q) [0..<b]"
  by (induction b) auto

lemma map_filter_append: "List.map_filter f (xs @ ys) = List.map_filter f xs @ List.map_filter f ys"
  by (simp add: List.map_filter_def)

lemma map_filter_Some: "(\<And>x. x \<in> set xs \<Longrightarrow> f x = Some (g x)) \<Longrightarrow> List.map_filter f xs = map g xs"
  by (induction xs) (auto simp: List.map_filter_simps)

lemma map_filter_None: "(\<And>x. x \<in> set xs \<Longrightarrow> f x = None) \<Longrightarrow> List.map_filter f xs = []"
  by (induction xs) (auto simp: List.map_filter_simps)

lemma map_filter_map: "List.map_filter f (map g xs) = List.map_filter (\<lambda>x. f (g x)) xs"
  by (simp add: List.map_filter_def filter_map comp_def)

lemma concat_map_concat: "concat (map f (concat xss)) = concat (map (\<lambda>xs. concat (map f xs)) xss)"
  by (induction xss) simp_all

lemma slot_routes_eq:
  assumes "\<forall>(i, _) \<in> set slot. i < length cs" "task_partitions parts cs slot \<le> n"
  shows "slot_routes parts cs slot n = concat (map (child_partitions parts cs) slot)"
  using assms
proof (induction slot arbitrary: n)
  case Nil
  then show ?case
    by (simp add: slot_routes_def map_filter_None)
next
  case (Cons ic slot)
  obtain i ctx where ic: "ic = (i, ctx)"
    by (cases ic)
  let ?a = "parts (cs ! i)"
  obtain b where n: "n = ?a + b" "task_partitions parts cs slot \<le> b"
    using Cons.prems(2) by (auto simp: ic task_partitions_sum le_iff_add)
  have "slot_routes parts cs (ic # slot) n =
      map (\<lambda>q. (i, ctx, q)) [0..<?a] @ slot_routes parts cs slot b"
    unfolding slot_routes_def n(1) upt_append_shift map_filter_append map_filter_map
    using Cons.prems(1) by (auto simp: ic intro!: map_filter_Some)
  then show ?case
    using Cons.IH [OF _ n(2)] Cons.prems(1) by (simp add: ic child_partitions_def)
qed

lemma union_route_total:
  "\<forall>(i, _) \<in> set slot. i < length cs \<Longrightarrow> \<exists>r. union_route parts cs slot p = Inr r"
  by (induction slot arbitrary: p) auto

lemma mset_concat_map_cong:
  "mset xs = mset ys \<Longrightarrow> mset (concat (map f xs)) = mset (concat (map f ys))"
proof -
  have "mset (concat (map f zs)) = \<Sum>\<^sub># (image_mset (\<lambda>z. mset (f z)) (mset zs))" for zs
    by (induction zs) auto
  then show "mset xs = mset ys \<Longrightarrow> mset (concat (map f xs)) = mset (concat (map f ys))"
    by simp
qed

lemma split_children_ids:
  assumes "split_children anns budget = Inr m" "\<forall>a \<in> set anns. wf_restriction (restriction a)"
    "slot \<in> set m" "(i, ctx) \<in> set slot"
  shows "i < length anns"
proof -
  let ?c = "child_task_counts anns budget"
  note s = split_children_Inr [OF assms(1)]
  have "(i, ctx) \<in># mset (concat m)"
    using assms(3,4) by auto
  also have "mset (concat m) = mset (concat (map child_items (enumerate_list (map (max 1) ?c))))"
    using place_all_props(2) [OF s(1) child_task_counts_pos [OF assms(2) s(2,1)]] s(4) by simp
  finally show ?thesis
    by (auto simp: child_items_def in_set_enumerate_list)
qed

lemma union_routes_mset:
  assumes "union_inv parts u" "\<forall>a \<in> set (child_annotations u). wf_restriction (restriction a)"
  shows "mset (union_routes parts u) =
    mset (concat (map (child_partitions parts (children u)) (concat (task_idx_map u))))"
proof -
  have "slot_routes parts (children u) slot (partition_count u) =
      concat (map (child_partitions parts (children u)) slot)" if "slot \<in> set (task_idx_map u)" for slot
    using assms that split_children_ids [of "child_annotations u" _ "task_idx_map u" slot]
    by (intro slot_routes_eq) (auto simp: union_inv_def task_map_inv_def)
  then have "union_routes parts u =
      concat (map (\<lambda>slot. concat (map (child_partitions parts (children u)) slot)) (task_idx_map u))"
    unfolding union_routes_def by (metis (no_types, lifting) map_eq_conv)
  then show ?thesis
    by (simp only: concat_map_concat)
qed

lemma fold_count_item:
  assumes "\<forall>(i, _) \<in> set xs. i < length counts"
  shows "length (fold count_item xs counts) = length counts \<and>
    (\<forall>i < length counts. fold count_item xs counts ! i =
       fold max (map (\<lambda>(_, ctx). task_count ctx) (filter (\<lambda>(j, _). j = i) xs)) (counts ! i))"
  using assms
proof (induction xs arbitrary: counts)
  case (Cons x xs)
  obtain j ctx where x: "x = (j, ctx)"
    by (cases x)
  show ?case
    using Cons.IH [of "count_item x counts"] Cons.prems
    by (auto simp: x count_item_def nth_list_update max.commute)
qed simp

lemma fold_fold_concat: "fold (fold f) xss s = fold f (concat xss) s"
  by (induction xss arbitrary: s) simp_all

lemma fold_max_const:
  assumes "\<forall>x \<in> set xs. x = n" "xs \<noteq> []"
  shows "fold max xs 0 = (n::nat)"
proof -
  have "fold max xs k = max k n" if "\<forall>x \<in> set xs. x = n" "xs \<noteq> []" for xs k
    using that
  proof (induction xs arbitrary: k)
    case (Cons x xs)
    then show ?case by (cases xs) (auto simp: max.commute max.left_commute)
  qed simp
  then show ?thesis
    using assms by simp
qed

lemma child_items_mem:
  "set (concat (map child_items (enumerate_list ns))) =
     {(i, \<lparr>task_index = k, task_count = ns ! i\<rparr>) | i k. i < length ns \<and> k < ns ! i}"
  unfolding child_items_enumerate by auto

lemma union_tasks_mset:
  assumes "task_map_inv u" "\<forall>a \<in> set (child_annotations u). wf_restriction (restriction a)"
  shows "mset (concat (task_idx_map u)) = mset (concat (map child_items
    (enumerate_list (run_counts (child_annotations u) (length (task_idx_map u))))))"
proof -
  have "split_children (child_annotations u) (length (task_idx_map u)) = Inr (task_idx_map u)"
    using assms(1) by (simp add: task_map_inv_def)
  note s = split_children_Inr [OF this]
  show ?thesis
    using place_all_props(2) [OF s(1) child_task_counts_pos [OF assms(2) s(2,1)]] s(4)
    by (simp add: run_counts_def)
qed

text \<open>The task counts read off the task map are the ones the map was built for.\<close>

lemma union_task_counts:
  assumes "task_map_inv u" "\<forall>a \<in> set (child_annotations u). wf_restriction (restriction a)"
  shows "union_child_task_counts u = run_counts (child_annotations u) (length (task_idx_map u))"
proof (rule nth_equalityI)
  let ?ns = "run_counts (child_annotations u) (length (task_idx_map u))"
  have na: "length ?ns = length (children u)" "length (child_annotations u) = length (children u)"
    using assms(1) by (auto simp: task_map_inv_def run_counts_def)
  have "set (concat (task_idx_map u)) = set (concat (map child_items (enumerate_list ?ns)))"
    using union_tasks_mset [OF assms] by (rule mset_eq_setD)
  note ent = this [unfolded child_items_mem na]
  have ids: "\<forall>(i, _) \<in> set (concat (task_idx_map u)). i < length (replicate (length (children u)) 0)"
    unfolding ent by auto
  note counts = fold_count_item [OF ids]
  show len: "length (union_child_task_counts u) = length ?ns"
    using counts na by (simp add: union_child_task_counts_def fold_fold_concat)
  fix i assume "i < length (union_child_task_counts u)"
  then have i: "i < length (children u)"
    using len na by simp
  let ?xs = "filter (\<lambda>(j, _). j = i) (concat (task_idx_map u))"
  have "(i, \<lparr>task_index = 0, task_count = ?ns ! i\<rparr>) \<in> set ?xs"
    using i na(2) unfolding set_filter ent by (auto simp: run_counts_def)
  then have "map (\<lambda>(_, ctx). task_count ctx) ?xs \<noteq> []"
    by (metis empty_iff empty_set map_is_Nil_conv)
  moreover have "\<forall>n \<in> set (map (\<lambda>(_, ctx). task_count ctx) ?xs). n = ?ns ! i"
    unfolding set_map set_filter ent by auto
  ultimately have "fold max (map (\<lambda>(_, ctx). task_count ctx) ?xs) 0 = ?ns ! i"
    by (rule fold_max_const [rotated])
  then show "union_child_task_counts u ! i = ?ns ! i"
    using counts i by (simp add: union_child_task_counts_def fold_fold_concat)
qed

lemma union_route_specialized:
  "\<forall>(i, _) \<in> set slot. i \<in> keep \<Longrightarrow>
     union_route parts (map (\<lambda>(i, plan). if i \<in> keep then plan else e plan) (enumerate_list cs)) slot p =
     union_route parts cs slot p"
  by (induction slot arbitrary: p) auto

lemma observed_run_rows:
  "fetch st = Some f \<Longrightarrow>
     concat (map poll_rows (observed_run st ps)) = take (f - produced st) (concat (map poll_rows ps))"
proof (induction ps arbitrary: st)
  case (Cons p ps)
  show ?case
  proof (cases "f \<le> produced st")
    case True
    then show ?thesis
      using Cons by (simp add: observed_poll_next_def limit_reached_def)
  next
    case False
    then show ?thesis
      using Cons.IH Cons.prems
      by (cases p rule: poll_rows.cases)
         (auto simp: observed_poll_next_def limit_reached_def Let_def)
  qed
qed simp

section \<open>Properties\<close>

text \<open>C2. Executing every advertised partition of every task of a union runs every partition of
  every isolated task of every child exactly once, and routing never fails.\<close>

theorem union_execute_exactly_once:
  assumes "from_children_and_annotations parts union_new cs anns budget = Inr u"
    "\<forall>a \<in> set anns. wf_restriction (restriction a)"
  shows "(\<forall>slot \<in> set (task_idx_map u). \<forall>p. \<exists>r. union_route parts (children u) slot p = Inr r) \<and>
    (\<exists>ns. length ns = length cs \<and> (\<forall>i < length cs. 0 < ns ! i \<and> admits (restriction (anns ! i)) (ns ! i)) \<and>
       mset (union_routes parts u) =
         mset (concat (map (child_partitions parts cs)
           (concat (map (\<lambda>i. map (\<lambda>k. (i, \<lparr>task_index = k, task_count = ns ! i\<rparr>)) [0..<ns ! i])
              [0..<length cs])))))"
proof -
  note f = from_children_Inr [OF assms(1)]
  have len: "length anns = length cs"
    using f by (simp add: union_inv_def task_map_inv_def)
  let ?ns = "run_counts anns budget"
  have "mset (concat (task_idx_map u)) = mset (concat (map child_items (enumerate_list ?ns)))"
    using union_tasks_mset [of u] f split_children_length [OF f(3)] assms(2) by (simp add: union_inv_def)
  then have "mset (union_routes parts u) =
      mset (concat (map (child_partitions parts cs) (concat (map child_items (enumerate_list ?ns)))))"
    using union_routes_mset [OF f(4)] assms(2) f(1,2) mset_concat_map_cong by metis
  moreover have "\<forall>i < length cs. 0 < ?ns ! i \<and> admits (restriction (anns ! i)) (?ns ! i)"
    using child_task_counts_ok [OF assms(2)] count_ok_admits assms(2) len
    by (auto simp: run_counts_def less_max_iff_disj)
  moreover have "\<forall>slot \<in> set (task_idx_map u). \<forall>p. \<exists>r. union_route parts (children u) slot p = Inr r"
    using split_children_ids [OF f(3) assms(2)] f(1) len by (fastforce intro!: union_route_total)
  ultimately show ?thesis
    unfolding child_items_enumerate by (intro conjI exI [of _ ?ns]) (simp_all add: run_counts_def len)
qed

theorem union_execute_exactly_once_witness:
  "\<exists>u. from_children_and_annotations (\<lambda>n. n) (\<lambda>_. Inr () :: (unit, unit) res) [2, 1]
         [ann_soft (Fin 1), ann_exact 1 (Fin 0)] 1 = Inr u \<and>
     (\<exists>ns. length ns = length [2, 1 :: nat] \<and> mset (union_routes (\<lambda>n. n) u) =
        mset (concat (map (child_partitions (\<lambda>n. n) [2, 1])
          (concat (map (\<lambda>i. map (\<lambda>k. (i, \<lparr>task_index = k, task_count = ns ! i\<rparr>)) [0..<ns ! i])
            [0..<length [2, 1 :: nat]])))))"
proof -
  let ?u = "\<lparr>properties = (), partition_count = 3, children = [2, 1],
      child_annotations = [ann_soft (Fin 1), ann_exact 1 (Fin 0)],
      task_idx_map = [[(0, \<lparr>task_index = 0, task_count = 1\<rparr>), (1, \<lparr>task_index = 0, task_count = 1\<rparr>)]]\<rparr>"
  have u: "from_children_and_annotations (\<lambda>n. n) (\<lambda>_. Inr () :: (unit, unit) res) [2, 1]
      [ann_soft (Fin 1), ann_exact 1 (Fin 0)] 1 = Inr ?u"
    by code_simp
  have "\<forall>a \<in> set [ann_soft (Fin 1), ann_exact 1 (Fin 0)]. wf_restriction (restriction a)"
    by (simp add: ann_soft_def ann_exact_def)
  from union_execute_exactly_once [OF u this] show ?thesis
    using u by blast
qed

text \<open>Replacing the children of a union by as many others keeps its task map, whatever the
  new children are, and every isolated child knows its task count.\<close>

theorem with_new_children_keeps_tasks:
  assumes "from_children_and_annotations parts union_new cs anns budget = Inr u"
    "with_new_children parts union_new u cs' = Inr u'"
    "\<forall>a \<in> set anns. wf_restriction (restriction a)"
  shows "task_idx_map u' = task_idx_map u \<and> children u' = cs' \<and>
    union_child_task_counts u' = run_counts anns budget"
proof -
  note f = from_children_Inr [OF assms(1)]
  have len: "length (task_idx_map u) = budget" "length cs' = length cs"
    using split_children_length [OF f(3)] assms(2) f(1)
    by (auto simp: with_new_children_def split: if_splits)
  then have "from_children_and_annotations parts union_new cs' anns budget = Inr u'"
    using assms(2) f(1,2) by (simp add: with_new_children_def split: if_splits)
  note g = from_children_Inr [OF this]
  note inv = g(4) [unfolded union_inv_def, THEN conjunct1]
  have "length (task_idx_map u') = budget"
    by (rule split_children_length [OF g(3)])
  then have "union_child_task_counts u' = run_counts anns budget"
    using union_task_counts [OF inv] assms(3) g(2) by simp
  then show ?thesis
    using f(3) g(1,3) by simp
qed

theorem with_new_children_keeps_tasks_witness:
  "\<exists>u u'. from_children_and_annotations (\<lambda>n. n) (\<lambda>_. Inr () :: (unit, unit) res) [2, 1]
         [ann_soft (Fin 1), ann_exact 1 (Fin 0)] 1 = Inr u \<and>
     with_new_children (\<lambda>n. n) (\<lambda>_. Inr () :: (unit, unit) res) u [5, 7] = Inr u' \<and>
     task_idx_map u' = task_idx_map u"
proof -
  let ?u = "\<lambda>n cs. \<lparr>properties = (), partition_count = n, children = cs,
      child_annotations = [ann_soft (Fin 1), ann_exact 1 (Fin 0)],
      task_idx_map = [[(0, \<lparr>task_index = 0, task_count = 1\<rparr>), (1, \<lparr>task_index = 0, task_count = 1\<rparr>)]]\<rparr>"
  have u: "from_children_and_annotations (\<lambda>n. n) (\<lambda>_. Inr () :: (unit, unit) res) [2, 1]
      [ann_soft (Fin 1), ann_exact 1 (Fin 0)] 1 = Inr (?u 3 [2, 1])"
    "with_new_children (\<lambda>n. n) (\<lambda>_. Inr () :: (unit, unit) res) (?u 3 [2, 1]) [5, 7] =
      Inr (?u 12 [5, 7])"
    by code_simp+
  have "\<forall>a \<in> set [ann_soft (Fin 1), ann_exact 1 (Fin 0)]. wf_restriction (restriction a)"
    by (simp add: ann_soft_def ann_exact_def)
  from with_new_children_keeps_tasks [OF u this] show ?thesis
    using u by blast
qed

text \<open>C16. Specializing a union to one of its tasks does not change what that task executes, and
  replaces every child the task does not run by an empty plan.\<close>

theorem to_task_specialized_same_execution:
  "union_execute parts exec (to_task_specialized empty_exec u (task_index d_ctx)) d_ctx p =
     union_execute parts exec u d_ctx p \<and>
   (\<forall>i < length (children u). i \<notin> fst ` set (task_idx_map u ! task_index d_ctx) \<longrightarrow>
      children (to_task_specialized empty_exec u (task_index d_ctx)) ! i = empty_exec (children u ! i))"
proof -
  let ?slot = "task_idx_map u ! task_index d_ctx"
  let ?s = "to_task_specialized empty_exec u (task_index d_ctx)"
  have c: "children ?s = map (\<lambda>(i, plan). if i \<in> set (map fst ?slot) then plan else empty_exec plan)
      (enumerate_list (children u))" "task_idx_map ?s = task_idx_map u"
    by (simp_all add: to_task_specialized_def Let_def)
  have route: "union_route parts (children ?s) ?slot p = union_route parts (children u) ?slot p"
    unfolding c(1) by (intro union_route_specialized) force
  have hit: "children ?s ! i = children u ! i"
    if "union_route parts (children u) slot p = Inr (Some (i, ctx, q))" "set slot \<subseteq> set ?slot"
    for i ctx q slot p
    using that
  proof (induction slot arbitrary: p)
    case (Cons x slot)
    then show ?case
      by (cases x) (force simp: c(1) split: if_splits)
  qed simp
  have "union_execute parts exec ?s d_ctx p = union_execute parts exec u d_ctx p"
    unfolding union_execute_def c(2) route
    using hit [of ?slot p] by (auto split: sum.splits option.splits)
  then show ?thesis
    by (auto simp: c(1) image_iff)
qed

theorem to_task_specialized_same_execution_witness:
  "children (to_task_specialized (\<lambda>_. 0) \<lparr>properties = (), partition_count = 2, children = [2, 1::nat],
      child_annotations = [], task_idx_map = [[(1, \<lparr>task_index = 0, task_count = 1\<rparr>)]]\<rparr> 0) ! 0 = 0"
  using to_task_specialized_same_execution [of "\<lambda>n. n" "\<lambda>_ _ _. Inr () :: (unit, unit) res" "\<lambda>_. 0"
      "\<lparr>properties = (), partition_count = 2, children = [2, 1],
        child_annotations = [], task_idx_map = [[(1, \<lparr>task_index = 0, task_count = 1\<rparr>)]]\<rparr>"
      "\<lparr>task_index = 0, task_count = 1\<rparr>" 0]
  by simp

text \<open>A stream with a fetch limit delivers exactly the first \<open>fetch\<close> rows of its input,
  splitting the batch in which the limit falls.\<close>

theorem observed_stream_takes_fetch:
  "concat (map poll_rows (observed_run \<lparr>fetch = Some f, produced = 0\<rparr> ps)) =
     take f (concat (map poll_rows ps))"
  using observed_run_rows [of "\<lparr>fetch = Some f, produced = 0\<rparr>" f ps] by simp

end
