(* ===== verification/Partitioning.thy ===== *)
theory Partitioning
  imports Stage
begin

text \<open>
  Output partitionings and the way network boundaries scale them
  (\<open>src/src/execution_plans/common.rs\<close>), the plan properties a boundary advertises, the head a
  producer stage must have (\<open>src/src/distributed_planner/network_boundary.rs\<close>), and the requests
  a boundary issues when it executes. Expressions, range descriptions and equivalence properties
  come from the query engine: they are type parameters, together with \<open>range_count\<close> (the number
  of partitions of a range description), \<open>range_scale\<close> (its \<open>scale\<close>, which may fail) and
  \<open>salt_lit\<close> (the literal expression of a salt).
\<close>

datatype ('x, 'r) partitioning =
    RoundRobinBatch nat
  | Hash "'x list" nat
  | UnknownPartitioning nat
  | RangePart 'r

fun part_count :: "('r \<Rightarrow> nat) \<Rightarrow> ('x, 'r) partitioning \<Rightarrow> nat" where
  "part_count range_count (RoundRobinBatch p) = p"
| "part_count range_count (Hash _ p) = p"
| "part_count range_count (UnknownPartitioning p) = p"
| "part_count range_count (RangePart r) = range_count r"

datatype 'e boundary_error =
    SaltNotHash
  | RangeScaleError 'e
  | LocalStageTasks nat
  | InvalidTaskContext nat nat
  | ZeroPartitionsPerTask
  | GroupOverflow nat nat
  | ConsumerTasksZero
  | NotRepartition
  | NotHashOrRange
  | NotBroadcast
  | WrongChildren nat
  | HeadError 'e

definition salted_partitioning ::
  "(nat \<Rightarrow> 'x) \<Rightarrow> ('x, 'r) partitioning \<Rightarrow> nat \<Rightarrow> nat \<Rightarrow> ('e boundary_error, ('x, 'r) partitioning) res" where
  "salted_partitioning salt_lit pt salt consumers =
     (case pt of
        Hash exprs _ \<Rightarrow> Inr (Hash (exprs @ [salt_lit salt]) consumers)
      | _ \<Rightarrow> Inl SaltNotHash)"

definition coalesce_partitioning ::
  "('r \<Rightarrow> nat) \<Rightarrow> ('x, 'r) partitioning \<Rightarrow> nat \<Rightarrow> ('x, 'r) partitioning" where
  "coalesce_partitioning range_count pt multiplier =
     (case pt of
        RoundRobinBatch p \<Rightarrow> RoundRobinBatch (p * multiplier)
      | Hash h p \<Rightarrow> Hash h (p * multiplier)
      | UnknownPartitioning p \<Rightarrow> UnknownPartitioning (p * multiplier)
      | RangePart r \<Rightarrow>
          if multiplier \<le> 1 then RangePart r
          else UnknownPartitioning (range_count r * multiplier))"

definition scale_shuffle_partitioning ::
  "('r \<Rightarrow> nat \<Rightarrow> ('e, 'r) res) \<Rightarrow> ('x, 'r) partitioning \<Rightarrow> nat \<Rightarrow>
     ('e boundary_error, ('x, 'r) partitioning) res" where
  "scale_shuffle_partitioning range_scale pt consumers =
     (case pt of
        RoundRobinBatch p \<Rightarrow> Inr (RoundRobinBatch (p * consumers))
      | Hash h p \<Rightarrow> Inr (Hash h (p * consumers))
      | UnknownPartitioning p \<Rightarrow> Inr (UnknownPartitioning (p * consumers))
      | RangePart r \<Rightarrow>
          (case range_scale r consumers of
             Inl e \<Rightarrow> Inl (RangeScaleError e)
           | Inr r' \<Rightarrow> Inr (RangePart r')))"

record ('x, 'r, 'q) plan_properties =
  eq_properties :: 'q
  partitioning :: "('x, 'r) partitioning"
  emission_incremental :: bool
  bounded :: bool

definition coalesce_partitioning_props ::
  "('r \<Rightarrow> nat) \<Rightarrow> ('x, 'r, 'q) plan_properties \<Rightarrow> nat \<Rightarrow> ('x, 'r, 'q) plan_properties" where
  "coalesce_partitioning_props range_count props multiplier =
     props\<lparr>partitioning := coalesce_partitioning range_count (partitioning props) multiplier\<rparr>"

datatype ('x, 'r) producer_head =
    HeadNone
  | HeadBroadcast nat
  | HeadRepartition "('x, 'r) partitioning" bool

text \<open>
  What \<open>execute\<close> of a boundary does: run the local plan, return an empty stream, or read from
  producer tasks, as one stream, interleaved, or merged by the output ordering. A request names
  the pooled partition range, the producer task, its partition, and the head the producer needs.
\<close>

record ('x, 'r) read_request =
  req_range :: "nat \<times> nat"
  req_task :: nat
  req_partition :: nat
  req_head :: "('x, 'r) producer_head"

datatype ('x, 'r) boundary_stream =
    LocalStream nat
  | EmptyStream
  | Single "('x, 'r) read_request"
  | SelectAll "('x, 'r) read_request list"
  | SortMerge "('x, 'r) read_request list"

fun stream_reads :: "('x, 'r) boundary_stream \<Rightarrow> (nat \<times> nat) list" where
  "stream_reads (LocalStream _) = []"
| "stream_reads EmptyStream = []"
| "stream_reads (Single r) = [(req_task r, req_partition r)]"
| "stream_reads (SelectAll rs) = map (\<lambda>r. (req_task r, req_partition r)) rs"
| "stream_reads (SortMerge rs) = map (\<lambda>r. (req_task r, req_partition r)) rs"

definition local_execute ::
  "('id, 'p, 'm) local_stage \<Rightarrow> nat \<Rightarrow> ('e boundary_error, ('x, 'r) boundary_stream) res" where
  "local_execute st p =
     (if 1 < ls_tasks st then Inl (LocalStageTasks (ls_tasks st)) else Inr (LocalStream p))"

section \<open>Lemmas\<close>

lemma coalesce_partitioning_count [simp]:
  "0 < m \<Longrightarrow> part_count rc (coalesce_partitioning rc pt m) = part_count rc pt * m"
  by (cases pt) (auto simp: coalesce_partitioning_def le_Suc_eq)

lemma scale_shuffle_count:
  assumes "scale_shuffle_partitioning rs pt n = Inr pt'"
  shows "part_count rc pt' =
    (case pt of RangePart r \<Rightarrow> (case rs r n of Inr r' \<Rightarrow> rc r' | Inl _ \<Rightarrow> 0) | _ \<Rightarrow> part_count rc pt * n)"
  using assms by (cases pt) (auto simp: scale_shuffle_partitioning_def split: sum.splits)

lemma salted_count: "salted_partitioning lit pt salt n = Inr pt' \<Longrightarrow> part_count rc pt' = n"
  by (cases pt) (auto simp: salted_partitioning_def)

end
