(* ===== verification/Exchange.thy ===== *)
theory Exchange
  imports Prelude
begin

text \<open>
  What every network boundary promises about the data it moves. A boundary reads, from consumer
  task \<open>t\<close> and output partition \<open>p\<close>, a list of (producer task, producer partition) pairs; over
  all consumer tasks and partitions these pairs are all the partitions of all producer tasks,
  each once. The lemmas of the locale turn that promise into statements on rows.
\<close>

locale exchange =
  fixes valid :: "'c \<Rightarrow> bool"
    and producers :: "'c \<Rightarrow> nat"
    and head_parts :: "'c \<Rightarrow> nat"
    and consumers :: "'c \<Rightarrow> nat"
    and out_parts :: "'c \<Rightarrow> nat"
    and reads :: "'c \<Rightarrow> nat \<Rightarrow> nat \<Rightarrow> ('e, (nat \<times> nat) list) res"
  assumes reads_ok:
      "valid c \<Longrightarrow> t < consumers c \<Longrightarrow> p < out_parts c \<Longrightarrow> \<exists>rs. reads c t p = Inr rs"
    and exactly_once:
      "valid c \<Longrightarrow>
         (\<Sum>t < consumers c. \<Sum>p < out_parts c. case reads c t p of Inr rs \<Rightarrow> mset rs | Inl _ \<Rightarrow> {#}) =
         (\<Sum>s < producers c. \<Sum>q < head_parts c. {#(s, q)#})"
begin

text \<open>The rows that consumer task \<open>t\<close> receives on partition \<open>p\<close>, as a multiset.\<close>

definition delivered :: "(nat \<Rightarrow> nat \<Rightarrow> 'row list) \<Rightarrow> 'c \<Rightarrow> nat \<Rightarrow> nat \<Rightarrow> 'row multiset" where
  "delivered rows c t p =
     (case reads c t p of
        Inr rs \<Rightarrow> mset (concat (map (\<lambda>(s, q). rows s q) rs))
      | Inl _ \<Rightarrow> {#})"

lemma delivered_image:
  "delivered rows c t p =
     \<Sum>\<^sub># (image_mset (\<lambda>(s, q). mset (rows s q))
           (case reads c t p of Inr rs \<Rightarrow> mset rs | Inl _ \<Rightarrow> {#}))"
proof -
  have "mset (concat (map (\<lambda>(s, q). rows s q) rs)) = \<Sum>\<^sub># (image_mset (\<lambda>(s, q). mset (rows s q)) (mset rs))"
    for rs by (induction rs) auto
  then show ?thesis
    by (simp add: delivered_def split: sum.split)
qed

lemma sum_mset_image_sum:
  "\<Sum>\<^sub># (image_mset f (\<Sum>i < n. g i)) = (\<Sum>i < (n::nat). \<Sum>\<^sub># (image_mset f (g i)))"
  by (induction n) auto

lemma no_row_lost:
  assumes "valid c"
  shows "(\<Sum>t < consumers c. \<Sum>p < out_parts c. delivered rows c t p) =
    (\<Sum>s < producers c. \<Sum>q < head_parts c. mset (rows s q))"
proof -
  have "(\<Sum>t < consumers c. \<Sum>p < out_parts c. delivered rows c t p) =
      \<Sum>\<^sub># (image_mset (\<lambda>(s, q). mset (rows s q))
        (\<Sum>t < consumers c. \<Sum>p < out_parts c. case reads c t p of Inr rs \<Rightarrow> mset rs | Inl _ \<Rightarrow> {#}))"
    by (simp only: sum_mset_image_sum delivered_image)
  also have "\<dots> = \<Sum>\<^sub># (image_mset (\<lambda>(s, q). mset (rows s q))
      (\<Sum>s < producers c. \<Sum>q < head_parts c. {#(s, q)#}))"
    using exactly_once [OF assms] by simp
  also have "\<dots> = (\<Sum>s < producers c. \<Sum>q < head_parts c. mset (rows s q))"
    by (simp add: sum_mset_image_sum)
  finally show ?thesis .
qed

lemma reads_in_range:
  assumes "valid c" "t < consumers c" "p < out_parts c" "reads c t p = Inr rs" "(s, q) \<in> set rs"
  shows "s < producers c \<and> q < head_parts c"
proof -
  have mem: "x \<in># (\<Sum>i < (n::nat). g i) \<longleftrightarrow> (\<exists>i < n. x \<in># g i)" for x :: "nat \<times> nat" and n g
    by (induction n) (auto simp: less_Suc_eq)
  have "(s, q) \<in># (\<Sum>t < consumers c. \<Sum>p < out_parts c.
      case reads c t p of Inr rs \<Rightarrow> mset rs | Inl _ \<Rightarrow> {#})"
    using assms unfolding mem by force
  then show ?thesis
    unfolding exactly_once [OF assms(1)] mem by auto
qed

end

text \<open>A broadcast: besides reading every virtual partition once, every consumer task sees every
  real partition of every producer once.\<close>

locale broadcast_exchange = exchange +
  fixes real_parts :: "'a \<Rightarrow> nat"
    and real_of :: "'a \<Rightarrow> nat \<Rightarrow> nat"
  assumes every_consumer:
    "valid c \<Longrightarrow> t < consumers c \<Longrightarrow>
       (\<Sum>p < out_parts c. case reads c t p of
          Inr rs \<Rightarrow> mset (map (\<lambda>(s, q). (s, real_of c q)) rs) | Inl _ \<Rightarrow> {#}) =
       (\<Sum>s < producers c. \<Sum>q < real_parts c. {#(s, q)#})"
begin

lemma consumer_sees_all:
  assumes "valid c" "t < consumers c"
  shows "(\<Sum>p < out_parts c. delivered (\<lambda>s q. rows s (real_of c q)) c t p) =
    (\<Sum>s < producers c. \<Sum>q < real_parts c. mset (rows s q))"
proof -
  have d: "delivered (\<lambda>s q. rows s (real_of c q)) c t p =
      \<Sum>\<^sub># (image_mset (\<lambda>(s, q). mset (rows s q))
        (case reads c t p of Inr rs \<Rightarrow> mset (map (\<lambda>(s, q). (s, real_of c q)) rs) | Inl _ \<Rightarrow> {#}))" for p
    unfolding delivered_image
    by (cases "reads c t p") (auto simp: multiset.map_comp comp_def case_prod_unfold)
  show ?thesis
    unfolding d sum_mset_image_sum [symmetric] every_consumer [OF assms]
    by (simp add: sum_mset_image_sum)
qed

end

section \<open>Sums over nested intervals\<close>

lemma sum_mset_flatten:
  "(\<Sum>t < C. \<Sum>p < P. f (t * P + p)) = (\<Sum>q < C * P. f q)" for f :: "nat \<Rightarrow> 'a::comm_monoid_add"
proof -
  have "(\<Sum>p < P. f (t * P + p)) = sum f {t * P..<t * P + P}" for t
    by (simp add: sum.atLeastLessThan_shift_0 [of f "t * P"] lessThan_atLeast0 comp_def)
  then show ?thesis
    by (simp only: sum.nat_group)
qed

lemma sum_lessThan_add:
  "(\<Sum>i < a + b. f i) = (\<Sum>i < a. f i) + (\<Sum>j < (b::nat). f (a + j))"
  for f :: "nat \<Rightarrow> 'a::comm_monoid_add"
  by (induction b) (simp_all add: add.assoc)

end
