(* ===== verification/NetworkShuffle.thy ===== *)
theory NetworkShuffle
  imports Partitioning Exchange
begin

text \<open>
  \<open>NetworkShuffleExec\<close> (\<open>src/src/execution_plans/network_shuffle.rs\<close>): a boundary below which
  every producer task repartitions its output for the consumer tasks above. In direct mode a
  consumer task reads its contiguous range of global partitions from every producer; in two-phase
  mode the producers hash with a salt into one bucket per consumer task. The input plan's
  properties, its downcast to a repartition, and the effect of several input tasks on the
  equivalence properties are parameters.
\<close>

datatype shuffle_mode = Direct | TwoPhase nat

definition producer_salt_default :: nat where
  "producer_salt_default = 0x517cc1b727220a95"

record ('x, 'r, 'q, 'st) network_shuffle =
  sh_properties :: "('x, 'r, 'q) plan_properties"
  sh_producer_partitioning :: "('x, 'r) partitioning"
  sh_input_stage :: 'st
  sh_pool :: nat
  sh_mode :: shuffle_mode

definition is_range :: "('x, 'r) partitioning \<Rightarrow> bool" where
  "is_range pt = (case pt of RangePart _ \<Rightarrow> True | _ \<Rightarrow> False)"

definition compute_properties ::
  "('q \<Rightarrow> 'q) \<Rightarrow> ('x, 'r, 'q) plan_properties \<Rightarrow> nat \<Rightarrow> ('x, 'r, 'q) plan_properties" where
  "compute_properties clear_constants props n =
     (let range = is_range (partitioning props)
      in if 1 < n \<or> range then
           props\<lparr>partitioning := (if range then UnknownPartitioning 1 else partitioning props),
                 eq_properties := (if 1 < n then clear_constants (eq_properties props)
                                   else eq_properties props)\<rparr>
         else props)"

definition shuffle_from_stage where
  "shuffle_from_stage clear_constants st props =
     \<lparr>sh_properties = compute_properties clear_constants props (stage_task_count st),
      sh_producer_partitioning = partitioning props,
      sh_input_stage = st,
      sh_pool = stage_task_count st,
      sh_mode = Direct\<rparr>"

definition to_two_phase_salted where
  "to_two_phase_salted sh =
     sh\<lparr>sh_properties := \<lparr>eq_properties = eq_properties (sh_properties sh),
                          partitioning = UnknownPartitioning (stage_task_count (sh_input_stage sh)),
                          emission_incremental = True, bounded = True\<rparr>,
        sh_mode := TwoPhase producer_salt_default\<rparr>"

definition shuffle_try_new where
  "shuffle_try_new clear_constants as_repartition plan_props nil_id no_metrics input tasks =
     (case as_repartition input of
        None \<Rightarrow> Inl NotRepartition
      | Some pt \<Rightarrow>
          if case pt of Hash _ _ \<Rightarrow> False | RangePart _ \<Rightarrow> False | _ \<Rightarrow> True
          then Inl NotHashOrRange
          else Inr (shuffle_from_stage clear_constants
                (Local \<lparr>ls_query_id = nil_id, ls_num = 0, ls_plan = input, ls_tasks = tasks,
                        ls_metrics_set = no_metrics\<rparr>)
                (plan_props input)))"

definition shuffle_with_input_stage where
  "shuffle_with_input_stage clear_constants sh st =
     sh\<lparr>sh_pool := stage_task_count st,
        sh_properties := compute_properties clear_constants (sh_properties sh) (stage_task_count st),
        sh_input_stage := st\<rparr>"

definition shuffle_producer_head where
  "shuffle_producer_head range_scale salt_lit ordering_of sh consumers =
     bind_res
       (case sh_mode sh of
          Direct \<Rightarrow> scale_shuffle_partitioning range_scale (sh_producer_partitioning sh) consumers
        | TwoPhase salt \<Rightarrow> salted_partitioning salt_lit (sh_producer_partitioning sh) salt consumers)
       (\<lambda>pt. Inr (HeadRepartition pt (ordering_of (eq_properties (sh_properties sh)) \<noteq> None)))"

definition shuffle_with_new_children where
  "shuffle_with_new_children sh children =
     (case sh_input_stage sh of
        Local l \<Rightarrow>
          (case children of
             [c] \<Rightarrow> Inr (sh\<lparr>sh_input_stage := Local (l\<lparr>ls_plan := c\<rparr>)\<rparr>)
           | _ \<Rightarrow> Inl (WrongChildren (length children)))
      | Remote _ \<Rightarrow>
          if children \<noteq> [] then Inl (WrongChildren (length children)) else Inr sh)"

text \<open>The streams of one output partition: interleaved, or merged when an ordering is promised.\<close>

definition shuffle_merge :: "'o list option \<Rightarrow> ('x, 'r) read_request list \<Rightarrow> ('x, 'r) boundary_stream" where
  "shuffle_merge ord streams =
     (case streams of
        [] \<Rightarrow> EmptyStream
      | [s] \<Rightarrow> Single s
      | _ \<Rightarrow> (case ord of
                Some (_ # _) \<Rightarrow> SortMerge streams
              | _ \<Rightarrow> SelectAll streams))"

definition shuffle_execute where
  "shuffle_execute range_count range_scale salt_lit ordering_of sh ctx p =
     (case sh_input_stage sh of
        Local l \<Rightarrow> local_execute l p
      | Remote r \<Rightarrow>
          (let producer_task_count = length (rs_workers r);
               head = shuffle_producer_head range_scale salt_lit ordering_of sh (task_count ctx);
               streams =
                 (if sh_mode sh = Direct then
                    (let n = part_count range_count (partitioning (sh_properties sh));
                         off = task_index ctx * n
                     in map_res (\<lambda>i. bind_res head (\<lambda>h.
                          Inr \<lparr>req_range = (off, off + n), req_task = i, req_partition = off + p,
                               req_head = h\<rparr>)) [0..<producer_task_count])
                  else
                    map_res (\<lambda>i. bind_res head (\<lambda>h.
                      Inr \<lparr>req_range = (task_index ctx, task_index ctx + 1), req_task = i,
                           req_partition = task_index ctx, req_head = h\<rparr>)) [p])
           in bind_res streams (\<lambda>ss.
                Inr (shuffle_merge (ordering_of (eq_properties (sh_properties sh))) ss))))"

section \<open>Invariant\<close>

text \<open>
  The advertised partition count: the producers' own count in direct mode (one per consumer task
  for a range), and one partition per producer task in two-phase mode.
\<close>

definition shuffle_inv where
  "shuffle_inv range_count sh \<longleftrightarrow>
     part_count range_count (partitioning (sh_properties sh)) =
       (case sh_mode sh of
          Direct \<Rightarrow>
            (if is_range (sh_producer_partitioning sh) then 1
             else part_count range_count (sh_producer_partitioning sh))
        | TwoPhase _ \<Rightarrow> stage_task_count (sh_input_stage sh)) \<and>
     \<not> is_range (partitioning (sh_properties sh)) \<and>
     sh_pool sh = stage_task_count (sh_input_stage sh)"

lemma compute_properties_not_range:
  "\<not> is_range (partitioning (compute_properties cc props n))"
  by (auto simp: compute_properties_def Let_def is_range_def)

lemma compute_properties_count:
  "part_count rc (partitioning (compute_properties cc props n)) =
     (if is_range (partitioning props) then 1 else part_count rc (partitioning props))"
  by (simp add: compute_properties_def Let_def)

lemma shuffle_from_stage_inv [inv_intros]: "shuffle_inv rc (shuffle_from_stage cc st props)"
  by (simp add: shuffle_inv_def shuffle_from_stage_def compute_properties_count
      compute_properties_not_range)

lemma shuffle_try_new_inv [inv_intros]:
  "shuffle_try_new cc as_rep pp nid nm input tasks = Inr sh \<Longrightarrow> shuffle_inv rc sh"
  by (auto simp: shuffle_try_new_def intro!: inv_intros split: option.splits if_splits)

lemma to_two_phase_inv [inv_intros]: "shuffle_inv rc sh \<Longrightarrow> shuffle_inv rc (to_two_phase_salted sh)"
  by (simp add: shuffle_inv_def to_two_phase_salted_def is_range_def)

lemma shuffle_with_input_stage_inv [inv_intros]:
  assumes "shuffle_inv rc sh"
    "sh_mode sh = Direct \<or> stage_task_count st = stage_task_count (sh_input_stage sh)"
  shows "shuffle_inv rc (shuffle_with_input_stage cc sh st)"
  using assms
  by (auto simp: shuffle_inv_def shuffle_with_input_stage_def compute_properties_count
      compute_properties_not_range split: shuffle_mode.splits)

lemma shuffle_with_new_children_inv [inv_intros]:
  "shuffle_inv rc sh \<Longrightarrow> shuffle_with_new_children sh cs = Inr sh' \<Longrightarrow> shuffle_inv rc sh'"
  by (auto simp: shuffle_inv_def shuffle_with_new_children_def
      split: stage.splits list.splits if_splits shuffle_mode.splits)

text \<open>The shuffle nodes the planner can build. A two-phase shuffle keeps its producer tasks.\<close>

inductive shuffle_reachable for clear_constants as_repartition plan_props nil_id no_metrics where
  new: "shuffle_try_new clear_constants as_repartition plan_props nil_id no_metrics input tasks =
       (Inr sh :: (unit boundary_error, _) res) \<Longrightarrow>
     shuffle_reachable clear_constants as_repartition plan_props nil_id no_metrics sh"
| input_stage: "shuffle_reachable clear_constants as_repartition plan_props nil_id no_metrics sh \<Longrightarrow>
     sh_mode sh = Direct \<or> stage_task_count st = stage_task_count (sh_input_stage sh) \<Longrightarrow>
     shuffle_reachable clear_constants as_repartition plan_props nil_id no_metrics
       (shuffle_with_input_stage clear_constants sh st)"
| new_children: "shuffle_reachable clear_constants as_repartition plan_props nil_id no_metrics sh \<Longrightarrow>
     shuffle_with_new_children sh cs = (Inr sh' :: (unit boundary_error, _) res) \<Longrightarrow>
     shuffle_reachable clear_constants as_repartition plan_props nil_id no_metrics sh'"
| two_phase: "shuffle_reachable clear_constants as_repartition plan_props nil_id no_metrics sh \<Longrightarrow>
     shuffle_reachable clear_constants as_repartition plan_props nil_id no_metrics (to_two_phase_salted sh)"

section \<open>The exchange\<close>

fun is_remote :: "('id, 'p, 'm, 'url, 's, 'e) stage \<Rightarrow> bool" where
  "is_remote (Local _) = False"
| "is_remote (Remote _) = True"

text \<open>A shuffle ready to execute in \<open>consumers\<close> tasks: its producers are remote and its head can
  be built.\<close>

definition shuffle_valid where
  "shuffle_valid range_count range_scale cfg \<longleftrightarrow>
     (let (sh, consumers) = cfg
      in is_remote (sh_input_stage sh) \<and> shuffle_inv range_count sh \<and>
         (case sh_mode sh of
            Direct \<Rightarrow>
              (case sh_producer_partitioning sh of
                 RangePart r \<Rightarrow>
                   (case range_scale r consumers of
                      Inl _ \<Rightarrow> False
                    | Inr r' \<Rightarrow> range_count r' = consumers)
               | _ \<Rightarrow> True)
          | TwoPhase _ \<Rightarrow> (case sh_producer_partitioning sh of Hash _ _ \<Rightarrow> True | _ \<Rightarrow> False)))"

definition shuffle_producers where
  "shuffle_producers cfg = stage_task_count (sh_input_stage (fst cfg))"

definition shuffle_head_parts where
  "shuffle_head_parts range_count range_scale salt_lit ordering_of cfg =
     (case shuffle_producer_head range_scale salt_lit ordering_of (fst cfg) (snd cfg) of
        Inr (HeadRepartition pt _) \<Rightarrow> part_count range_count pt
      | _ \<Rightarrow> 0)"

definition shuffle_out_parts where
  "shuffle_out_parts range_count cfg =
     part_count range_count (partitioning (sh_properties (fst cfg)))"

definition shuffle_reads where
  "shuffle_reads range_count range_scale salt_lit ordering_of cfg t p =
     (case shuffle_execute range_count range_scale salt_lit ordering_of (fst cfg)
             \<lparr>task_index = t, task_count = snd cfg\<rparr> p of
        Inl e \<Rightarrow> Inl e
      | Inr s \<Rightarrow> Inr (stream_reads s))"

lemma stream_reads_merge [simp]:
  "stream_reads (shuffle_merge ord ss) = map (\<lambda>r. (req_task r, req_partition r)) ss"
  by (auto simp: shuffle_merge_def split: list.splits option.splits)

lemma map_res_Inr_map [simp]: "map_res (\<lambda>x. Inr (f x)) xs = Inr (map f xs)"
  by (induction xs) auto

lemma shuffle_valid_head:
  assumes "shuffle_valid rc rs (sh, C)"
  shows "\<exists>pt b. shuffle_producer_head rs lit ord sh C = Inr (HeadRepartition pt b) \<and>
    part_count rc pt = (if sh_mode sh = Direct then C * shuffle_out_parts rc (sh, C) else C)"
proof (cases "sh_mode sh")
  case Direct
  then show ?thesis
    using assms
    by (cases "sh_producer_partitioning sh")
       (auto simp: shuffle_valid_def shuffle_inv_def shuffle_producer_head_def shuffle_out_parts_def
          scale_shuffle_partitioning_def is_range_def split: sum.splits)
next
  case (TwoPhase salt)
  then show ?thesis
    using assms
    by (cases "sh_producer_partitioning sh")
       (auto simp: shuffle_valid_def shuffle_producer_head_def salted_partitioning_def)
qed

lemma shuffle_reads_eq:
  assumes "shuffle_valid rc rs (sh, C)"
  shows "shuffle_reads rc rs lit ord (sh, C) t p =
    Inr (if sh_mode sh = Direct
         then map (\<lambda>i. (i, t * shuffle_out_parts rc (sh, C) + p)) [0..<shuffle_producers (sh, C)]
         else [(p, t)])"
proof -
  obtain pt b where "shuffle_producer_head rs lit ord sh C = Inr (HeadRepartition pt b)"
    using shuffle_valid_head [OF assms] by blast
  moreover obtain r where "sh_input_stage sh = Remote r"
    using assms by (cases "sh_input_stage sh") (auto simp: shuffle_valid_def)
  ultimately show ?thesis
    by (simp add: shuffle_reads_def shuffle_execute_def shuffle_producers_def shuffle_out_parts_def
        Let_def comp_def)
qed

lemma shuffle_exactly_once:
  assumes "shuffle_valid rc rs (sh, C)"
  shows "(\<Sum>t < C. \<Sum>p < shuffle_out_parts rc (sh, C).
      case shuffle_reads rc rs lit ord (sh, C) t p of Inr rs \<Rightarrow> mset rs | Inl _ \<Rightarrow> {#}) =
    (\<Sum>s < shuffle_producers (sh, C). \<Sum>q < shuffle_head_parts rc rs lit ord (sh, C). {#(s, q)#})"
proof -
  let ?P = "shuffle_out_parts rc (sh, C)" and ?N = "shuffle_producers (sh, C)"
  obtain pt b where h: "shuffle_producer_head rs lit ord sh C = Inr (HeadRepartition pt b)"
    "part_count rc pt = (if sh_mode sh = Direct then C * ?P else C)"
    using shuffle_valid_head [OF assms] by blast
  have heads: "shuffle_head_parts rc rs lit ord (sh, C) = (if sh_mode sh = Direct then C * ?P else C)"
    using h by (simp add: shuffle_head_parts_def)
  have range: "mset (map f [0..<n]) = (\<Sum>i < n. {#f i#})" for f :: "nat \<Rightarrow> nat \<times> nat" and n
    by (induction n) auto
  show ?thesis
  proof (cases "sh_mode sh = Direct")
    case True
    have "(\<Sum>t < C. \<Sum>p < ?P. \<Sum>i < ?N. {#(i, t * ?P + p)#}) = (\<Sum>q < C * ?P. \<Sum>i < ?N. {#(i, q)#})"
      by (rule sum_mset_flatten)
    also have "\<dots> = (\<Sum>i < ?N. \<Sum>q < C * ?P. {#(i, q)#})"
      by (rule sum.swap)
    finally show ?thesis
      using True heads by (simp add: shuffle_reads_eq [OF assms] range del: mset_map)
  next
    case False
    then have "?P = ?N"
      using assms
      by (auto simp: shuffle_valid_def shuffle_inv_def shuffle_out_parts_def shuffle_producers_def
          split: shuffle_mode.splits)
    then show ?thesis
      using False heads by (simp add: shuffle_reads_eq [OF assms]) (rule sum.swap)
  qed
qed

interpretation shuffle_exchange: exchange
  "shuffle_valid rc rs" shuffle_producers "shuffle_head_parts rc rs lit ord" snd
  "shuffle_out_parts rc" "shuffle_reads rc rs lit ord"
  for rc rs lit ord
proof (unfold_locales, goal_cases)
  case (1 c t p)
  then show ?case
    by (cases c) (simp add: shuffle_reads_eq)
next
  case (2 c)
  then show ?case
    by (cases c) (simp add: shuffle_exactly_once)
qed

section \<open>Properties\<close>

text \<open>C3. A shuffle that is ready to execute, in either mode, reads every head partition of
  every producer task exactly once over all its consumer tasks and output partitions: the rows
  delivered to the consumers are the rows the producers emit, none lost and none repeated.\<close>

theorem shuffle_delivers_every_row:
  assumes "shuffle_valid rc rs (sh, C)"
  shows "(\<Sum>t < C. \<Sum>p < shuffle_out_parts rc (sh, C).
      case shuffle_reads rc rs lit ord (sh, C) t p of
        Inr ps \<Rightarrow> mset (concat (map (\<lambda>(s, q). rows s q) ps))
      | Inl _ \<Rightarrow> {#}) =
    (\<Sum>s < shuffle_producers (sh, C). \<Sum>q < shuffle_head_parts rc rs lit ord (sh, C). mset (rows s q))"
  using shuffle_exchange.no_row_lost [OF assms, of lit ord rows]
  unfolding shuffle_exchange.delivered_def by simp

theorem shuffle_delivers_every_row_witness:
  "(\<Sum>t < 3. \<Sum>p < 2.
      case shuffle_reads (\<lambda>_. 0) (\<lambda>(_::unit) _. Inl ()) (\<lambda>s. s) (\<lambda>_. None :: nat list option)
         (shuffle_from_stage (\<lambda>q. q)
           (Remote \<lparr>rs_query_id = 0::nat, rs_num = 1, rs_workers = [10, 11::nat],
             rs_runtime_stats = None :: unit option, rs_dynamic_filter_anchors = [] :: unit list\<rparr>
            :: (nat, unit, unit, nat, unit, unit) stage)
           \<lparr>eq_properties = (), partitioning = Hash [0::nat] 2, emission_incremental = True,
             bounded = True\<rparr>, 3) t p of
        Inr ps \<Rightarrow> mset (concat (map (\<lambda>(s, q). [100 * s + q]) ps))
      | Inl _ \<Rightarrow> {#}) = {#0, 1, 2, 3, 4, 5, 100, 101, 102, 103, 104, 105#}"
proof -
  let ?sh = "shuffle_from_stage (\<lambda>q. q)
      (Remote \<lparr>rs_query_id = 0::nat, rs_num = 1, rs_workers = [10, 11::nat],
        rs_runtime_stats = None :: unit option, rs_dynamic_filter_anchors = [] :: unit list\<rparr>
       :: (nat, unit, unit, nat, unit, unit) stage)
      \<lparr>eq_properties = (), partitioning = Hash [0::nat] 2, emission_incremental = True, bounded = True\<rparr>"
  have v: "shuffle_valid (\<lambda>_. 0) (\<lambda>(_::unit) _. Inl ()) (?sh, 3)"
    unfolding shuffle_valid_def
    by (simp add: shuffle_from_stage_inv) (simp add: shuffle_from_stage_def)
  have n: "shuffle_out_parts (\<lambda>_. 0) (?sh, 3) = 2" "shuffle_producers (?sh, 3::nat) = 2"
    "shuffle_head_parts (\<lambda>_. 0) (\<lambda>(_::unit) _. Inl ()) (\<lambda>s. s) (\<lambda>_. None :: nat list option) (?sh, 3) = 6"
    by (simp_all add: shuffle_out_parts_def shuffle_producers_def shuffle_head_parts_def
        shuffle_producer_head_def shuffle_from_stage_def compute_properties_def is_range_def
        scale_shuffle_partitioning_def)
  have "(\<Sum>s < 2. \<Sum>q < 6. mset [100 * s + q]) =
      {#0, 1, 2, 3, 4, 5, 100, 101, 102, 103, 104, 105::nat#}"
    by (simp add: eval_nat_numeral)
  then show ?thesis
    using shuffle_delivers_every_row [OF v, where lit = "\<lambda>s. s" and ord = "\<lambda>_. None :: nat list option"
        and rows = "\<lambda>s q. [100 * s + q]"]
    unfolding n by simp
qed

text \<open>C12. Rows of the same head partition meet: in direct mode, equal partitions of any two
  producer tasks are read by the same consumer task on the same output partition, so rows with
  equal keys stay co-located.\<close>

theorem shuffle_colocates:
  assumes "shuffle_valid rc rs (sh, C)" "sh_mode sh = Direct"
    "p < shuffle_out_parts rc (sh, C)" "p' < shuffle_out_parts rc (sh, C)"
    "shuffle_reads rc rs lit ord (sh, C) t p = Inr ps" "(s, q) \<in> set ps"
    "shuffle_reads rc rs lit ord (sh, C) t' p' = Inr ps'" "(s', q) \<in> set ps'"
  shows "t = t' \<and> p = p'"
proof -
  let ?P = "shuffle_out_parts rc (sh, C)"
  have q: "q = t * ?P + p" "q = t' * ?P + p'"
    using assms by (auto simp: shuffle_reads_eq)
  have "(a * ?P + b) div ?P = a" "(a * ?P + b) mod ?P = b" if "b < ?P" for a b
    using that by simp_all
  then show ?thesis
    using q assms(3,4) by metis
qed

text \<open>Every shuffle the planner can reach advertises as many partitions as its producers
  provide for it.\<close>

theorem shuffle_reachable_inv:
  assumes "shuffle_reachable cc as_rep pp nid nm sh"
  shows "shuffle_inv rc sh"
  using assms by induction (auto intro: inv_intros)

theorem shuffle_reachable_inv_witness:
  "shuffle_inv (\<lambda>_::unit. 0)
     (to_two_phase_salted (shuffle_from_stage (\<lambda>q. q)
        (Local \<lparr>ls_query_id = 0, ls_num = 0, ls_plan = 7, ls_tasks = 4, ls_metrics_set = ()\<rparr>
         :: (nat, nat, unit, nat, unit, unit) stage)
        \<lparr>eq_properties = (), partitioning = Hash [0::nat] 2, emission_incremental = True,
          bounded = True\<rparr>))"
proof (rule shuffle_reachable_inv [where cc = "\<lambda>q. q" and as_rep = "\<lambda>_. Some (Hash [0] 2)"
      and pp = "\<lambda>_. \<lparr>eq_properties = (), partitioning = Hash [0] 2, emission_incremental = True,
          bounded = True\<rparr>" and nid = 0 and nm = "()"], rule shuffle_reachable.two_phase,
    rule shuffle_reachable.new)
  show "shuffle_try_new (\<lambda>q. q) (\<lambda>_. Some (Hash [0] 2)) (\<lambda>_. \<lparr>eq_properties = (),
      partitioning = Hash [0] 2, emission_incremental = True, bounded = True\<rparr>) 0 () 7 4 =
    (Inr (shuffle_from_stage (\<lambda>q. q)
      (Local \<lparr>ls_query_id = 0, ls_num = 0, ls_plan = 7, ls_tasks = 4, ls_metrics_set = ()\<rparr>
       :: (nat, nat, unit, nat, unit, unit) stage)
      \<lparr>eq_properties = (), partitioning = Hash [0::nat] 2, emission_incremental = True,
        bounded = True\<rparr>) :: (unit boundary_error, _) res)"
    by (simp add: shuffle_try_new_def)
qed

theorem shuffle_colocates_witness:
  "shuffle_reads (\<lambda>_. 0) (\<lambda>(_::unit) _. Inl ()) (\<lambda>s. s) (\<lambda>_. None :: nat list option)
     (shuffle_from_stage (\<lambda>q. q)
      (Remote \<lparr>rs_query_id = 0::nat, rs_num = 1, rs_workers = [10, 11::nat],
        rs_runtime_stats = None :: unit option, rs_dynamic_filter_anchors = [] :: unit list\<rparr>
       :: (nat, unit, unit, nat, unit, unit) stage)
      \<lparr>eq_properties = (), partitioning = Hash [0::nat] 2, emission_incremental = True,
        bounded = True\<rparr>, 3) 1 0 = Inr [(0, 2), (1, 2)] \<and>
   (1::nat) = 1 \<and> (0::nat) = 0"
proof -
  let ?sh = "shuffle_from_stage (\<lambda>q. q)
      (Remote \<lparr>rs_query_id = 0::nat, rs_num = 1, rs_workers = [10, 11::nat],
        rs_runtime_stats = None :: unit option, rs_dynamic_filter_anchors = [] :: unit list\<rparr>
       :: (nat, unit, unit, nat, unit, unit) stage)
      \<lparr>eq_properties = (), partitioning = Hash [0::nat] 2, emission_incremental = True, bounded = True\<rparr>"
  have v: "shuffle_valid (\<lambda>_. 0) (\<lambda>(_::unit) _. Inl ()) (?sh, 3)"
    unfolding shuffle_valid_def
    by (simp add: shuffle_from_stage_inv) (simp add: shuffle_from_stage_def)
  have r: "shuffle_reads (\<lambda>_. 0) (\<lambda>(_::unit) _. Inl ()) (\<lambda>s. s) (\<lambda>_. None :: nat list option) (?sh, 3) 1 0 =
      Inr [(0, 2), (1, 2)]"
    unfolding shuffle_reads_eq [OF v]
    by (simp add: shuffle_out_parts_def shuffle_producers_def shuffle_from_stage_def
        compute_properties_def is_range_def)
  have "(1::nat) = 1 \<and> (0::nat) = 0"
    by (rule shuffle_colocates [OF v _ _ _ r _ r, where s = 0 and s' = 1 and q = 2])
       (simp_all add: shuffle_from_stage_def shuffle_out_parts_def compute_properties_def is_range_def)
  then show ?thesis
    using r by blast
qed

end
