(* ===== verification/NetworkCoalesce.thy ===== *)
theory NetworkCoalesce
  imports Partitioning Exchange
begin

text \<open>
  \<open>NetworkCoalesceExec\<close> (\<open>src/src/execution_plans/network_coalesce.rs\<close>): every consumer task
  concatenates the partitions of a contiguous group of producer tasks. Groups differ by at most
  one task; output partitions are sized for the largest group, and the surplus partitions of a
  smaller group are empty. Plans, their properties, their fetch limits and projections are
  parameters.
\<close>

record task_group =
  start_task :: nat
  group_len :: nat
  max_len :: nat

definition task_group :: "nat \<Rightarrow> nat \<Rightarrow> nat \<Rightarrow> task_group" where
  "task_group input_tasks idx tasks =
     (if tasks = 0 then \<lparr>start_task = 0, group_len = 0, max_len = 0\<rparr>
      else let base = input_tasks div tasks; extra = input_tasks mod tasks
           in \<lparr>start_task = idx * base + min idx extra,
               group_len = base + (if idx < extra then 1 else 0),
               max_len = base + (if 0 < extra then 1 else 0)\<rparr>)"

record ('x, 'r, 'q, 'st) network_coalesce =
  co_properties :: "('x, 'r, 'q) plan_properties"
  co_input_stage :: 'st
  co_pool :: nat
  co_consumer_tasks :: nat

definition max_input_task_count :: "nat \<Rightarrow> nat \<Rightarrow> nat" where
  "max_input_task_count input_tasks consumers = max (div_ceil input_tasks consumers) 1"

definition coalesce_try_from_stage where
  "coalesce_try_from_stage range_count st props consumers =
     \<lparr>co_properties = coalesce_partitioning_props range_count props
                       (max_input_task_count (stage_task_count st) consumers),
      co_input_stage = st,
      co_pool = stage_task_count st,
      co_consumer_tasks = consumers\<rparr>"

definition coalesce_try_new where
  "coalesce_try_new range_count plan_props nil_id no_metrics input tasks consumers =
     (if consumers = 0 then Inl ConsumerTasksZero
      else Inr (coalesce_try_from_stage range_count
             (Local \<lparr>ls_query_id = nil_id, ls_num = 0, ls_plan = input, ls_tasks = tasks,
                     ls_metrics_set = no_metrics\<rparr>)
             (plan_props input) consumers))"

definition coalesce_with_input_stage where
  "coalesce_with_input_stage range_count plan_props co st =
     (let n = max_input_task_count (stage_task_count st) (co_consumer_tasks co);
          props =
            (case st of
               Local l \<Rightarrow> coalesce_partitioning_props range_count (plan_props (ls_plan l)) n
             | Remote _ \<Rightarrow>
                 (let prev = max_input_task_count (stage_task_count (co_input_stage co))
                               (co_consumer_tasks co);
                      multiplier = max (n div prev) 1
                  in coalesce_partitioning_props range_count (co_properties co) multiplier))
      in co\<lparr>co_properties := props, co_pool := stage_task_count st, co_input_stage := st\<rparr>)"

definition coalesce_producer_head :: "('x, 'r) producer_head" where
  "coalesce_producer_head = HeadNone"

definition coalesce_with_new_children where
  "coalesce_with_new_children range_count plan_props co children =
     (case co_input_stage co of
        Local l \<Rightarrow>
          (case children of
             [c] \<Rightarrow>
               Inr (co\<lparr>co_properties := coalesce_partitioning_props range_count (plan_props c)
                         (max_input_task_count (ls_tasks l) (co_consumer_tasks co)),
                       co_input_stage := Local (l\<lparr>ls_plan := c\<rparr>)\<rparr>)
           | _ \<Rightarrow> Inl (WrongChildren (length children)))
      | Remote _ \<Rightarrow>
          if children \<noteq> [] then Inl (WrongChildren (length children)) else Inr co)"

definition coalesce_execute ::
  "('r \<Rightarrow> nat) \<Rightarrow> ('x, 'r, 'q, ('id, 'p, 'm, 'url, 's, 'w) stage) network_coalesce \<Rightarrow> task_ctx \<Rightarrow> nat \<Rightarrow>
     (unit boundary_error, ('x, 'r) boundary_stream) res" where
  "coalesce_execute range_count co ctx p =
     (case co_input_stage co of
        Local l \<Rightarrow> local_execute l p
      | Remote r \<Rightarrow>
          if task_count ctx \<le> task_index ctx
          then Inl (InvalidTaskContext (task_index ctx) (task_count ctx))
          else
            (let input_tasks = stage_task_count (co_input_stage co);
                 out_partitions = part_count range_count (partitioning (co_properties co));
                 partitions_per_task =
                   out_partitions div max_input_task_count input_tasks (task_count ctx)
             in if partitions_per_task = 0 then Inl ZeroPartitionsPerTask
                else
                  (let group = task_group input_tasks (task_index ctx) (task_count ctx);
                       offset = p div partitions_per_task;
                       target_partition = p mod partitions_per_task
                   in if group_len group \<le> offset then Inr EmptyStream
                      else if max_len group \<le> offset then Inl (GroupOverflow offset (max_len group))
                      else Inr (Single \<lparr>req_range = (0, partitions_per_task),
                                        req_task = start_task group + offset,
                                        req_partition = target_partition,
                                        req_head = coalesce_producer_head\<rparr>))))"

text \<open>Pushing a fetch limit into the input plan, through a projection.\<close>

definition apply_fetch_through_projection ::
  "('p \<Rightarrow> 'p option) \<Rightarrow> ('p \<Rightarrow> nat option) \<Rightarrow> ('p \<Rightarrow> nat \<Rightarrow> 'p option) \<Rightarrow> ('p \<Rightarrow> nat \<Rightarrow> 'p) \<Rightarrow>
     ('p \<Rightarrow> 'p list \<Rightarrow> ('e, 'p) res) \<Rightarrow> 'p \<Rightarrow> nat \<Rightarrow> ('e, 'p) res" where
  "apply_fetch_through_projection projection_input fetch_of with_fetch local_limit replace_children
     plan n =
     (case projection_input plan of
        Some input \<Rightarrow>
          if (case fetch_of input of Some k \<Rightarrow> k \<le> n | None \<Rightarrow> False) then Inr plan
          else replace_children plan
                 [case with_fetch input n of Some q \<Rightarrow> q | None \<Rightarrow> local_limit input n]
      | None \<Rightarrow>
          if (case fetch_of plan of Some k \<Rightarrow> k \<le> n | None \<Rightarrow> False) then Inr plan
          else Inr (case with_fetch plan n of Some q \<Rightarrow> q | None \<Rightarrow> local_limit plan n))"

definition with_fetch_on_input_stage where
  "with_fetch_on_input_stage projection_input fetch_of with_fetch local_limit replace_children
     no_metrics co n =
     (case co_input_stage co of
        Remote _ \<Rightarrow> Inr co
      | Local l \<Rightarrow>
          bind_res (apply_fetch_through_projection projection_input fetch_of with_fetch local_limit
              replace_children (ls_plan l) n) (\<lambda>plan.
            Inr (co\<lparr>co_input_stage := Local (l\<lparr>ls_plan := plan, ls_metrics_set := no_metrics\<rparr>)\<rparr>)))"

section \<open>Task groups\<close>

lemma max_input_task_count_pos [simp]: "0 < max_input_task_count n c"
  by (simp add: max_input_task_count_def)

lemma task_group_start_Suc:
  "0 < C \<Longrightarrow> start_task (task_group I (Suc t) C) =
     start_task (task_group I t C) + group_len (task_group I t C)"
  by (auto simp: task_group_def Let_def)

lemma task_group_start_0: "start_task (task_group I 0 C) = 0"
  by (simp add: task_group_def Let_def)

lemma task_group_start_last: "0 < C \<Longrightarrow> start_task (task_group I C C) = I"
  by (simp add: task_group_def Let_def min_absorb2 less_imp_le)

lemma task_group_len_le: "group_len (task_group I t C) \<le> max_len (task_group I t C)"
  by (simp add: task_group_def Let_def)

lemma task_group_max_len: "0 < C \<Longrightarrow> max_len (task_group I t C) \<le> max_input_task_count I C"
  by (simp add: task_group_def Let_def max_input_task_count_def div_ceil_def)

lemma task_group_sum:
  fixes f :: "nat \<Rightarrow> 'a::comm_monoid_add"
  assumes "0 < C"
  shows "(\<Sum>t < C. \<Sum>o' < group_len (task_group I t C). f (start_task (task_group I t C) + o')) =
    (\<Sum>i < I. f i)"
proof -
  have "(\<Sum>t < c. \<Sum>o' < group_len (task_group I t C). f (start_task (task_group I t C) + o')) =
      (\<Sum>i < start_task (task_group I c C). f i)" for c
  proof (induction c)
    case (Suc c)
    show ?case
      using Suc by (simp add: task_group_start_Suc [OF assms] sum_lessThan_add)
  qed (simp add: task_group_start_0)
  from this [of C] show ?thesis
    by (simp add: task_group_start_last [OF assms])
qed

section \<open>The exchange\<close>

text \<open>The advertised partitions are those of one input task, once per task of the largest group.\<close>

definition coalesce_inv where
  "coalesce_inv range_count input_parts co \<longleftrightarrow>
     0 < co_consumer_tasks co \<and>
     part_count range_count (partitioning (co_properties co)) =
       input_parts * max_input_task_count (stage_task_count (co_input_stage co)) (co_consumer_tasks co) \<and>
     co_pool co = stage_task_count (co_input_stage co)"

lemma coalesce_props_count [simp]:
  "0 < m \<Longrightarrow> part_count rc (partitioning (coalesce_partitioning_props rc props m)) =
     part_count rc (partitioning props) * m"
  by (simp add: coalesce_partitioning_props_def)

lemma coalesce_try_from_stage_inv:
  "0 < consumers \<Longrightarrow>
     coalesce_inv rc (part_count rc (partitioning props)) (coalesce_try_from_stage rc st props consumers)"
  by (simp add: coalesce_inv_def coalesce_try_from_stage_def)

lemma coalesce_try_new_inv:
  "coalesce_try_new rc pp nid nm input tasks consumers = Inr co \<Longrightarrow>
     coalesce_inv rc (part_count rc (partitioning (pp input))) co"
  by (auto simp: coalesce_try_new_def coalesce_try_from_stage_inv split: if_splits)

lemma coalesce_with_local_stage_inv:
  "coalesce_inv rc n co \<Longrightarrow>
     coalesce_inv rc (part_count rc (partitioning (pp (ls_plan l))))
       (coalesce_with_input_stage rc pp co (Local l))"
  by (simp add: coalesce_inv_def coalesce_with_input_stage_def Let_def)

lemma coalesce_with_remote_stage_inv:
  "coalesce_inv rc n co \<Longrightarrow> length (rs_workers r) = stage_task_count (co_input_stage co) \<Longrightarrow>
     coalesce_inv rc n (coalesce_with_input_stage rc pp co (Remote r))"
  by (simp add: coalesce_inv_def coalesce_with_input_stage_def Let_def)

lemma coalesce_with_new_children_inv:
  "coalesce_inv rc n co \<Longrightarrow> coalesce_with_new_children rc pp co cs = Inr co' \<Longrightarrow>
     \<exists>m. coalesce_inv rc m co'"
  by (auto simp: coalesce_inv_def coalesce_with_new_children_def
      split: stage.splits list.splits if_splits)

definition coalesce_valid where
  "coalesce_valid range_count cfg \<longleftrightarrow>
     (let (co, input_parts) = cfg
      in (case co_input_stage co of Remote _ \<Rightarrow> True | Local _ \<Rightarrow> False) \<and>
         0 < input_parts \<and> coalesce_inv range_count input_parts co)"

definition coalesce_producers where
  "coalesce_producers cfg = stage_task_count (co_input_stage (fst cfg))"

definition coalesce_consumers where
  "coalesce_consumers cfg = co_consumer_tasks (fst cfg)"

definition coalesce_out_parts where
  "coalesce_out_parts range_count cfg =
     part_count range_count (partitioning (co_properties (fst cfg)))"

definition coalesce_reads where
  "coalesce_reads range_count cfg t p =
     (case coalesce_execute range_count (fst cfg)
             \<lparr>task_index = t, task_count = co_consumer_tasks (fst cfg)\<rparr> p of
        Inl e \<Rightarrow> Inl e
      | Inr s \<Rightarrow> Inr (stream_reads s))"

lemma coalesce_reads_eq:
  assumes "coalesce_valid rc (co, P)" "t < co_consumer_tasks co"
  shows "coalesce_reads rc (co, P) t p =
    Inr (let g = task_group (coalesce_producers (co, P)) t (co_consumer_tasks co)
         in if p div P < group_len g then [(start_task g + p div P, p mod P)] else [])"
proof -
  let ?I = "stage_task_count (co_input_stage co)" and ?C = "co_consumer_tasks co"
  obtain r where r: "co_input_stage co = Remote r"
    using assms(1) by (auto simp: coalesce_valid_def split: stage.splits)
  have C: "0 < ?C" "0 < P"
    and out: "part_count rc (partitioning (co_properties co)) = P * max_input_task_count ?I ?C"
    using assms(1) by (auto simp: coalesce_valid_def coalesce_inv_def)
  have "part_count rc (partitioning (co_properties co)) div max_input_task_count ?I ?C = P"
    unfolding out by simp
  then show ?thesis
    using assms(2) C(2) r task_group_len_le [of ?I t ?C]
    by (auto simp: coalesce_reads_def coalesce_execute_def coalesce_producers_def Let_def)
qed

lemma coalesce_exactly_once:
  assumes "coalesce_valid rc (co, P)"
  shows "(\<Sum>t < coalesce_consumers (co, P). \<Sum>p < coalesce_out_parts rc (co, P).
      case coalesce_reads rc (co, P) t p of Inr rs \<Rightarrow> mset rs | Inl _ \<Rightarrow> {#}) =
    (\<Sum>s < coalesce_producers (co, P). \<Sum>q < P. {#(s, q)#})"
proof -
  let ?I = "coalesce_producers (co, P)" and ?C = "co_consumer_tasks co"
  let ?M = "max_input_task_count ?I ?C"
  let ?g = "\<lambda>t. task_group ?I t ?C"
  have C: "0 < ?C" "0 < P" and out: "coalesce_out_parts rc (co, P) = ?M * P"
    using assms
    by (auto simp: coalesce_valid_def coalesce_inv_def coalesce_out_parts_def coalesce_producers_def)
  have "(\<Sum>p < ?M * P. case coalesce_reads rc (co, P) t p of Inr rs \<Rightarrow> mset rs | Inl _ \<Rightarrow> {#}) =
      (\<Sum>o' < group_len (?g t). \<Sum>q < P. {#(start_task (?g t) + o', q)#})" if "t < ?C" for t
  proof -
    let ?f = "\<lambda>p. case coalesce_reads rc (co, P) t p of Inr rs \<Rightarrow> mset rs | Inl _ \<Rightarrow> {#}"
    have f: "?f (o' * P + q) = (if o' < group_len (?g t) then {#(start_task (?g t) + o', q)#} else {#})"
      if "q < P" for o' q
      using that by (simp add: coalesce_reads_eq [OF assms \<open>t < ?C\<close>] Let_def)
    have "(\<Sum>p < ?M * P. ?f p) = (\<Sum>o' < ?M. \<Sum>q < P. ?f (o' * P + q))"
      by (rule sum_mset_flatten [symmetric])
    also have "\<dots> = (\<Sum>o' < ?M. if o' < group_len (?g t)
        then \<Sum>q < P. {#(start_task (?g t) + o', q)#} else {#})"
      by (intro sum.cong) (auto simp: f)
    also have "\<dots> = (\<Sum>o' \<in> {o'. o' < ?M \<and> o' < group_len (?g t)}. \<Sum>q < P. {#(start_task (?g t) + o', q)#})"
      by (simp add: sum.If_cases lessThan_def Collect_conj_eq)
    also have "{o'. o' < ?M \<and> o' < group_len (?g t)} = {..<group_len (?g t)}"
      using task_group_len_le [of ?I t ?C] task_group_max_len [OF C(1), of ?I t] by auto
    finally show ?thesis .
  qed
  then have "(\<Sum>t < ?C. \<Sum>p < ?M * P. case coalesce_reads rc (co, P) t p of Inr rs \<Rightarrow> mset rs | Inl _ \<Rightarrow> {#}) =
      (\<Sum>t < ?C. \<Sum>o' < group_len (?g t). \<Sum>q < P. {#(start_task (?g t) + o', q)#})"
    by (intro sum.cong [OF refl]) simp
  also have "\<dots> = (\<Sum>i < ?I. \<Sum>q < P. {#(i, q)#})"
    by (rule task_group_sum [OF C(1)])
  finally show ?thesis
    unfolding out by (simp add: coalesce_consumers_def)
qed

interpretation coalesce_exchange: exchange
  "coalesce_valid rc" coalesce_producers snd coalesce_consumers "coalesce_out_parts rc"
  "coalesce_reads rc"
  for rc
proof (unfold_locales, goal_cases)
  case (1 c t p)
  then show ?case
    by (cases c) (simp add: coalesce_reads_eq coalesce_consumers_def)
next
  case (2 c)
  then show ?case
    by (cases c) (simp add: coalesce_exactly_once)
qed

section \<open>Properties\<close>

text \<open>C4. A coalesce reads every partition of every producer task exactly once, whatever the
  ratio of producer to consumer tasks; the padding partitions of smaller groups read nothing and
  the internal group-size error never occurs.\<close>

theorem coalesce_delivers_every_row:
  assumes "coalesce_valid rc (co, P)"
  shows "(\<forall>t < co_consumer_tasks co. \<forall>p < coalesce_out_parts rc (co, P).
      \<exists>ps. coalesce_reads rc (co, P) t p = Inr ps) \<and>
    (\<Sum>t < co_consumer_tasks co. \<Sum>p < coalesce_out_parts rc (co, P).
      case coalesce_reads rc (co, P) t p of
        Inr ps \<Rightarrow> mset (concat (map (\<lambda>(s, q). rows s q) ps))
      | Inl _ \<Rightarrow> {#}) =
    (\<Sum>s < coalesce_producers (co, P). \<Sum>q < P. mset (rows s q))"
  using coalesce_exchange.no_row_lost [OF assms, of rows] coalesce_exchange.reads_ok [OF assms]
  unfolding coalesce_exchange.delivered_def by (auto simp: coalesce_consumers_def)

theorem coalesce_delivers_every_row_witness:
  "(\<Sum>t < 2. \<Sum>p < 6.
      case coalesce_reads (\<lambda>_::unit. 0)
         (coalesce_try_from_stage (\<lambda>_. 0)
           (Remote \<lparr>rs_query_id = 0::nat, rs_num = 1, rs_workers = [10, 11, 12, 13, 14::nat],
             rs_runtime_stats = None :: unit option, rs_dynamic_filter_anchors = [] :: unit list\<rparr>
            :: (nat, unit, unit, nat, unit, unit) stage)
           \<lparr>eq_properties = (), partitioning = Hash [0::nat] 2, emission_incremental = True,
             bounded = True\<rparr> 2, 2::nat) t p of
        Inr ps \<Rightarrow> mset (concat (map (\<lambda>(s, q). [10 * s + q]) ps))
      | Inl _ \<Rightarrow> {#}) = {#0, 1, 10, 11, 20, 21, 30, 31, 40, 41#}"
proof -
  let ?co = "coalesce_try_from_stage (\<lambda>_::unit. 0)
      (Remote \<lparr>rs_query_id = 0::nat, rs_num = 1, rs_workers = [10, 11, 12, 13, 14::nat],
        rs_runtime_stats = None :: unit option, rs_dynamic_filter_anchors = [] :: unit list\<rparr>
       :: (nat, unit, unit, nat, unit, unit) stage)
      \<lparr>eq_properties = (), partitioning = Hash [0::nat] 2, emission_incremental = True,
        bounded = True\<rparr> 2"
  have n: "coalesce_out_parts (\<lambda>_. 0) (?co, 2::nat) = 6" "coalesce_producers (?co, 2::nat) = 5"
    "co_consumer_tasks ?co = 2"
    by (simp_all add: coalesce_out_parts_def coalesce_producers_def coalesce_try_from_stage_def
        max_input_task_count_def div_ceil_def)
  have v: "coalesce_valid (\<lambda>_. 0) (?co, 2)"
    by (simp add: coalesce_valid_def coalesce_inv_def coalesce_try_from_stage_def)
  have "(\<Sum>s < 5. \<Sum>q < 2. mset [10 * s + q]) = {#0, 1, 10, 11, 20, 21, 30, 31, 40, 41::nat#}"
    by (simp add: eval_nat_numeral)
  then show ?thesis
    using coalesce_delivers_every_row [OF v, where rows = "\<lambda>s q. [10 * s + q]"]
    unfolding n by simp
qed

text \<open>The task groups of a coalesce partition the producer tasks into contiguous runs whose
  sizes differ by at most one.\<close>

theorem task_group_balanced_partition:
  assumes "0 < C" "t < C" "t' < C"
  shows "start_task (task_group I 0 C) = 0 \<and>
    start_task (task_group I (Suc t) C) = start_task (task_group I t C) + group_len (task_group I t C) \<and>
    start_task (task_group I C C) = I \<and>
    group_len (task_group I t C) \<le> group_len (task_group I t' C) + 1 \<and>
    max_len (task_group I t C) = (MAX i \<in> {..<C}. group_len (task_group I i C))"
proof -
  have "max_len (task_group I t C) = group_len (task_group I 0 C)"
    "\<And>i. group_len (task_group I i C) \<le> group_len (task_group I 0 C)"
    using assms(1) by (auto simp: task_group_def Let_def)
  then have "max_len (task_group I t C) = (MAX i \<in> {..<C}. group_len (task_group I i C))"
    using assms(1) by (intro Max_eqI [symmetric]) auto
  moreover have "group_len (task_group I t C) \<le> group_len (task_group I t' C) + 1"
    using assms(1) by (simp add: task_group_def Let_def)
  ultimately show ?thesis
    using task_group_start_0 task_group_start_Suc [OF assms(1)] task_group_start_last [OF assms(1)]
    by blast
qed

theorem task_group_balanced_partition_witness:
  "group_len (task_group 5 1 2) \<le> group_len (task_group 5 0 2) + 1 \<and>
   start_task (task_group 5 2 2) = 5"
  using task_group_balanced_partition [of 2 1 0 5] by simp

end
