(* ===== verification/NetworkBroadcast.thy ===== *)
theory NetworkBroadcast
  imports Partitioning Exchange
begin

text \<open>
  \<open>NetworkBroadcastExec\<close> (\<open>src/src/execution_plans/network_broadcast.rs\<close>) and the virtual
  partitions of the \<open>BroadcastExec\<close> at its producers' head
  (\<open>src/src/execution_plans/broadcast.rs\<close>, \<open>ProducerHead::insert\<close> in
  \<open>src/src/distributed_planner/network_boundary.rs\<close>): a producer with \<open>N\<close> partitions exposes
  \<open>N\<close> virtual partitions per consumer task, virtual partition \<open>i\<close> serving real partition
  \<open>i mod N\<close>.
\<close>

record ('x, 'r, 'q, 'st) network_broadcast =
  br_properties :: "('x, 'r, 'q) plan_properties"
  br_input_stage :: 'st
  br_pool :: nat

definition broadcast_from_stage where
  "broadcast_from_stage range_count st props =
     \<lparr>br_properties = props\<lparr>partitioning :=
        UnknownPartitioning (part_count range_count (partitioning props))\<rparr>,
      br_input_stage = st,
      br_pool = stage_task_count st\<rparr>"

definition broadcast_try_new where
  "broadcast_try_new range_count is_broadcast plan_props nil_id no_metrics input tasks =
     (if \<not> is_broadcast input then Inl NotBroadcast
      else Inr (broadcast_from_stage range_count
             (Local \<lparr>ls_query_id = nil_id, ls_num = 0, ls_plan = input, ls_tasks = tasks,
                     ls_metrics_set = no_metrics\<rparr>)
             (plan_props input)))"

definition broadcast_with_input_stage where
  "broadcast_with_input_stage br st =
     br\<lparr>br_pool := stage_task_count st, br_input_stage := st\<rparr>"

definition broadcast_producer_head ::
  "('r \<Rightarrow> nat) \<Rightarrow> ('x, 'r, 'q, 'st) network_broadcast \<Rightarrow> nat \<Rightarrow> ('x, 'r) producer_head" where
  "broadcast_producer_head range_count br consumers =
     HeadBroadcast (part_count range_count (partitioning (br_properties br)) * consumers)"

definition broadcast_with_new_children where
  "broadcast_with_new_children br children =
     (case br_input_stage br of
        Local l \<Rightarrow>
          (case children of
             [c] \<Rightarrow> Inr (br\<lparr>br_input_stage := Local (l\<lparr>ls_plan := c\<rparr>)\<rparr>)
           | _ \<Rightarrow> Inl (WrongChildren (length children)))
      | Remote _ \<Rightarrow>
          if children \<noteq> [] then Inl (WrongChildren (length children)) else Inr br)"

definition broadcast_execute ::
  "('r \<Rightarrow> nat) \<Rightarrow> ('x, 'r, 'q, ('id, 'p, 'm, 'url, 's, 'w) stage) network_broadcast \<Rightarrow> task_ctx \<Rightarrow> nat \<Rightarrow>
     (unit boundary_error, ('x, 'r) boundary_stream) res" where
  "broadcast_execute range_count br ctx p =
     (case br_input_stage br of
        Local l \<Rightarrow> local_execute l p
      | Remote r \<Rightarrow>
          (let n = part_count range_count (partitioning (br_properties br));
               off = n * task_index ctx
           in Inr (SelectAll (map (\<lambda>i.
                \<lparr>req_range = (off, off + n), req_task = i, req_partition = off + p,
                 req_head = broadcast_producer_head range_count br (task_count ctx)\<rparr>)
                [0..<stage_task_count (br_input_stage br)]))))"

section \<open>The broadcast head\<close>

text \<open>
  \<open>ProducerHead::insert\<close> puts a \<open>BroadcastExec\<close> over an input of \<open>parts\<close> partitions, for
  \<open>output_partitions / parts\<close> consumer tasks; \<open>BroadcastExec::new\<close> then exposes
  \<open>parts * consumers\<close> partitions.
\<close>

definition broadcast_head_consumers :: "nat \<Rightarrow> nat \<Rightarrow> nat" where
  "broadcast_head_consumers output_partitions parts = output_partitions div parts"

definition broadcast_output_partitions :: "nat \<Rightarrow> nat \<Rightarrow> nat" where
  "broadcast_output_partitions parts consumers = parts * consumers"

definition broadcast_real_partition :: "nat \<Rightarrow> nat \<Rightarrow> nat" where
  "broadcast_real_partition parts i = i mod parts"

section \<open>The exchange\<close>

text \<open>A configuration is a broadcast node and its number of consumer tasks; the node advertises
  the partitions of its producers' input, and there is at least one.\<close>

definition broadcast_valid where
  "broadcast_valid range_count cfg \<longleftrightarrow>
     (case br_input_stage (fst cfg) of Remote _ \<Rightarrow> True | Local _ \<Rightarrow> False) \<and>
     0 < part_count range_count (partitioning (br_properties (fst cfg)))"

definition broadcast_producers where
  "broadcast_producers cfg = stage_task_count (br_input_stage (fst cfg))"

definition broadcast_out_parts where
  "broadcast_out_parts range_count cfg =
     part_count range_count (partitioning (br_properties (fst cfg)))"

definition broadcast_head_parts where
  "broadcast_head_parts range_count cfg =
     (case broadcast_producer_head range_count (fst cfg) (snd cfg) of
        HeadBroadcast n \<Rightarrow>
          broadcast_output_partitions (broadcast_out_parts range_count cfg)
            (broadcast_head_consumers n (broadcast_out_parts range_count cfg))
      | _ \<Rightarrow> 0)"

definition broadcast_reads where
  "broadcast_reads range_count cfg t p =
     (case broadcast_execute range_count (fst cfg) \<lparr>task_index = t, task_count = snd cfg\<rparr> p of
        Inl e \<Rightarrow> Inl e
      | Inr s \<Rightarrow> Inr (stream_reads s))"

lemma broadcast_reads_eq:
  assumes "broadcast_valid rc (br, C)"
  shows "broadcast_reads rc (br, C) t p =
    Inr (map (\<lambda>i. (i, t * broadcast_out_parts rc (br, C) + p)) [0..<broadcast_producers (br, C)])"
  using assms
  by (auto simp: broadcast_valid_def broadcast_reads_def broadcast_execute_def
      broadcast_out_parts_def broadcast_producers_def Let_def mult.commute split: stage.splits)

lemma broadcast_head_parts_eq:
  assumes "broadcast_valid rc (br, C)"
  shows "broadcast_head_parts rc (br, C) = C * broadcast_out_parts rc (br, C)"
  using assms
  by (simp add: broadcast_valid_def broadcast_head_parts_def broadcast_producer_head_def
      broadcast_output_partitions_def broadcast_head_consumers_def broadcast_out_parts_def)

lemma mset_map_upt: "mset (map f [0..<n]) = (\<Sum>i < n. {#f i#})"
  by (induction n) auto

interpretation broadcast_exchange: broadcast_exchange
  "broadcast_valid rc" broadcast_producers "broadcast_head_parts rc" snd "broadcast_out_parts rc"
  "broadcast_reads rc" "broadcast_out_parts rc"
  "\<lambda>cfg. broadcast_real_partition (broadcast_out_parts rc cfg)"
  for rc
proof (unfold_locales, goal_cases)
  case (1 c t p)
  then show ?case
    by (cases c) (simp add: broadcast_reads_eq)
next
  case (2 c)
  obtain br C where c: "c = (br, C)"
    by (cases c)
  let ?P = "broadcast_out_parts rc (br, C)" and ?N = "broadcast_producers (br, C)"
  have "(\<Sum>t < C. \<Sum>p < ?P. \<Sum>i < ?N. {#(i, t * ?P + p)#}) = (\<Sum>q < C * ?P. \<Sum>i < ?N. {#(i, q)#})"
    by (rule sum_mset_flatten)
  also have "\<dots> = (\<Sum>i < ?N. \<Sum>q < C * ?P. {#(i, q)#})"
    by (rule sum.swap)
  finally show ?case
    using 2 by (simp add: c broadcast_reads_eq broadcast_head_parts_eq mset_map_upt del: mset_map)
next
  case (3 c t)
  obtain br C where c: "c = (br, C)"
    by (cases c)
  let ?P = "broadcast_out_parts rc (br, C)" and ?N = "broadcast_producers (br, C)"
  have "(\<Sum>p < ?P. \<Sum>i < ?N. {#(i, (t * ?P + p) mod ?P)#}) = (\<Sum>p < ?P. \<Sum>i < ?N. {#(i, p)#})"
    by (intro sum.cong [OF refl]) simp
  also have "\<dots> = (\<Sum>i < ?N. \<Sum>p < ?P. {#(i, p)#})"
    by (rule sum.swap)
  finally show ?case
    using 3
    by (simp add: c broadcast_reads_eq broadcast_real_partition_def comp_def mset_map_upt
        del: mset_map)
qed

section \<open>Properties\<close>

text \<open>C5. Broadcast is complete for every consumer: each consumer task receives every row of
  every partition of every producer exactly once, and no virtual partition is read twice.\<close>

theorem broadcast_every_consumer_sees_all:
  assumes "broadcast_valid rc (br, C)" "t < C"
  shows "(\<Sum>p < broadcast_out_parts rc (br, C).
      case broadcast_reads rc (br, C) t p of
        Inr ps \<Rightarrow> mset (concat (map (\<lambda>(s, q).
          rows s (broadcast_real_partition (broadcast_out_parts rc (br, C)) q)) ps))
      | Inl _ \<Rightarrow> {#}) =
    (\<Sum>s < broadcast_producers (br, C). \<Sum>q < broadcast_out_parts rc (br, C). mset (rows s q)) \<and>
    (\<Sum>u < C. \<Sum>p < broadcast_out_parts rc (br, C).
      case broadcast_reads rc (br, C) u p of Inr ps \<Rightarrow> mset ps | Inl _ \<Rightarrow> {#}) =
    (\<Sum>s < broadcast_producers (br, C). \<Sum>q < broadcast_head_parts rc (br, C). {#(s, q)#})"
  using broadcast_exchange.consumer_sees_all [OF assms(1), of t rows] assms(2)
    broadcast_exchange.exactly_once [OF assms(1)]
  unfolding broadcast_exchange.delivered_def by simp

theorem broadcast_every_consumer_sees_all_witness:
  "(\<Sum>p < 2.
      case broadcast_reads (\<lambda>_::unit. 0)
         (broadcast_from_stage (\<lambda>_. 0)
           (Remote \<lparr>rs_query_id = 0::nat, rs_num = 1, rs_workers = [10, 11::nat],
             rs_runtime_stats = None :: unit option, rs_dynamic_filter_anchors = [] :: unit list\<rparr>
            :: (nat, unit, unit, nat, unit, unit) stage)
           \<lparr>eq_properties = (), partitioning = Hash [0::nat] 2, emission_incremental = True,
             bounded = True\<rparr>, 3) 1 p of
        Inr ps \<Rightarrow> mset (concat (map (\<lambda>(s, q). [10 * s + broadcast_real_partition 2 q]) ps))
      | Inl _ \<Rightarrow> {#}) = {#0, 1, 10, 11#}"
proof -
  let ?br = "broadcast_from_stage (\<lambda>_::unit. 0)
      (Remote \<lparr>rs_query_id = 0::nat, rs_num = 1, rs_workers = [10, 11::nat],
        rs_runtime_stats = None :: unit option, rs_dynamic_filter_anchors = [] :: unit list\<rparr>
       :: (nat, unit, unit, nat, unit, unit) stage)
      \<lparr>eq_properties = (), partitioning = Hash [0::nat] 2, emission_incremental = True, bounded = True\<rparr>"
  have v: "broadcast_valid (\<lambda>_. 0) (?br, 3::nat)"
    by (simp add: broadcast_valid_def broadcast_from_stage_def)
  have n: "broadcast_out_parts (\<lambda>_. 0) (?br, 3::nat) = 2" "broadcast_producers (?br, 3::nat) = 2"
    by (simp_all add: broadcast_out_parts_def broadcast_producers_def broadcast_from_stage_def)
  have "(\<Sum>s < 2. \<Sum>q < 2. mset [10 * s + q]) = {#0, 1, 10, 11::nat#}"
    by (simp add: eval_nat_numeral)
  then show ?thesis
    using broadcast_every_consumer_sees_all [OF v, where t = 1 and rows = "\<lambda>s q. [10 * s + q]"]
    unfolding n by simp
qed

end
