(* ===== verification/BroadcastQueue.thy ===== *)
theory BroadcastQueue
  imports Prelude
begin

text \<open>
  The queue behind one input partition of a \<open>BroadcastExec\<close>
  (\<open>src/src/execution_plans/broadcast.rs\<close>). One producer appends entries, every consumer task
  reads all of them from the start through its own cursor, and entries every reader has passed are
  evicted in batches. Every method is one critical section under the queue's mutex, and is one
  definition here; index errors, unsigned underflow, \<open>expect\<close> and \<open>unreachable!\<close> are panics, the
  errors of the result type. The step relation interleaves the critical sections of producer,
  plan and consumers in any order their ownership allows.
\<close>

datatype reader_slot = Pending | Reading nat | Released

record 't queue_state =
  entries :: "'t list"
  base_cursor :: nat
  tail_cursor :: nat
  readers :: "reader_slot list"
  retaining_readers :: nat
  closed :: bool
  cancelled :: bool

datatype queue_panic =
    CursorUnderflow
  | DrainOutOfRange
  | ReaderOutOfRange
  | RetainingUnderflow
  | FellBehind
  | NotRetained
  | UnclaimedPolled

definition reclaim_interval :: nat where
  "reclaim_interval = 8"

definition queue_new :: "nat \<Rightarrow> 't queue_state" where
  "queue_new n =
     \<lparr>entries = [], base_cursor = 0, tail_cursor = 0, readers = replicate n Pending,
      retaining_readers = n, closed = False, cancelled = False\<rparr>"

fun slot_cursor :: "reader_slot \<Rightarrow> nat option" where
  "slot_cursor Pending = Some 0"
| "slot_cursor (Reading c) = Some c"
| "slot_cursor Released = None"

fun iter_min :: "nat list \<Rightarrow> nat option" where
  "iter_min [] = None"
| "iter_min (x # xs) = Some (fold min xs x)"

definition minimum_cursor :: "'t queue_state \<Rightarrow> nat" where
  "minimum_cursor q =
     (case iter_min (List.map_filter slot_cursor (readers q)) of
        Some m \<Rightarrow> m
      | None \<Rightarrow> tail_cursor q)"

definition reclaim_processed_entries :: "'t queue_state \<Rightarrow> (queue_panic, 't queue_state) res" where
  "reclaim_processed_entries q =
     (let m = minimum_cursor q
      in if m < base_cursor q then Inl CursorUnderflow
         else let reclaim_count = m - base_cursor q
              in if length (entries q) < reclaim_count then Inl DrainOutOfRange
                 else Inr (q\<lparr>base_cursor := m, entries := drop reclaim_count (entries q)\<rparr>))"

definition push :: "'t queue_state \<Rightarrow> 't \<Rightarrow> (queue_panic, bool \<times> 't queue_state) res" where
  "push q v =
     (if retaining_readers q = 0 then Inr (False, q)
      else let q1 = q\<lparr>entries := entries q @ [v], tail_cursor := tail_cursor q + 1\<rparr>
           in if tail_cursor q1 mod reclaim_interval = 0
              then bind_res (reclaim_processed_entries q1) (\<lambda>q2. Inr (True, q2))
              else Inr (True, q1))"

definition queue_close :: "'t queue_state \<Rightarrow> 't queue_state" where
  "queue_close q = q\<lparr>closed := True\<rparr>"

datatype claim_error = ClaimOutOfRange nat | ClaimedTwice nat

definition claim :: "'t queue_state \<Rightarrow> nat \<Rightarrow> (claim_error, 't queue_state) res" where
  "claim q i =
     (if length (readers q) \<le> i then Inl (ClaimOutOfRange i)
      else case readers q ! i of
             Pending \<Rightarrow> Inr (q\<lparr>readers := (readers q)[i := Reading 0]\<rparr>)
           | _ \<Rightarrow> Inl (ClaimedTwice i))"

definition cancel_if_unread :: "'t queue_state \<Rightarrow> 't queue_state" where
  "cancel_if_unread q = (if retaining_readers q = 0 then q\<lparr>cancelled := True\<rparr> else q)"

definition release_pending :: "'t queue_state \<Rightarrow> (queue_panic, 't queue_state) res" where
  "release_pending q =
     (let released = length (filter (\<lambda>r. r = Pending) (readers q));
          slots = map (\<lambda>r. if r = Pending then Released else r) (readers q)
      in if retaining_readers q < released then Inl RetainingUnderflow
         else bind_res (reclaim_processed_entries
                (q\<lparr>readers := slots, retaining_readers := retaining_readers q - released\<rparr>))
              (\<lambda>q1. Inr (cancel_if_unread q1)))"

definition release :: "'t queue_state \<Rightarrow> nat \<Rightarrow> (queue_panic, 't queue_state) res" where
  "release q i =
     (if length (readers q) \<le> i then Inl ReaderOutOfRange
      else if readers q ! i = Released then Inr q
      else if retaining_readers q = 0 then Inl RetainingUnderflow
      else bind_res (reclaim_processed_entries
             (q\<lparr>readers := (readers q)[i := Released], retaining_readers := retaining_readers q - 1\<rparr>))
           (\<lambda>q1. Inr (cancel_if_unread q1)))"

text \<open>The locked block of \<open>poll_next\<close>: an entry, no entry and whether the queue is closed, or the
  end of a released reader.\<close>

datatype 't read_result = Value 't | NoValue bool | Gone

definition poll_read :: "'t queue_state \<Rightarrow> nat \<Rightarrow> (queue_panic, 't read_result \<times> 't queue_state) res" where
  "poll_read q i =
     (if length (readers q) \<le> i then Inl ReaderOutOfRange
      else case readers q ! i of
             Released \<Rightarrow> Inr (Gone, q)
           | Pending \<Rightarrow> Inl UnclaimedPolled
           | Reading c \<Rightarrow>
               if c < tail_cursor q then
                 if c < base_cursor q then Inl FellBehind
                 else if length (entries q) \<le> c - base_cursor q then Inl NotRetained
                 else Inr (Value (entries q ! (c - base_cursor q)),
                           q\<lparr>readers := (readers q)[i := Reading (c + 1)]\<rparr>)
               else Inr (NoValue (closed q), q))"

text \<open>
  A whole \<open>poll_next\<close> that no other thread interrupts, against the outcomes of polling the
  notification stream: \<open>Some True\<close> for a notification, \<open>Some False\<close> when the stream has ended,
  and the end of the list when it is pending.
\<close>

datatype 't poll_result = ReadySome 't | ReadyNone | PollPending

fun poll_next ::
  "nat \<Rightarrow> 't queue_state \<Rightarrow> bool list \<Rightarrow> (queue_panic, 't poll_result \<times> 't queue_state) res" where
  "poll_next i q notify =
     bind_res (poll_read q i) (\<lambda>(r, q1).
       case r of
         Value v \<Rightarrow> Inr (ReadySome v, q1)
       | Gone \<Rightarrow> Inr (ReadyNone, q1)
       | NoValue True \<Rightarrow> bind_res (release q1 i) (\<lambda>q2. Inr (ReadyNone, q2))
       | NoValue False \<Rightarrow>
           (case notify of
              [] \<Rightarrow> Inr (PollPending, q1)
            | True # rest \<Rightarrow> poll_next i q1 rest
            | False # _ \<Rightarrow> bind_res (release q1 i) (\<lambda>q2. Inr (ReadyNone, q2))))"

text \<open>The producer task on the messages of its input stream, dropping the queue at the end; \<open>Inl\<close>
  messages are errors, after which it stops.\<close>

fun produce :: "'t queue_state \<Rightarrow> ('e + 't) list \<Rightarrow> ('e \<Rightarrow> 't) \<Rightarrow> (queue_panic, 't queue_state) res" where
  "produce q [] wrap_err = Inr (queue_close q)"
| "produce q (Inr v # msgs) wrap_err =
     bind_res (push q v) (\<lambda>(ok, q1). if ok then produce q1 msgs wrap_err else Inr (queue_close q1))"
| "produce q (Inl e # msgs) wrap_err =
     bind_res (push q (wrap_err e)) (\<lambda>(_, q1). Inr (queue_close q1))"

section \<open>Invariant\<close>

definition queue_inv :: "'t queue_state \<Rightarrow> bool" where
  "queue_inv q \<longleftrightarrow>
     tail_cursor q = base_cursor q + length (entries q) \<and>
     retaining_readers q = length (filter (\<lambda>r. r \<noteq> Released) (readers q)) \<and>
     (\<forall>r \<in> set (readers q). \<forall>c. slot_cursor r = Some c \<longrightarrow> base_cursor q \<le> c \<and> c \<le> tail_cursor q)"

lemma iter_min_props:
  "iter_min xs = Some m \<Longrightarrow> m \<in> set xs \<and> (\<forall>x \<in> set xs. m \<le> x)"
proof (cases xs)
  case (Cons y ys)
  have "fold min ys y \<in> insert y (set ys) \<and> (\<forall>x \<in> insert y (set ys). fold min ys y \<le> x)"
  proof (induction ys arbitrary: y)
    case (Cons z zs)
    from Cons.IH [of "min z y"] show ?case
      by (auto simp: min_def split: if_splits)
  qed simp
  then show "iter_min xs = Some m \<Longrightarrow> ?thesis"
    using Cons by auto
qed simp

lemma iter_min_None [simp]: "iter_min xs = None \<longleftrightarrow> xs = []"
  by (cases xs) auto

lemma in_map_filter: "c \<in> set (List.map_filter f xs) \<longleftrightarrow> (\<exists>x \<in> set xs. f x = Some c)"
  by (induction xs) (auto simp: List.map_filter_simps split: option.splits)

lemma minimum_cursor_bounds:
  assumes "\<forall>r \<in> set (readers q). \<forall>c. slot_cursor r = Some c \<longrightarrow> b \<le> c \<and> c \<le> tail_cursor q"
    "b \<le> tail_cursor q"
  shows "b \<le> minimum_cursor q \<and> minimum_cursor q \<le> tail_cursor q \<and>
    (\<forall>r \<in> set (readers q). \<forall>c. slot_cursor r = Some c \<longrightarrow> minimum_cursor q \<le> c)"
proof (cases "iter_min (List.map_filter slot_cursor (readers q))")
  case None
  then show ?thesis
    using assms in_map_filter [of _ slot_cursor "readers q"] by (auto simp: minimum_cursor_def)
next
  case (Some m)
  then show ?thesis
    using assms iter_min_props [OF Some] by (fastforce simp: minimum_cursor_def in_map_filter)
qed

text \<open>Eviction never panics, keeps the invariant, and only removes a prefix every reader passed.\<close>

lemma reclaim_ok:
  assumes "queue_inv q"
  shows "\<exists>q'. reclaim_processed_entries q = Inr q' \<and> queue_inv q' \<and>
    q' = q\<lparr>base_cursor := minimum_cursor q, entries := drop (minimum_cursor q - base_cursor q) (entries q)\<rparr> \<and>
    base_cursor q \<le> minimum_cursor q \<and> minimum_cursor q \<le> tail_cursor q"
proof -
  have "base_cursor q \<le> minimum_cursor q \<and> minimum_cursor q \<le> tail_cursor q \<and>
      (\<forall>r \<in> set (readers q). \<forall>c. slot_cursor r = Some c \<longrightarrow> minimum_cursor q \<le> c)"
    using assms by (intro minimum_cursor_bounds) (auto simp: queue_inv_def)
  then show ?thesis
    using assms by (auto simp: reclaim_processed_entries_def Let_def queue_inv_def)
qed

lemma queue_new_inv: "queue_inv (queue_new n)"
  by (auto simp: queue_inv_def queue_new_def)

section \<open>Refinement of a shared log\<close>

text \<open>
  What the queue promises, independent of eviction: \<open>rel h q\<close> relates the state to the list
  \<open>h\<close> of everything ever appended, appending extends it, and a reader at position \<open>c\<close> gets
  exactly \<open>h ! c\<close>. The lemma of the locale is the consumer's view: reading on delivers the rest of
  the log in order.
\<close>

locale shared_log =
  fixes rel :: "'t list \<Rightarrow> 'q \<Rightarrow> bool"
    and append :: "'q \<Rightarrow> 't \<Rightarrow> 'q option"
    and cursor :: "'q \<Rightarrow> nat \<Rightarrow> nat option"
    and read :: "'q \<Rightarrow> nat \<Rightarrow> ('t \<times> 'q) option"
  assumes append_log: "rel h q \<Longrightarrow> append q v = Some q' \<Longrightarrow> rel (h @ [v]) q'"
    and append_cursor: "rel h q \<Longrightarrow> append q v = Some q' \<Longrightarrow> cursor q' i = cursor q i"
    and cursor_le: "rel h q \<Longrightarrow> cursor q i = Some c \<Longrightarrow> c \<le> length h"
    and read_value:
      "rel h q \<Longrightarrow> cursor q i = Some c \<Longrightarrow> c < length h \<Longrightarrow>
         \<exists>q'. read q i = Some (h ! c, q') \<and> rel h q' \<and> cursor q' i = Some (Suc c) \<and>
           (\<forall>j. j \<noteq> i \<longrightarrow> cursor q' j = cursor q j)"
begin

fun read_many :: "nat \<Rightarrow> 'q \<Rightarrow> nat \<Rightarrow> ('t list \<times> 'q) option" where
  "read_many 0 q i = Some ([], q)"
| "read_many (Suc n) q i =
     (case read q i of
        None \<Rightarrow> None
      | Some (v, q') \<Rightarrow>
          (case read_many n q' i of None \<Rightarrow> None | Some (vs, q'') \<Rightarrow> Some (v # vs, q'')))"

lemma read_many_log:
  assumes "rel h q" "cursor q i = Some c" "c + n \<le> length h"
  shows "\<exists>q'. read_many n q i = Some (take n (drop c h), q') \<and> rel h q' \<and> cursor q' i = Some (c + n)"
  using assms
proof (induction n arbitrary: q c)
  case (Suc n)
  obtain q1 where q1: "read q i = Some (h ! c, q1)" "rel h q1" "cursor q1 i = Some (Suc c)"
    using read_value [OF Suc.prems(1,2)] Suc.prems(3) by auto
  obtain q2 where "read_many n q1 i = Some (take n (drop (Suc c) h), q2)" "rel h q2"
    "cursor q2 i = Some (Suc c + n)"
    using Suc.IH [OF q1(2,3)] Suc.prems(3) by auto
  moreover have "take (Suc n) (drop c h) = h ! c # take n (drop (Suc c) h)"
    using Suc.prems(3) by (simp add: Cons_nth_drop_Suc [symmetric])
  ultimately show ?case
    using q1(1) by simp
qed simp

end

definition queue_rel :: "'t list \<Rightarrow> 't queue_state \<Rightarrow> bool" where
  "queue_rel h q \<longleftrightarrow>
     queue_inv q \<and> tail_cursor q = length h \<and> entries q = drop (base_cursor q) h"

definition queue_append :: "'t queue_state \<Rightarrow> 't \<Rightarrow> 't queue_state option" where
  "queue_append q v = (case push q v of Inr (True, q') \<Rightarrow> Some q' | _ \<Rightarrow> None)"

definition queue_cursor :: "'t queue_state \<Rightarrow> nat \<Rightarrow> nat option" where
  "queue_cursor q i =
     (if i < length (readers q) then
        (case readers q ! i of Reading c \<Rightarrow> Some c | _ \<Rightarrow> None)
      else None)"

definition queue_read :: "'t queue_state \<Rightarrow> nat \<Rightarrow> ('t \<times> 't queue_state) option" where
  "queue_read q i = (case poll_read q i of Inr (Value v, q') \<Rightarrow> Some (v, q') | _ \<Rightarrow> None)"

lemma queue_rel_reclaim:
  assumes "queue_rel h q"
  shows "\<exists>q'. reclaim_processed_entries q = Inr q' \<and> queue_rel h q' \<and> readers q' = readers q \<and>
    retaining_readers q' = retaining_readers q \<and> closed q' = closed q \<and> cancelled q' = cancelled q \<and>
    base_cursor q' = minimum_cursor q"
proof -
  have "queue_inv q"
    using assms by (simp add: queue_rel_def)
  from reclaim_ok [OF this] show ?thesis
    using assms by (auto simp: queue_rel_def add.commute)
qed

lemma queue_rel_append_raw:
  assumes "queue_rel h q"
  shows "queue_rel (h @ [v]) (q\<lparr>entries := entries q @ [v], tail_cursor := tail_cursor q + 1\<rparr>)"
  using assms by (fastforce simp: queue_rel_def queue_inv_def)

lemma push_ok:
  assumes "queue_rel h q"
  shows "if retaining_readers q = 0 then push q v = Inr (False, q)
    else \<exists>q'. push q v = Inr (True, q') \<and> queue_rel (h @ [v]) q' \<and> readers q' = readers q \<and>
      retaining_readers q' = retaining_readers q \<and> closed q' = closed q \<and> cancelled q' = cancelled q"
proof -
  let ?q = "q\<lparr>entries := entries q @ [v], tail_cursor := tail_cursor q + 1\<rparr>"
  obtain q' where "reclaim_processed_entries ?q = Inr q'" "queue_rel (h @ [v]) q'" "readers q' = readers ?q"
    "retaining_readers q' = retaining_readers ?q" "closed q' = closed ?q" "cancelled q' = cancelled ?q"
    using queue_rel_reclaim [OF queue_rel_append_raw [OF assms]] by blast
  then show ?thesis
    using queue_rel_append_raw [OF assms] by (auto simp: push_def Let_def)
qed

lemma poll_read_ok:
  assumes "queue_rel h q" "i < length (readers q)" "readers q ! i = Reading c"
  shows "c \<le> length h" "poll_read q i =
    (if c < length h then Inr (Value (h ! c), q\<lparr>readers := (readers q)[i := Reading (Suc c)]\<rparr>)
     else Inr (NoValue (closed q), q))"
proof -
  have c: "base_cursor q \<le> c" "c \<le> length h"
    using assms nth_mem [OF assms(2)] by (auto simp: queue_rel_def queue_inv_def)
  then show "c \<le> length h"
    by simp
  show "poll_read q i =
    (if c < length h then Inr (Value (h ! c), q\<lparr>readers := (readers q)[i := Reading (Suc c)]\<rparr>)
     else Inr (NoValue (closed q), q))"
    using assms c by (auto simp: poll_read_def queue_rel_def)
qed

lemma filter_length_update_same:
  "i < length xs \<Longrightarrow> P x = P (xs ! i) \<Longrightarrow> length (filter P (xs[i := x])) = length (filter P xs)"
proof (induction xs arbitrary: i)
  case (Cons y ys)
  then show ?case by (cases i) auto
qed simp

lemma queue_rel_slots:
  assumes "queue_rel h q" "n = length (filter (\<lambda>r. r \<noteq> Released) rs)"
    "\<And>r c. r \<in> set rs \<Longrightarrow> slot_cursor r = Some c \<Longrightarrow> base_cursor q \<le> c \<and> c \<le> length h"
  shows "queue_rel h (q\<lparr>readers := rs, retaining_readers := n\<rparr>)"
  using assms by (auto simp: queue_rel_def queue_inv_def)

lemma queue_rel_update_slot:
  assumes "queue_rel h q" "i < length (readers q)" "x \<noteq> Released" "readers q ! i \<noteq> Released"
    "\<And>c. slot_cursor x = Some c \<Longrightarrow> base_cursor q \<le> c \<and> c \<le> length h"
  shows "queue_rel h (q\<lparr>readers := (readers q)[i := x]\<rparr>)"
proof -
  have "queue_rel h (q\<lparr>readers := (readers q)[i := x], retaining_readers := retaining_readers q\<rparr>)"
  proof (rule queue_rel_slots [OF assms(1)])
    show "retaining_readers q = length (filter (\<lambda>r. r \<noteq> Released) ((readers q)[i := x]))"
      using assms filter_length_update_same [of i "readers q" "\<lambda>r. r \<noteq> Released" x]
      by (simp add: queue_rel_def queue_inv_def)
    fix r c assume "r \<in> set ((readers q)[i := x])" "slot_cursor r = Some c"
    then have "r = x \<or> r \<in> set (readers q)" "slot_cursor r = Some c"
      by (auto dest: set_update_subset_insert [THEN subsetD])
    then show "base_cursor q \<le> c \<and> c \<le> length h"
      using assms(1,5) by (auto simp: queue_rel_def queue_inv_def)
  qed
  then show ?thesis
    by simp
qed

lemma queue_rel_cursor:
  assumes "queue_rel h q" "i < length (readers q)" "slot_cursor (readers q ! i) = Some c"
  shows "base_cursor q \<le> c \<and> c \<le> length h"
  using assms(1,3) nth_mem [OF assms(2)] unfolding queue_rel_def queue_inv_def by metis

lemma queue_rel_advance:
  assumes "queue_rel h q" "i < length (readers q)" "readers q ! i = Reading c" "c < length h"
  shows "queue_rel h (q\<lparr>readers := (readers q)[i := Reading (Suc c)]\<rparr>)"
  using assms queue_rel_cursor [OF assms(1,2)] by (intro queue_rel_update_slot) auto

interpretation queue_log: shared_log queue_rel queue_append queue_cursor queue_read
proof (unfold_locales, goal_cases)
  case (1 h q v q')
  then show ?case
    using push_ok [of h q v] by (auto simp: queue_append_def split: sum.splits bool.splits if_splits)
next
  case (2 h q v q' i)
  then show ?case
    using push_ok [of h q v]
    by (auto simp: queue_append_def queue_cursor_def split: sum.splits bool.splits if_splits)
next
  case (3 h q i c)
  then show ?case
    using poll_read_ok(1) [of h q i c]
    by (auto simp: queue_cursor_def split: if_splits reader_slot.splits)
next
  case (4 h q i c)
  then have i: "i < length (readers q)" "readers q ! i = Reading c"
    by (auto simp: queue_cursor_def split: if_splits reader_slot.splits)
  show ?case
    using poll_read_ok(2) [OF 4(1) i] queue_rel_advance [OF 4(1) i 4(3)] 4(3) i
    by (auto simp: queue_read_def queue_cursor_def nth_list_update)
qed

section \<open>Claiming and releasing\<close>

lemma claim_ok:
  assumes "queue_rel h q" "claim q i = Inr q'"
  shows "queue_rel h q'" "i < length (readers q)" "readers q ! i = Pending"
    "q' = q\<lparr>readers := (readers q)[i := Reading 0]\<rparr>"
proof -
  show i: "i < length (readers q)" "readers q ! i = Pending"
    "q' = q\<lparr>readers := (readers q)[i := Reading 0]\<rparr>"
    using assms(2) by (auto simp: claim_def split: if_splits reader_slot.splits)
  show "queue_rel h q'"
    unfolding i(3) using assms(1) i(1,2) queue_rel_cursor [OF assms(1) i(1)]
    by (intro queue_rel_update_slot) auto
qed

definition cancel_inv :: "'t queue_state \<Rightarrow> bool" where
  "cancel_inv q \<longleftrightarrow>
     (cancelled q \<longrightarrow> retaining_readers q = 0) \<and>
     (retaining_readers q = 0 \<and> readers q \<noteq> [] \<longrightarrow> cancelled q)"

lemma cancel_if_unread_rel [simp]: "queue_rel h (cancel_if_unread q) = queue_rel h q"
  by (simp add: cancel_if_unread_def queue_rel_def queue_inv_def)

lemma cancel_if_unread_simps [simp]:
  "readers (cancel_if_unread q) = readers q" "closed (cancel_if_unread q) = closed q"
  "retaining_readers (cancel_if_unread q) = retaining_readers q"
  "cancelled (cancel_if_unread q) = (cancelled q \<or> retaining_readers q = 0)"
  by (auto simp: cancel_if_unread_def)

lemma filter_length_release:
  "i < length xs \<Longrightarrow> xs ! i \<noteq> Released \<Longrightarrow>
     length (filter (\<lambda>r. r \<noteq> Released) xs) = Suc (length (filter (\<lambda>r. r \<noteq> Released) (xs[i := Released])))"
proof (induction xs arbitrary: i)
  case (Cons y ys)
  then show ?case by (cases i) auto
qed simp

lemma release_ok:
  assumes "queue_rel h q" "cancel_inv q" "i < length (readers q)"
  shows "\<exists>q'. release q i = Inr q' \<and> queue_rel h q' \<and> cancel_inv q' \<and> closed q' = closed q \<and>
    readers q' = (readers q)[i := Released]"
proof (cases "readers q ! i = Released")
  case True
  then have "(readers q)[i := Released] = readers q"
    by (metis list_update_id)
  then show ?thesis
    using True assms by (simp add: release_def)
next
  case False
  let ?q = "q\<lparr>readers := (readers q)[i := Released], retaining_readers := retaining_readers q - 1\<rparr>"
  have n: "retaining_readers q = Suc (length (filter (\<lambda>r. r \<noteq> Released) ((readers q)[i := Released])))"
    using assms(1,3) False filter_length_release [of i "readers q"] by (simp add: queue_rel_def queue_inv_def)
  have "queue_rel h ?q"
  proof (rule queue_rel_slots [OF assms(1)])
    show "retaining_readers q - 1 = length (filter (\<lambda>r. r \<noteq> Released) ((readers q)[i := Released]))"
      using n by simp
    fix r c assume r: "r \<in> set ((readers q)[i := Released])" "slot_cursor r = Some c"
    then have "r \<in> set (readers q)"
      using set_update_subset_insert [of "readers q" i Released] by auto
    then show "base_cursor q \<le> c \<and> c \<le> length h"
      using assms(1) r(2) by (auto simp: queue_rel_def queue_inv_def)
  qed
  from queue_rel_reclaim [OF this] obtain q1 where q1: "reclaim_processed_entries ?q = Inr q1"
    "queue_rel h q1" "readers q1 = readers ?q" "retaining_readers q1 = retaining_readers ?q"
    "closed q1 = closed ?q" "cancelled q1 = cancelled ?q"
    by blast
  then have "release q i = Inr (cancel_if_unread q1)"
    using assms(3) False n by (simp add: release_def)
  moreover have "cancel_inv (cancel_if_unread q1)"
    using q1(4,6) assms(2) n by (auto simp: cancel_inv_def)
  ultimately show ?thesis
    using q1 by simp
qed

lemma filter_length_pending:
  "length (filter (\<lambda>r. r \<noteq> Released) xs) =
     length (filter (\<lambda>r. r = Pending) xs) +
     length (filter (\<lambda>r. r \<noteq> Released) (map (\<lambda>r. if r = Pending then Released else r) xs))"
  by (induction xs) auto

lemma release_pending_ok:
  assumes "queue_rel h q" "cancel_inv q"
  shows "\<exists>q'. release_pending q = Inr q' \<and> queue_rel h q' \<and> cancel_inv q' \<and> closed q' = closed q \<and>
    readers q' = map (\<lambda>r. if r = Pending then Released else r) (readers q)"
proof -
  let ?s = "map (\<lambda>r. if r = Pending then Released else r) (readers q)"
  let ?k = "length (filter (\<lambda>r. r = Pending) (readers q))"
  let ?q = "q\<lparr>readers := ?s, retaining_readers := retaining_readers q - ?k\<rparr>"
  have n: "retaining_readers q = ?k + length (filter (\<lambda>r. r \<noteq> Released) ?s)"
    using assms(1) filter_length_pending [of "readers q"] by (simp add: queue_rel_def queue_inv_def)
  have "queue_rel h ?q"
  proof (rule queue_rel_slots [OF assms(1)])
    show "retaining_readers q - ?k = length (filter (\<lambda>r. r \<noteq> Released) ?s)"
      using n by linarith
    fix r c assume r: "r \<in> set ?s" "slot_cursor r = Some c"
    then have "r \<in> set (readers q)"
      by (auto split: if_splits)
    then show "base_cursor q \<le> c \<and> c \<le> length h"
      using assms(1) r(2) unfolding queue_rel_def queue_inv_def by metis
  qed
  from queue_rel_reclaim [OF this] obtain q1 where q1: "reclaim_processed_entries ?q = Inr q1"
    "queue_rel h q1" "readers q1 = readers ?q" "retaining_readers q1 = retaining_readers ?q"
    "closed q1 = closed ?q" "cancelled q1 = cancelled ?q"
    by blast
  moreover have "\<not> retaining_readers q < ?k"
    using n by linarith
  ultimately have "release_pending q = Inr (cancel_if_unread q1)"
    unfolding release_pending_def Let_def by simp
  moreover have "cancel_inv (cancel_if_unread q1)"
    using q1(3,4,6) assms(2) by (auto simp: cancel_inv_def)
  ultimately show ?thesis
    using q1 by simp
qed

section \<open>Interleavings\<close>

text \<open>
  The queue together with what its users hold: whether the producer still owns the queue and the
  plan still owns the reader handle, the consumer streams that exist, the entries sent and the
  entries each consumer received, and the consumers that saw the end of a closed queue.
\<close>

record 't bsystem =
  queue :: "'t queue_state"
  plan_alive :: bool
  live :: "nat set"
  sent :: "'t list"
  got :: "nat \<Rightarrow> 't list"
  ended :: "nat set"

definition bsystem_init :: "nat \<Rightarrow> 't bsystem" where
  "bsystem_init n =
     \<lparr>queue = queue_new n, plan_alive = True, live = {}, sent = [], got = (\<lambda>_. []), ended = {}\<rparr>"

inductive bstep :: "'t bsystem \<Rightarrow> 't bsystem \<Rightarrow> bool" where
  push: "\<not> closed (queue s) \<Longrightarrow> push (queue s) v = Inr (True, q') \<Longrightarrow>
     bstep s (s\<lparr>queue := q', sent := sent s @ [v]\<rparr>)"
| push_unread: "\<not> closed (queue s) \<Longrightarrow> push (queue s) v = Inr (False, q') \<Longrightarrow>
     bstep s (s\<lparr>queue := q'\<rparr>)"
| close: "\<not> closed (queue s) \<Longrightarrow> bstep s (s\<lparr>queue := queue_close (queue s)\<rparr>)"
| claim: "plan_alive s \<Longrightarrow> claim (queue s) i = Inr q' \<Longrightarrow>
     bstep s (s\<lparr>queue := q', live := insert i (live s)\<rparr>)"
| drop_plan: "plan_alive s \<Longrightarrow> release_pending (queue s) = Inr q' \<Longrightarrow>
     bstep s (s\<lparr>queue := q', plan_alive := False\<rparr>)"
| read: "i \<in> live s \<Longrightarrow> poll_read (queue s) i = Inr (Value v, q') \<Longrightarrow>
     bstep s (s\<lparr>queue := q', got := (got s)(i := got s i @ [v])\<rparr>)"
| see_end: "i \<in> live s \<Longrightarrow> poll_read (queue s) i = Inr (NoValue True, q') \<Longrightarrow>
     bstep s (s\<lparr>queue := q', ended := insert i (ended s)\<rparr>)"
| release: "i \<in> live s \<Longrightarrow> release (queue s) i = Inr q' \<Longrightarrow> bstep s (s\<lparr>queue := q'\<rparr>)"
| drop_consumer: "i \<in> live s \<Longrightarrow> release (queue s) i = Inr q' \<Longrightarrow>
     bstep s (s\<lparr>queue := q', live := live s - {i}\<rparr>)"

inductive breach :: "nat \<Rightarrow> 't bsystem \<Rightarrow> bool" for n where
  init: "breach n (bsystem_init n)"
| step: "breach n s \<Longrightarrow> bstep s s' \<Longrightarrow> breach n s'"

text \<open>What a consumer with slot \<open>r\<close> has received of the log \<open>h\<close>.\<close>

fun slot_ok :: "'t list \<Rightarrow> 't list \<Rightarrow> bool \<Rightarrow> reader_slot \<Rightarrow> bool" where
  "slot_ok h g l Pending \<longleftrightarrow> g = [] \<and> \<not> l"
| "slot_ok h g l (Reading c) \<longleftrightarrow> g = take c h"
| "slot_ok h g l Released \<longleftrightarrow> (\<exists>k \<le> length h. g = take k h)"

definition bsystem_inv :: "nat \<Rightarrow> 't bsystem \<Rightarrow> bool" where
  "bsystem_inv n s \<longleftrightarrow>
     queue_rel (sent s) (queue s) \<and> cancel_inv (queue s) \<and> length (readers (queue s)) = n \<and>
     (\<forall>i < n. slot_ok (sent s) (got s i) (i \<in> live s) (readers (queue s) ! i)) \<and>
     (\<forall>i \<in> live s. i < n) \<and>
     (\<forall>i \<in> ended s. i < n \<and> closed (queue s) \<and> got s i = sent s)"

lemma slot_ok_push:
  "slot_ok h g l r \<Longrightarrow> (\<And>c. slot_cursor r = Some c \<Longrightarrow> c \<le> length h) \<Longrightarrow> slot_ok (h @ [v]) g l r"
proof (cases r)
  case Released
  assume "slot_ok h g l r"
  then obtain k where "k \<le> length h" "g = take k h"
    using Released by auto
  then show ?thesis
    using Released by (auto intro!: exI [of _ k])
qed auto

lemma slot_ok_release:
  assumes "slot_ok h g l r" "\<And>c. slot_cursor r = Some c \<Longrightarrow> c \<le> length h"
  shows "slot_ok h g l' Released"
  using assms by (cases r) (auto intro: exI [of _ 0])

lemma bsystem_inv_cursor:
  assumes "bsystem_inv n s" "i < n" "slot_cursor (readers (queue s) ! i) = Some c"
  shows "c \<le> length (sent s)"
  using assms queue_rel_cursor [of "sent s" "queue s" i c] by (simp add: bsystem_inv_def)

lemma bsystem_init_inv: "bsystem_inv n (bsystem_init n)"
  using queue_new_inv [of n]
  by (auto simp: bsystem_inv_def bsystem_init_def queue_rel_def cancel_inv_def queue_new_def)

text \<open>Replacing the reader slots, for the steps that send nothing.\<close>

lemma bsystem_inv_slots:
  assumes "bsystem_inv n s" "queue_rel (sent s) q'" "cancel_inv q'" "closed q' = closed (queue s)"
    "length (readers q') = n" "\<forall>i \<in> l. i < n"
    "\<And>i. i < n \<Longrightarrow> slot_ok (sent s) (got s i) (i \<in> l) (readers q' ! i)"
  shows "bsystem_inv n (s\<lparr>queue := q', live := l\<rparr>)"
  using assms by (simp add: bsystem_inv_def)

lemma bsystem_inv_release:
  assumes "bsystem_inv n s" "i \<in> live s" "release (queue s) i = Inr q'" "l \<subseteq> live s"
  shows "bsystem_inv n (s\<lparr>queue := q', live := l\<rparr>)"
proof -
  have i: "i < n" "length (readers (queue s)) = n"
    using assms(1,2) by (auto simp: bsystem_inv_def)
  have q': "queue_rel (sent s) q'" "cancel_inv q'" "closed q' = closed (queue s)"
    "readers q' = (readers (queue s))[i := Released]"
    using release_ok [of "sent s" "queue s" i] assms(1,3) i by (auto simp: bsystem_inv_def)
  have "slot_ok (sent s) (got s j) (j \<in> l) (readers q' ! j)" if "j < n" for j
  proof -
    have ok: "slot_ok (sent s) (got s j) (j \<in> live s) (readers (queue s) ! j)"
      using assms(1) that by (simp add: bsystem_inv_def)
    then show ?thesis
      using slot_ok_release [OF ok] bsystem_inv_cursor [OF assms(1) that] q'(4) i that assms(4)
      by (cases "j = i"; cases "readers (queue s) ! j") (auto simp: nth_list_update)
  qed
  then show ?thesis
    using assms(1,4) q' i by (intro bsystem_inv_slots) (auto simp: bsystem_inv_def)
qed

lemma poll_read_live:
  assumes "bsystem_inv n s" "i \<in> live s" "poll_read (queue s) i = Inr (r, q')"
  shows "i < n" "r = Gone \<and> q' = queue s \<or> (\<exists>c. readers (queue s) ! i = Reading c \<and>
    got s i = take c (sent s) \<and>
    (if c < length (sent s)
     then r = Value (sent s ! c) \<and>
       q' = (queue s)\<lparr>readers := (readers (queue s))[i := Reading (Suc c)]\<rparr>
     else r = NoValue (closed (queue s)) \<and> q' = queue s))"
proof -
  show i: "i < n"
    using assms(1,2) by (simp add: bsystem_inv_def)
  have rel: "queue_rel (sent s) (queue s)" "i < length (readers (queue s))"
    and ok: "slot_ok (sent s) (got s i) (i \<in> live s) (readers (queue s) ! i)"
    using assms(1) i by (auto simp: bsystem_inv_def)
  show "r = Gone \<and> q' = queue s \<or> (\<exists>c. readers (queue s) ! i = Reading c \<and>
    got s i = take c (sent s) \<and>
    (if c < length (sent s)
     then r = Value (sent s ! c) \<and>
       q' = (queue s)\<lparr>readers := (readers (queue s))[i := Reading (Suc c)]\<rparr>
     else r = NoValue (closed (queue s)) \<and> q' = queue s))"
  proof (cases "readers (queue s) ! i")
    case (Reading c)
    then show ?thesis
      using poll_read_ok(2) [OF rel Reading] assms(3) ok by (auto split: if_splits)
  qed (use assms(2,3) rel(2) ok in \<open>auto simp: poll_read_def\<close>)
qed

lemma bstep_inv:
  assumes "bstep s s'" "bsystem_inv n s"
  shows "bsystem_inv n s'"
  using assms
proof cases
  case (push v q')
  have rel: "queue_rel (sent s) (queue s)"
    using assms(2) by (simp add: bsystem_inv_def)
  have q': "queue_rel (sent s @ [v]) q'" "readers q' = readers (queue s)" "closed q' = closed (queue s)"
    "retaining_readers q' = retaining_readers (queue s)" "cancelled q' = cancelled (queue s)"
    using push_ok [OF rel, of v] push by (auto split: if_splits)
  have "slot_ok (sent s @ [v]) (got s i) (i \<in> live s) (readers (queue s) ! i)" if "i < n" for i
    using assms(2) that bsystem_inv_cursor [OF assms(2) that]
    by (intro slot_ok_push) (auto simp: bsystem_inv_def)
  then show ?thesis
    using assms(2) push(2) q' unfolding push(1) by (simp add: bsystem_inv_def cancel_inv_def)
next
  case (push_unread v q')
  then have "q' = queue s"
    using push_ok [of "sent s" "queue s" v] assms(2) by (auto simp: bsystem_inv_def split: if_splits)
  then show ?thesis
    using assms(2) push_unread by simp
next
  case close
  then show ?thesis
    using assms(2) by (auto simp: bsystem_inv_def queue_close_def queue_rel_def queue_inv_def cancel_inv_def)
next
  case (claim i q')
  have rel: "queue_rel (sent s) (queue s)"
    using assms(2) by (simp add: bsystem_inv_def)
  note c = claim_ok [OF rel claim(3)]
  have "i < n" "got s i = []"
    using assms(2) c(2,3) by (auto simp: bsystem_inv_def)
  then show ?thesis
    unfolding claim(1) using assms(2) c
    by (intro bsystem_inv_slots) (auto simp: bsystem_inv_def cancel_inv_def nth_list_update)
next
  case (drop_plan q')
  obtain q1 where q1: "release_pending (queue s) = Inr q1" "queue_rel (sent s) q1" "cancel_inv q1"
    "closed q1 = closed (queue s)"
    "readers q1 = map (\<lambda>r. if r = Pending then Released else r) (readers (queue s))"
    using release_pending_ok [of "sent s" "queue s"] assms(2) by (auto simp: bsystem_inv_def)
  have "slot_ok (sent s) (got s i) (i \<in> live s) (readers q1 ! i)" if "i < n" for i
  proof -
    have "slot_ok (sent s) (got s i) (i \<in> live s) (readers (queue s) ! i)" "length (readers (queue s)) = n"
      using assms(2) that by (auto simp: bsystem_inv_def)
    then show ?thesis
      using that q1(5) by (cases "readers (queue s) ! i") (auto intro: exI [of _ 0])
  qed
  then have "bsystem_inv n (s\<lparr>queue := q1, live := live s\<rparr>)"
    using assms(2) q1 by (intro bsystem_inv_slots) (auto simp: bsystem_inv_def)
  then show ?thesis
    using drop_plan q1(1) by (simp add: bsystem_inv_def)
next
  case (read i v q')
  obtain c where c: "i < n" "readers (queue s) ! i = Reading c" "c < length (sent s)"
    "v = sent s ! c" "q' = (queue s)\<lparr>readers := (readers (queue s))[i := Reading (Suc c)]\<rparr>"
    "got s i = take c (sent s)"
    using poll_read_live [OF assms(2) read(2,3)] by (auto split: if_splits)
  have rel: "queue_rel (sent s) q'"
    using assms(2) c queue_rel_advance [of "sent s" "queue s" i c] by (simp add: bsystem_inv_def)
  have "i \<notin> ended s"
    using assms(2) c(3,6) by (auto simp: bsystem_inv_def dest!: arg_cong [where f = length])
  then show ?thesis
    using assms(2) rel c unfolding read(1)
    by (auto simp: bsystem_inv_def cancel_inv_def nth_list_update take_Suc_conv_app_nth)
next
  case (see_end i q')
  have "i < n" "q' = queue s" "closed (queue s)" "got s i = sent s"
    using poll_read_live [OF assms(2) see_end(2,3)] by (auto split: if_splits)
  then show ?thesis
    using assms(2) unfolding see_end(1) by (simp add: bsystem_inv_def)
next
  case (release i q')
  then show ?thesis
    using bsystem_inv_release [OF assms(2) release(2,3), of "live s"] by (simp add: release(1))
next
  case (drop_consumer i q')
  then show ?thesis
    using bsystem_inv_release [OF assms(2) drop_consumer(2,3), of "live s - {i}"] by auto
qed


lemma breach_inv: "breach n s \<Longrightarrow> bsystem_inv n s"
  by (induction rule: breach.induct) (auto intro: bsystem_init_inv bstep_inv)

text \<open>The messages the producer forwards: everything up to and including the first error.\<close>

fun forwarded :: "('e \<Rightarrow> 't) \<Rightarrow> ('e + 't) list \<Rightarrow> 't list" where
  "forwarded wrap_err [] = []"
| "forwarded wrap_err (Inr v # msgs) = v # forwarded wrap_err msgs"
| "forwarded wrap_err (Inl e # msgs) = [wrap_err e]"

lemma queue_rel_close [simp]: "queue_rel h (queue_close q) = queue_rel h q"
  by (simp add: queue_rel_def queue_inv_def queue_close_def)

lemma queue_close_simps [simp]: "closed (queue_close q)" "readers (queue_close q) = readers q"
  by (simp_all add: queue_close_def)

lemma produce_forwards:
  assumes "queue_rel h q" "0 < retaining_readers q"
  shows "\<exists>q'. produce q msgs wrap_err = Inr q' \<and> closed q' \<and>
    queue_rel (h @ forwarded wrap_err msgs) q' \<and> readers q' = readers q"
  using assms
proof (induction msgs arbitrary: q h rule: forwarded.induct)
  case (1 wrap_err)
  then show ?case
    by simp
next
  case (2 wrap_err v msgs)
  obtain q1 where q1: "push q v = Inr (True, q1)" "queue_rel (h @ [v]) q1" "readers q1 = readers q"
    "retaining_readers q1 = retaining_readers q"
    using push_ok [OF 2(2), of v] 2(3) by auto
  moreover obtain q2 where "produce q1 msgs wrap_err = Inr q2" "closed q2"
    "queue_rel ((h @ [v]) @ forwarded wrap_err msgs) q2" "readers q2 = readers q1"
    using 2(1) [OF q1(2)] q1(4) 2(3) by metis
  ultimately show ?case
    by simp
next
  case (3 wrap_err e msgs)
  obtain q1 where "push q (wrap_err e) = Inr (True, q1)" "queue_rel (h @ [wrap_err e]) q1"
    "readers q1 = readers q"
    using push_ok [OF 3(1), of "wrap_err e"] 3(2) by auto
  then show ?case
    by simp
qed

section \<open>The operator\<close>

text \<open>
  \<open>BroadcastExec\<close>: one lazily created queue per input partition, \<open>None\<close> until its first
  execution. \<open>run\<close> starts the input on a partition and may fail; \<open>input_runs\<close> records the
  partitions it was started on.
\<close>

record ('e, 't) broadcast_exec =
  input_partition_count :: nat
  consumer_task_count :: nat
  queues :: "('e, 't queue_state) res option list"
  input_runs :: "nat list"

definition broadcast_exec_new :: "nat \<Rightarrow> nat \<Rightarrow> ('e, 't) broadcast_exec" where
  "broadcast_exec_new parts consumers =
     \<lparr>input_partition_count = parts, consumer_task_count = consumers,
      queues = replicate parts None, input_runs = []\<rparr>"

datatype 'e broadcast_exec_error = Shared 'e | Claim claim_error

definition broadcast_exec_execute ::
  "(nat \<Rightarrow> ('e, unit) res) \<Rightarrow> ('e, 't) broadcast_exec \<Rightarrow> nat \<Rightarrow>
     ('e broadcast_exec_error, unit) res \<times> ('e, 't) broadcast_exec" where
  "broadcast_exec_execute run b p =
     (let real_partition = p mod input_partition_count b;
          consumer_task = p div input_partition_count b;
          (queue_or_err, b1) =
            (case queues b ! real_partition of
               Some x \<Rightarrow> (x, b)
             | None \<Rightarrow>
                 (let x = (case run real_partition of
                             Inl e \<Rightarrow> Inl e
                           | Inr _ \<Rightarrow> Inr (queue_new (consumer_task_count b)))
                  in (x, b\<lparr>queues := (queues b)[real_partition := Some x],
                           input_runs := input_runs b @ [real_partition]\<rparr>)))
      in case queue_or_err of
           Inl e \<Rightarrow> (Inl (Shared e), b1)
         | Inr q \<Rightarrow>
             (case claim q consumer_task of
                Inl ce \<Rightarrow> (Inl (Claim ce), b1)
              | Inr q' \<Rightarrow> (Inr (), b1\<lparr>queues := (queues b1)[real_partition := Some (Inr q')]\<rparr>)))"

fun broadcast_exec_all ::
  "(nat \<Rightarrow> ('e, unit) res) \<Rightarrow> ('e, 't) broadcast_exec \<Rightarrow> nat list \<Rightarrow>
     ('e broadcast_exec_error, unit) res list \<times> ('e, 't) broadcast_exec" where
  "broadcast_exec_all run b [] = ([], b)"
| "broadcast_exec_all run b (p # ps) =
     (let (r, b1) = broadcast_exec_execute run b p; (rs, b2) = broadcast_exec_all run b1 ps
      in (r # rs, b2))"

text \<open>The virtual partitions whose reader is still unclaimed.\<close>

fun slot_unclaimed :: "nat \<Rightarrow> ('e, 't queue_state) res option \<Rightarrow> bool" where
  "slot_unclaimed c None = True"
| "slot_unclaimed c (Some (Inl _)) = False"
| "slot_unclaimed c (Some (Inr q)) = (readers q ! c = Pending)"

definition unclaimed :: "('e, 't) broadcast_exec \<Rightarrow> nat \<Rightarrow> bool" where
  "unclaimed b p =
     slot_unclaimed (p div input_partition_count b) (queues b ! (p mod input_partition_count b))"

fun queue_slot_ok ::
  "(nat \<Rightarrow> ('e, unit) res) \<Rightarrow> nat \<Rightarrow> nat \<Rightarrow> ('e, 't queue_state) res option \<Rightarrow> bool" where
  "queue_slot_ok run C k None = True"
| "queue_slot_ok run C k (Some (Inl e)) = (run k = Inl e)"
| "queue_slot_ok run C k (Some (Inr q)) = (run k = Inr () \<and> length (readers q) = C)"

definition bexec_inv :: "(nat \<Rightarrow> ('e, unit) res) \<Rightarrow> ('e, 't) broadcast_exec \<Rightarrow> bool" where
  "bexec_inv run b \<longleftrightarrow>
     0 < input_partition_count b \<and> length (queues b) = input_partition_count b \<and>
     distinct (input_runs b) \<and>
     (\<forall>k < input_partition_count b. (k \<in> set (input_runs b)) = (queues b ! k \<noteq> None)) \<and>
     set (input_runs b) \<subseteq> {..<input_partition_count b} \<and>
     (\<forall>k < input_partition_count b. queue_slot_ok run (consumer_task_count b) k (queues b ! k))"

definition set_queue :: "nat \<Rightarrow> ('e, 't queue_state) res \<Rightarrow> ('e, 't) broadcast_exec \<Rightarrow> ('e, 't) broadcast_exec" where
  "set_queue k x b =
     b\<lparr>queues := (queues b)[k := Some x],
       input_runs := (if queues b ! k = None then input_runs b @ [k] else input_runs b)\<rparr>"

lemma set_queue_inv:
  assumes "bexec_inv run b" "k < input_partition_count b"
    "queue_slot_ok run (consumer_task_count b) k (Some x)"
  shows "bexec_inv run (set_queue k x b)"
  using assms by (auto simp: bexec_inv_def set_queue_def nth_list_update)

lemma broadcast_exec_execute_cases:
  assumes "bexec_inv run b" "p < input_partition_count b * consumer_task_count b"
  defines "k \<equiv> p mod input_partition_count b" and "c \<equiv> p div input_partition_count b"
  obtains
    (failed) e where "run k = Inl e" "broadcast_exec_execute run b p = (Inl (Shared e), set_queue k (Inl e) b)"
  | (ok) q where "run k = Inr ()" "queues b ! k = None \<and> q = queue_new (consumer_task_count b) \<or> queues b ! k = Some (Inr q)"
      "length (readers q) = consumer_task_count b" "readers q ! c = Pending"
      "broadcast_exec_execute run b p =
         (Inr (), set_queue k (Inr (q\<lparr>readers := (readers q)[c := Reading 0]\<rparr>)) b)"
  | (twice) q where "run k = Inr ()" "queues b ! k = Some (Inr q)" "readers q ! c \<noteq> Pending"
      "broadcast_exec_execute run b p = (Inl (Claim (ClaimedTwice c)), b)"
proof -
  have k: "k < input_partition_count b" "k < length (queues b)"
    using assms(1) by (auto simp: bexec_inv_def k_def)
  have c: "c < consumer_task_count b"
    using assms(2) by (simp add: c_def less_mult_imp_div_less mult.commute)
  have slot: "queue_slot_ok run (consumer_task_count b) k (queues b ! k)"
    using assms(1) k(1) unfolding bexec_inv_def by blast
  note defs = broadcast_exec_execute_def Let_def k_def [symmetric] c_def [symmetric] set_queue_def
  show thesis
  proof (cases "queues b ! k")
    case None
    show thesis
    proof (cases "run k")
      case (Inl e)
      then show thesis
        using None by (intro failed) (simp_all add: defs)
    next
      case (Inr u)
      then show thesis
        using None c k by (intro ok [of "queue_new (consumer_task_count b)"])
          (simp_all add: defs claim_def queue_new_def)
    qed
  next
    case (Some x)
    show thesis
    proof (cases x)
      case (Inl e)
      then have "set_queue k (Inl e) b = b"
        using Some by (simp add: set_queue_def list_update_same_conv k)
      then show thesis
        using Some Inl slot by (intro failed [of e]) (simp_all add: broadcast_exec_execute_def Let_def k_def)
    next
      case (Inr q)
      have l: "run k = Inr ()" "length (readers q) = consumer_task_count b"
        using slot Some Inr by auto
      show thesis
      proof (cases "readers q ! c = Pending")
        case True
        then show thesis
          using Some Inr l c by (intro ok [of q]) (simp_all add: defs claim_def)
      next
        case False
        then show thesis
          using Some Inr l c
          by (intro twice [of q]) (auto simp: defs claim_def split: reader_slot.splits)
      qed
    qed
  qed
qed

lemma unclaimed_set_queue_other:
  assumes "bexec_inv run b" "k < input_partition_count b" "p' mod input_partition_count b \<noteq> k"
  shows "unclaimed (set_queue k x b) p' = unclaimed b p'"
  using assms by (simp add: unclaimed_def set_queue_def)

lemma broadcast_exec_execute_props:
  assumes "bexec_inv run b" "p < input_partition_count b * consumer_task_count b"
    "run (p mod input_partition_count b) = Inr ()"
  shows "fst (broadcast_exec_execute run b p) = Inr () \<longleftrightarrow> unclaimed b p"
    and "p' < input_partition_count b * consumer_task_count b \<Longrightarrow>
      unclaimed (snd (broadcast_exec_execute run b p)) p' \<longleftrightarrow> unclaimed b p' \<and> p' \<noteq> p"
proof -
  let ?n = "input_partition_count b"
  let ?k = "p mod ?n" and ?c = "p div ?n"
  have k: "?k < ?n" "?k < length (queues b)"
    using assms(1) by (auto simp: bexec_inv_def)
  have same: "p' = p" if "p' mod ?n = ?k" "p' div ?n = ?c" for p'
    using that by (metis div_mult_mod_eq)
  have "(fst (broadcast_exec_execute run b p) = Inr () \<longleftrightarrow> unclaimed b p) \<and>
      (p' < ?n * consumer_task_count b \<longrightarrow>
        (unclaimed (snd (broadcast_exec_execute run b p)) p' \<longleftrightarrow> unclaimed b p' \<and> p' \<noteq> p))"
    using assms(1,2)
  proof (cases rule: broadcast_exec_execute_cases)
    case (failed e)
    then show ?thesis using assms(3) by simp
  next
    case (ok q)
    have new: "unclaimed b p"
      using ok(2,4) by (auto simp: unclaimed_def)
    have "unclaimed (set_queue ?k (Inr (q\<lparr>readers := (readers q)[?c := Reading 0]\<rparr>)) b) p' \<longleftrightarrow>
        unclaimed b p' \<and> p' \<noteq> p" if "p' < ?n * consumer_task_count b" for p'
    proof (cases "p' mod ?n = ?k")
      case True
      have "p' div ?n < consumer_task_count b"
        using that by (simp add: less_mult_imp_div_less mult.commute)
      then have "unclaimed b p' \<longleftrightarrow> readers q ! (p' div ?n) = Pending"
        using ok(2) True by (auto simp: unclaimed_def queue_new_def)
      moreover have "unclaimed (set_queue ?k (Inr (q\<lparr>readers := (readers q)[?c := Reading 0]\<rparr>)) b) p' \<longleftrightarrow>
          (readers q)[?c := Reading 0] ! (p' div ?n) = Pending"
        using True k by (simp add: unclaimed_def set_queue_def)
      moreover have "p' div ?n = ?c \<longleftrightarrow> p' = p"
        using same [OF True] by blast
      ultimately show ?thesis
        using ok(3) \<open>p' div ?n < consumer_task_count b\<close>
        by (cases "p' = p") (auto simp: nth_list_update)
    next
      case False
      then show ?thesis
        using unclaimed_set_queue_other [OF assms(1) k(1)] by auto
    qed
    then show ?thesis
      using ok(5) new by simp
  next
    case (twice q)
    then have "\<not> unclaimed b p"
      by (simp add: unclaimed_def)
    then show ?thesis
      using twice by auto
  qed
  then show "fst (broadcast_exec_execute run b p) = Inr () \<longleftrightarrow> unclaimed b p"
    and "p' < input_partition_count b * consumer_task_count b \<Longrightarrow>
      unclaimed (snd (broadcast_exec_execute run b p)) p' \<longleftrightarrow> unclaimed b p' \<and> p' \<noteq> p"
    by blast+
qed

lemma broadcast_exec_execute_inv:
  assumes "bexec_inv run b" "p < input_partition_count b * consumer_task_count b"
  shows "bexec_inv run (snd (broadcast_exec_execute run b p)) \<and>
    input_partition_count (snd (broadcast_exec_execute run b p)) = input_partition_count b \<and>
    consumer_task_count (snd (broadcast_exec_execute run b p)) = consumer_task_count b"
proof -
  have k: "p mod input_partition_count b < input_partition_count b"
    using assms(1) by (simp add: bexec_inv_def)
  show ?thesis
    using assms
  proof (cases rule: broadcast_exec_execute_cases)
    case (failed e)
    then show ?thesis
      using set_queue_inv [OF assms(1) k, of "Inl e"] by (simp add: set_queue_def)
  next
    case (ok q)
    then show ?thesis
      using set_queue_inv [OF assms(1) k, of "Inr (q\<lparr>readers := (readers q)[p div input_partition_count b := Reading 0]\<rparr>)"]
      by (simp add: set_queue_def)
  next
    case (twice q)
    then show ?thesis
      using assms(1) by simp
  qed
qed

lemma broadcast_exec_all_inv:
  assumes "bexec_inv run b" "\<forall>p \<in> set ps. p < input_partition_count b * consumer_task_count b"
  shows "bexec_inv run (snd (broadcast_exec_all run b ps))"
  using assms
proof (induction ps arbitrary: b)
  case (Cons p ps)
  then show ?case
    using broadcast_exec_execute_inv [OF Cons.prems(1), of p]
      Cons.IH [of "snd (broadcast_exec_execute run b p)"]
    by (simp add: split_def Let_def)
qed simp

lemma broadcast_exec_all_ok:
  assumes "bexec_inv (\<lambda>_. Inr ()) b"
    "\<forall>p \<in> set ps. p < input_partition_count b * consumer_task_count b"
  shows "(\<forall>r \<in> set (fst (broadcast_exec_all (\<lambda>_. Inr ()) b ps)). r = Inr ()) \<longleftrightarrow>
    distinct ps \<and> (\<forall>p \<in> set ps. unclaimed b p)"
  using assms
proof (induction ps arbitrary: b)
  case (Cons p ps)
  let ?b = "snd (broadcast_exec_execute (\<lambda>_. Inr ()) b p)"
  have "(\<forall>r \<in> set (fst (broadcast_exec_all (\<lambda>_. Inr ()) ?b ps)). r = Inr ()) \<longleftrightarrow>
      distinct ps \<and> (\<forall>p' \<in> set ps. unclaimed ?b p')"
    using broadcast_exec_execute_inv [OF Cons.prems(1), of p] Cons.prems(2) by (intro Cons.IH) auto
  also have "\<dots> \<longleftrightarrow> distinct ps \<and> (\<forall>p' \<in> set ps. unclaimed b p' \<and> p' \<noteq> p)"
    using broadcast_exec_execute_props(2) [OF Cons.prems(1), of p] Cons.prems(2) by simp
  finally show ?case
    using broadcast_exec_execute_props(1) [OF Cons.prems(1), of p] Cons.prems(2)
    by (auto simp: split_def Let_def)
qed simp

lemma broadcast_exec_new_inv: "0 < n \<Longrightarrow> bexec_inv run (broadcast_exec_new n C)"
  by (simp add: bexec_inv_def broadcast_exec_new_def)

lemma broadcast_exec_new_sizes [simp]:
  "input_partition_count (broadcast_exec_new n C) = n"
  "consumer_task_count (broadcast_exec_new n C) = C"
  by (simp_all add: broadcast_exec_new_def)

lemma broadcast_exec_new_unclaimed: "0 < n \<Longrightarrow> unclaimed (broadcast_exec_new n C) p"
  by (simp add: unclaimed_def broadcast_exec_new_def)

section \<open>Properties\<close>

text \<open>C17. Under every interleaving of producer, plan and consumers, what a consumer has received is
  a prefix of what was sent, in order, and a consumer that sees the end of the stream has received
  everything: eviction never loses an entry a reader still needs.\<close>

theorem broadcast_consumers_read_everything:
  assumes "breach n s" "i < n"
  shows "(\<exists>k \<le> length (sent s). got s i = take k (sent s)) \<and> (i \<in> ended s \<longrightarrow> got s i = sent s)"
proof -
  note inv = breach_inv [OF assms(1)]
  have "slot_ok (sent s) (got s i) (i \<in> live s) (readers (queue s) ! i)"
    using inv assms(2) by (simp add: bsystem_inv_def)
  then have "slot_ok (sent s) (got s i) (i \<in> live s) Released"
    using bsystem_inv_cursor [OF inv assms(2)] by (rule slot_ok_release)
  then show ?thesis
    using inv by (auto simp: bsystem_inv_def)
qed


text \<open>The producer is cancelled exactly when the last reader is gone, and from then on
  appending is refused.\<close>

theorem broadcast_cancelled_iff_unread:
  assumes "breach n s" "0 < n"
  shows "(cancelled (queue s) \<longleftrightarrow> (\<forall>r \<in> set (readers (queue s)). r = Released)) \<and>
    (cancelled (queue s) \<longleftrightarrow> push (queue s) v = Inr (False, queue s))"
proof -
  let ?q = "queue s"
  have rel: "queue_rel (sent s) ?q" "cancel_inv ?q" "length (readers ?q) = n"
    using breach_inv [OF assms(1)] unfolding bsystem_inv_def by blast+
  have c: "cancelled ?q \<longleftrightarrow> retaining_readers ?q = 0"
    using rel(2,3) assms(2) unfolding cancel_inv_def by fastforce
  have "retaining_readers ?q = length (filter (\<lambda>r. r \<noteq> Released) (readers ?q))"
    using rel(1) unfolding queue_rel_def queue_inv_def by blast
  then have r: "retaining_readers ?q = 0 \<longleftrightarrow> (\<forall>r \<in> set (readers ?q). r = Released)"
    by (simp add: filter_empty_conv)
  have p: "retaining_readers ?q = 0 \<longleftrightarrow> push ?q v = Inr (False, ?q)"
    using push_ok [OF rel(1), of v] by (cases "retaining_readers ?q = 0") auto
  show ?thesis
    using r p unfolding c by (intro conjI)
qed



lemma claimed_reachable:
  "breach 1 (\<lparr>queue = (queue_new 1)\<lparr>readers := [Reading 0]\<rparr>, plan_alive = True, live = {0},
     sent = [], got = (\<lambda>_. []), ended = {}\<rparr> :: nat bsystem)"
proof -
  have "bstep (bsystem_init 1) (\<lparr>queue = (queue_new 1)\<lparr>readers := [Reading 0]\<rparr>, plan_alive = True,
      live = {0}, sent = [], got = (\<lambda>_. []), ended = {}\<rparr> :: nat bsystem)"
    using bstep.claim [of "bsystem_init 1 :: nat bsystem" 0 "(queue_new 1)\<lparr>readers := [Reading 0]\<rparr>"]
    by (simp add: bsystem_init_def claim_def queue_new_def)
  then show ?thesis
    by (rule breach.step [OF breach.init])
qed

theorem broadcast_consumers_read_everything_witness:
  "breach 1 (\<lparr>queue = (queue_new 1)\<lparr>readers := [Reading 0]\<rparr>, plan_alive = True, live = {0},
      sent = [], got = (\<lambda>_. []), ended = {}\<rparr> :: nat bsystem) \<and>
   (\<exists>k \<le> length ([]::nat list). ([]::nat list) = take k [])"
proof -
  let ?s = "\<lparr>queue = (queue_new 1)\<lparr>readers := [Reading 0]\<rparr>, plan_alive = True, live = {0},
      sent = [], got = (\<lambda>_. []), ended = {}\<rparr> :: nat bsystem"
  have r: "breach 1 ?s"
    by (rule claimed_reachable)
  show ?thesis
    using broadcast_consumers_read_everything [OF r, of 0] r by simp
qed


theorem broadcast_cancelled_iff_unread_witness:
  "(cancelled (queue_new 2 :: nat queue_state) \<longleftrightarrow> push (queue_new 2) (7::nat) = Inr (False, queue_new 2))"
  using broadcast_cancelled_iff_unread [OF breach.init [of 2], of "7::nat"]
  by (simp add: bsystem_init_def) blast


text \<open>An uninterrupted producer with a reader left forwards every message of its input up to
  and including the first error, in order, and then closes the queue.\<close>

theorem produce_forwards_input:
  assumes "queue_rel h q" "0 < retaining_readers q"
  shows "\<exists>q'. produce q msgs wrap_err = Inr q' \<and> closed q' \<and>
    queue_rel (h @ forwarded wrap_err msgs) q' \<and> readers q' = readers q"
  using produce_forwards [OF assms] .

theorem produce_forwards_input_witness:
  "\<exists>q'. produce (queue_new 1) [Inr 5, Inl (), Inr 6] (\<lambda>_. 99) = Inr q' \<and>
     queue_rel [5, 99 :: nat] q'"
proof -
  have "queue_rel [] (queue_new 1 :: nat queue_state)" "0 < retaining_readers (queue_new 1 :: nat queue_state)"
    using queue_new_inv [of 1] by (auto simp: queue_rel_def queue_new_def)
  from produce_forwards_input [OF this, of "[Inr 5, Inl (), Inr 6]" "\<lambda>_. 99"] show ?thesis
    by auto
qed

text \<open>A poll that runs uninterrupted never panics: it delivers the reader's next entry of the
  log if there is one, ends and releases the reader when the queue is closed, and otherwise waits
  as long as the notification stream does.\<close>

theorem poll_next_delivers:
  assumes "queue_rel h q" "cancel_inv q" "i < length (readers q)" "readers q ! i = Reading c"
  shows "\<exists>r q'. poll_next i q notify = Inr (r, q') \<and> queue_rel h q' \<and>
    (if c < length h then r = ReadySome (h ! c) \<and> queue_cursor q' i = Some (Suc c)
     else if closed q then r = ReadyNone \<and> readers q' ! i = Released
     else r = (if False \<in> set notify then ReadyNone else PollPending))"
proof (cases "c < length h")
  case True
  then show ?thesis
    using poll_read_ok(2) [OF assms(1,3,4)] queue_rel_advance [OF assms(1,3,4) True] assms(3)
    by (simp add: queue_cursor_def)
next
  case False
  obtain q1 where q1: "release q i = Inr q1" "queue_rel h q1" "readers q1 = (readers q)[i := Released]"
    using release_ok [OF assms(1,2,3)] by blast
  show ?thesis
  proof (cases "closed q")
    case True
    then show ?thesis
      using False poll_read_ok(2) [OF assms(1,3,4)] q1 assms(3) by simp
  next
    case nclosed: False
    have read: "poll_read q i = Inr (NoValue False, q)"
      using False nclosed poll_read_ok(2) [OF assms(1,3,4)] by simp
    have "\<exists>q'. poll_next i q notify = Inr (if False \<in> set notify then ReadyNone else PollPending, q') \<and>
        queue_rel h q'"
    proof (induction notify)
      case Nil
      then show ?case
        using read assms(1) by simp
    next
      case (Cons b bs)
      then show ?case
        using read q1 by (cases b) auto
    qed
    then show ?thesis
      using False nclosed by auto
  qed
qed

theorem poll_next_delivers_witness:
  "\<exists>r q'. poll_next 0 \<lparr>entries = [11 :: nat], base_cursor = 1, tail_cursor = 2, readers = [Reading 1],
      retaining_readers = 1, closed = False, cancelled = False\<rparr> [] = Inr (r, q') \<and> r = ReadySome 11"
proof -
  let ?q = "\<lparr>entries = [11 :: nat], base_cursor = 1, tail_cursor = 2, readers = [Reading 1],
      retaining_readers = 1, closed = False, cancelled = False\<rparr>"
  have "queue_rel [10, 11] ?q" "cancel_inv ?q" "0 < length (readers ?q)" "readers ?q ! 0 = Reading 1"
    by (simp_all add: queue_rel_def queue_inv_def cancel_inv_def)
  from poll_next_delivers [OF this, of "[]"] show ?thesis
    by auto
qed


text \<open>However its virtual partitions are executed, a broadcast starts every input partition at
  most once; and with a healthy input, executions succeed exactly when no virtual partition is
  executed twice.\<close>

theorem broadcast_exec_runs_input_once:
  assumes "0 < n" "\<forall>p \<in> set ps. p < n * C"
  shows "distinct (input_runs (snd (broadcast_exec_all run (broadcast_exec_new n C) ps))) \<and>
    ((\<forall>r \<in> set (fst (broadcast_exec_all (\<lambda>_. Inr ()) (broadcast_exec_new n C :: ('e, 't) broadcast_exec) ps)).
        r = Inr ()) \<longleftrightarrow> distinct ps)"
proof -
  let ?b = "broadcast_exec_new n C :: ('e, 't) broadcast_exec"
  have "bexec_inv run (snd (broadcast_exec_all run (broadcast_exec_new n C) ps))"
    using assms by (intro broadcast_exec_all_inv broadcast_exec_new_inv) simp_all
  then have "distinct (input_runs (snd (broadcast_exec_all run (broadcast_exec_new n C) ps)))"
    unfolding bexec_inv_def by blast
  moreover have "(\<forall>r \<in> set (fst (broadcast_exec_all (\<lambda>_. Inr ()) ?b ps)). r = Inr ()) \<longleftrightarrow>
      distinct ps \<and> (\<forall>p \<in> set ps. unclaimed ?b p)"
    using assms by (intro broadcast_exec_all_ok broadcast_exec_new_inv) simp_all
  ultimately show ?thesis
    using assms by (simp add: broadcast_exec_new_unclaimed)
qed

theorem broadcast_exec_runs_input_once_witness:
  "distinct (input_runs (snd (broadcast_exec_all (\<lambda>_. Inr () :: (unit, unit) res)
     (broadcast_exec_new 2 3 :: (unit, nat) broadcast_exec) [0, 3, 4, 5])))"
proof -
  have "\<forall>p \<in> set [0, 3, 4, 5]. p < 2 * (3::nat)"
    by simp
  then show ?thesis
    using broadcast_exec_runs_input_once by (metis zero_less_numeral)
qed

end
