(* ===== verification/ErrorCodec.thy ===== *)
theory ErrorCodec
  imports Prelude "HOL-Library.Word"
begin

text \<open>
  How an error crosses the network (\<open>src/src/protocol/grpc/errors\<close>): every error type has a
  Protobuf message, a conversion into it and a conversion back. This theory holds what the
  conversions share: the rule by which the Protobuf library reads a \<open>oneof\<close> field, decimal
  rendering of integers, and the contract \<open>error_codec\<close> that every pair of conversions meets,
  with the consequences for an error that crosses several network boundaries.

  Errors that the program only holds behind \<open>Box<dyn Error>\<close> are represented by their rendered
  text, since that is all the conversions read of them.
\<close>

section \<open>Reading a oneof field\<close>

text \<open>
  The attribute \<open>#[prost(oneof = .., tags = ..)]\<close> lists the field tags that the decoder accepts
  for a \<open>oneof\<close>; a variant whose own tag is missing from the list is skipped as an unknown field
  and the \<open>oneof\<close> stays unset.
\<close>

definition oneof_known :: "nat list \<Rightarrow> ('v \<Rightarrow> nat) \<Rightarrow> 'v option \<Rightarrow> 'v option" where
  "oneof_known tags tag inner =
     (case inner of
        None \<Rightarrow> None
      | Some v \<Rightarrow> if tag v \<in> set tags then Some v else None)"

lemma oneof_known_simps [simp]:
  "oneof_known tags tag None = None"
  "tag v \<in> set tags \<Longrightarrow> oneof_known tags tag (Some v) = Some v"
  "tag v \<notin> set tags \<Longrightarrow> oneof_known tags tag (Some v) = None"
  by (simp_all add: oneof_known_def)

lemma oneof_known_all:
  assumes "\<And>v. tag v \<in> set tags"
  shows "oneof_known tags tag inner = inner"
  using assms by (cases inner) simp_all

lemma oneof_known_idem: "oneof_known tags tag (oneof_known tags tag inner) = oneof_known tags tag inner"
  by (cases inner) (simp_all add: oneof_known_def)

text \<open>A message inside an optional or repeated field travels as it would alone.\<close>

lemma map_option_same: "(\<And>x. f x = x) \<Longrightarrow> map_option f y = y"
  by (cases y) simp_all

lemma map_same_iff: "map f xs = xs \<longleftrightarrow> (\<forall>x \<in> set xs. f x = x)"
  by (induction xs) auto

section \<open>Decimal rendering\<close>

text \<open>\<open>{}\<close> applied to an unsigned integer.\<close>

fun show_nat :: "nat \<Rightarrow> string" where
  "show_nat n =
     (if n < 10 then [char_of (48 + n)] else show_nat (n div 10) @ [char_of (48 + n mod 10)])"

declare show_nat.simps [simp del]

section \<open>The contract of a pair of conversions\<close>

text \<open>
  \<open>to_proto\<close> and \<open>of_proto\<close> are the two conversions and \<open>wire\<close> is what remains of a message
  after encoding and decoding. The provider names the error that the peer recovers.
\<close>

locale error_hop =
  fixes to_proto :: "'e \<Rightarrow> 'p"
    and wire :: "'p \<Rightarrow> 'p"
    and of_proto :: "'p \<Rightarrow> 'e"
    and recovered :: "'e \<Rightarrow> 'e"
  assumes recovers: "of_proto (wire (to_proto e)) = recovered e"
begin

lemma hops: "((\<lambda>e. of_proto (wire (to_proto e))) ^^ n) e = (recovered ^^ n) e"
  by (simp add: recovers)

lemma faithful_iff: "(\<forall>n. ((\<lambda>e. of_proto (wire (to_proto e))) ^^ n) e = e) \<longleftrightarrow> recovered e = e"
proof
  assume "\<forall>n. ((\<lambda>e. of_proto (wire (to_proto e))) ^^ n) e = e"
  then have "((\<lambda>e. of_proto (wire (to_proto e))) ^^ 1) e = e"
    by blast
  then show "recovered e = e"
    by (simp add: recovers)
next
  assume same: "recovered e = e"
  have "(recovered ^^ n) e = e" for n
    by (induction n) (simp_all add: same)
  then show "\<forall>n. ((\<lambda>e. of_proto (wire (to_proto e))) ^^ n) e = e"
    by (simp add: hops)
qed

end

text \<open>
  A recovered error settles: from the second boundary on it no longer changes. Most conversions
  settle at the first boundary, which is the stronger contract \<open>stable_codec\<close>.
\<close>

locale error_codec = error_hop +
  assumes settles: "recovered (recovered (recovered e)) = recovered (recovered e)"
begin

lemma later_hops:
  "((\<lambda>e. of_proto (wire (to_proto e))) ^^ (n + 2)) e = recovered (recovered e)"
  unfolding hops by (induction n) (simp_all add: settles)

end

locale stable_codec = error_hop +
  assumes recovered_idem: "recovered (recovered e) = recovered e"
begin

lemma first_hop_decides: "((\<lambda>e. of_proto (wire (to_proto e))) ^^ Suc n) e = recovered e"
  unfolding hops by (induction n) (simp_all add: recovered_idem)

end

sublocale stable_codec \<subseteq> error_codec
  by unfold_locales (simp add: recovered_idem)

end
