(* ===== verification/LeafErrors.thy ===== *)
theory LeafErrors
  imports ErrorCodec
begin

text \<open>
  The conversions of the errors that contain no other error: \<open>std::io::Error\<close>, the SQL parser's
  and Parquet's errors, and the errors of the object store (\<open>io_error.rs\<close>, \<open>parser_error.rs\<close>,
  \<open>parquet_error.rs\<close> and \<open>objectstore_error.rs\<close>). Each section has the library's error type as
  the conversions see it, the message, the two conversions, what the peer recovers, and the
  interpretation of the contract.
\<close>

section \<open>I/O errors\<close>

text \<open>
  The kinds of \<open>std::io::Error\<close> the conversion names, and \<open>KindUnlisted\<close> for every kind that
  falls into its wildcard.
\<close>

datatype error_kind =
    NotFound | PermissionDenied | ConnectionRefused | ConnectionReset | HostUnreachable
  | NetworkUnreachable | ConnectionAborted | NotConnected | AddrInUse | AddrNotAvailable
  | NetworkDown | BrokenPipe | AlreadyExists | WouldBlock | NotADirectory | IsADirectory
  | DirectoryNotEmpty | ReadOnlyFilesystem | StaleNetworkFileHandle | InvalidInput | InvalidData
  | TimedOut | WriteZero | StorageFull | NotSeekable | FileTooLarge | ResourceBusy
  | ExecutableFileBusy | Deadlock | TooManyLinks | ArgumentListTooLong | Interrupted | Unsupported
  | UnexpectedEof | OutOfMemory | KindOther | KindUnlisted

record io_error =
  io_kind :: error_kind
  io_text :: string

record io_error_proto =
  io_msg :: string
  io_code :: int
  io_err :: string

fun kind_code :: "error_kind \<Rightarrow> int" where
  "kind_code NotFound = 0"
| "kind_code PermissionDenied = 1"
| "kind_code ConnectionRefused = 2"
| "kind_code ConnectionReset = 3"
| "kind_code HostUnreachable = 4"
| "kind_code NetworkUnreachable = 5"
| "kind_code ConnectionAborted = 6"
| "kind_code NotConnected = 7"
| "kind_code AddrInUse = 8"
| "kind_code AddrNotAvailable = 9"
| "kind_code NetworkDown = 10"
| "kind_code BrokenPipe = 11"
| "kind_code AlreadyExists = 12"
| "kind_code WouldBlock = 13"
| "kind_code NotADirectory = 14"
| "kind_code IsADirectory = 15"
| "kind_code DirectoryNotEmpty = 16"
| "kind_code ReadOnlyFilesystem = 17"
| "kind_code StaleNetworkFileHandle = 18"
| "kind_code InvalidInput = 19"
| "kind_code InvalidData = 20"
| "kind_code TimedOut = 21"
| "kind_code WriteZero = 22"
| "kind_code StorageFull = 23"
| "kind_code NotSeekable = 24"
| "kind_code FileTooLarge = 25"
| "kind_code ResourceBusy = 26"
| "kind_code ExecutableFileBusy = 27"
| "kind_code Deadlock = 28"
| "kind_code TooManyLinks = 29"
| "kind_code ArgumentListTooLong = 30"
| "kind_code Interrupted = 31"
| "kind_code Unsupported = 32"
| "kind_code UnexpectedEof = 33"
| "kind_code OutOfMemory = 34"
| "kind_code KindOther = 35"
| "kind_code KindUnlisted = - 1"

definition from_io_error :: "string \<Rightarrow> io_error \<Rightarrow> io_error_proto" where
  "from_io_error msg err = \<lparr>io_msg = msg, io_code = kind_code (io_kind err), io_err = io_text err\<rparr>"

text \<open>The arms of the match on the code, in order; every other code is \<open>ErrorKind::Other\<close>.\<close>

definition code_kinds :: "(int \<times> error_kind) list" where
  "code_kinds =
     [(0, NotFound), (1, PermissionDenied), (2, ConnectionRefused), (3, ConnectionReset),
      (4, HostUnreachable), (5, NetworkUnreachable), (6, ConnectionAborted), (7, NotConnected),
      (8, AddrInUse), (9, AddrNotAvailable), (10, NetworkDown), (11, BrokenPipe),
      (12, AlreadyExists), (13, WouldBlock), (14, NotADirectory), (15, IsADirectory),
      (16, DirectoryNotEmpty), (17, ReadOnlyFilesystem), (18, StaleNetworkFileHandle),
      (19, InvalidInput), (20, InvalidData), (21, TimedOut), (22, WriteZero), (23, StorageFull),
      (24, NotSeekable), (25, FileTooLarge), (26, ResourceBusy), (27, ExecutableFileBusy),
      (28, Deadlock), (29, TooManyLinks), (30, ArgumentListTooLong), (31, Interrupted),
      (32, Unsupported), (33, UnexpectedEof), (34, OutOfMemory), (35, KindOther)]"

definition code_kind :: "int \<Rightarrow> error_kind" where
  "code_kind c = (case map_of code_kinds c of Some k \<Rightarrow> k | None \<Rightarrow> KindOther)"

definition to_io_error :: "io_error_proto \<Rightarrow> io_error \<times> string" where
  "to_io_error p = (\<lparr>io_kind = code_kind (io_code p), io_text = io_err p\<rparr>, io_msg p)"

text \<open>A peer recovers an I/O error with its kind, except that an unlisted kind becomes \<open>Other\<close>.\<close>

definition recovered_kind :: "error_kind \<Rightarrow> error_kind" where
  "recovered_kind k = (if k = KindUnlisted then KindOther else k)"

definition recovered_io :: "io_error \<Rightarrow> io_error" where
  "recovered_io e = e\<lparr>io_kind := recovered_kind (io_kind e)\<rparr>"

lemma code_kind_code [simp]: "code_kind (kind_code k) = recovered_kind k"
  by (cases k) (simp_all add: code_kind_def code_kinds_def recovered_kind_def)

lemma recovered_io_idem [simp]: "recovered_io (recovered_io e) = recovered_io e"
  by (simp add: recovered_io_def recovered_kind_def)

lemma to_from_io_error [simp]: "to_io_error (from_io_error msg e) = (recovered_io e, msg)"
  by (simp add: to_io_error_def from_io_error_def recovered_io_def)

interpretation io_codec: stable_codec
  "\<lambda>(e, msg). from_io_error msg e" "\<lambda>p. p" to_io_error "\<lambda>(e, msg). (recovered_io e, msg)"
  by unfold_locales auto

section \<open>SQL parser errors\<close>

datatype parser_error =
    TokenizerError string
  | ParserError string
  | RecursionLimitExceeded

datatype parser_error_inner_proto =
    TokenizerError_p string
  | ParserError_p string
  | RecursionLimitExceeded_p bool

record parser_error_proto =
  parser_inner :: "parser_error_inner_proto option"

fun parser_tag :: "parser_error_inner_proto \<Rightarrow> nat" where
  "parser_tag (TokenizerError_p _) = 1"
| "parser_tag (ParserError_p _) = 2"
| "parser_tag (RecursionLimitExceeded_p _) = 3"

definition parser_tags :: "nat list" where
  "parser_tags = [1, 2, 3]"

definition parser_display :: "parser_error_proto \<Rightarrow> string" where
  "parser_display p =
     ''sql parser error: '' @
     (case parser_inner p of
        Some (TokenizerError_p msg) \<Rightarrow> msg
      | Some (ParserError_p msg) \<Rightarrow> msg
      | Some (RecursionLimitExceeded_p _) \<Rightarrow> ''recursion limit exceeded''
      | None \<Rightarrow> ''Malformed protobuf message'')"

fun from_parser_error :: "parser_error \<Rightarrow> parser_error_proto" where
  "from_parser_error (TokenizerError msg) = \<lparr>parser_inner = Some (TokenizerError_p msg)\<rparr>"
| "from_parser_error (ParserError msg) = \<lparr>parser_inner = Some (ParserError_p msg)\<rparr>"
| "from_parser_error RecursionLimitExceeded = \<lparr>parser_inner = Some (RecursionLimitExceeded_p True)\<rparr>"

definition to_parser_error :: "parser_error_proto \<Rightarrow> parser_error" where
  "to_parser_error p =
     (case parser_inner p of
        None \<Rightarrow> ParserError ''Malformed protobuf message''
      | Some (TokenizerError_p msg) \<Rightarrow> TokenizerError msg
      | Some (ParserError_p msg) \<Rightarrow> ParserError msg
      | Some (RecursionLimitExceeded_p _) \<Rightarrow> RecursionLimitExceeded)"

definition parser_wire :: "parser_error_proto \<Rightarrow> parser_error_proto" where
  "parser_wire p = p\<lparr>parser_inner := oneof_known parser_tags parser_tag (parser_inner p)\<rparr>"

lemma parser_wire [simp]: "parser_wire p = p"
proof -
  have "parser_tag v \<in> set parser_tags" for v
    by (cases v) (simp_all add: parser_tags_def)
  then show ?thesis
    by (simp add: parser_wire_def oneof_known_all)
qed

lemma to_from_parser_error [simp]: "to_parser_error (from_parser_error e) = e"
  by (cases e) (simp_all add: to_parser_error_def)

interpretation parser_codec: stable_codec from_parser_error parser_wire to_parser_error "\<lambda>e. e"
  by unfold_locales simp_all

section \<open>Parquet errors\<close>

text \<open>\<open>Parquet_Unlisted\<close> stands for the variants that fall into the wildcard of the conversion.\<close>

datatype parquet_error =
    Parquet_General string
  | Parquet_NYI string
  | Parquet_EOF string
  | Parquet_ArrowError string
  | Parquet_IndexOutOfBound "64 word" "64 word"
  | Parquet_External string
  | Parquet_NeedMoreData "64 word"
  | Parquet_Unlisted

record index_out_of_bound_proto =
  oob_a :: "64 word"
  oob_b :: "64 word"

datatype parquet_error_inner_proto =
    General_p string
  | NYI_p string
  | EOF_p string
  | ArrowError_p string
  | IndexOutOfBound_p index_out_of_bound_proto
  | External_p string
  | NeedMoreData_p "64 word"

record parquet_error_proto =
  parquet_inner :: "parquet_error_inner_proto option"

fun parquet_tag :: "parquet_error_inner_proto \<Rightarrow> nat" where
  "parquet_tag (General_p _) = 1"
| "parquet_tag (NYI_p _) = 2"
| "parquet_tag (EOF_p _) = 3"
| "parquet_tag (ArrowError_p _) = 4"
| "parquet_tag (IndexOutOfBound_p _) = 5"
| "parquet_tag (External_p _) = 6"
| "parquet_tag (NeedMoreData_p _) = 7"

definition parquet_tags :: "nat list" where
  "parquet_tags = [1, 2, 3, 4, 5, 6, 7]"

definition parquet_display :: "parquet_error_proto \<Rightarrow> string" where
  "parquet_display p =
     (case parquet_inner p of
        None \<Rightarrow> ''External: Malformed protobuf message''
      | Some (General_p msg) \<Rightarrow> ''Parquet error: '' @ msg
      | Some (NYI_p msg) \<Rightarrow> ''NYI: '' @ msg
      | Some (EOF_p msg) \<Rightarrow> ''EOF: '' @ msg
      | Some (ArrowError_p msg) \<Rightarrow> ''Arrow: '' @ msg
      | Some (IndexOutOfBound_p i) \<Rightarrow>
          ''Index '' @ show_nat (unat (oob_a i)) @ '' out of bound: '' @ show_nat (unat (oob_b i))
      | Some (External_p msg) \<Rightarrow> ''External: '' @ msg
      | Some (NeedMoreData_p n) \<Rightarrow> ''NeedMoreData: '' @ show_nat (unat n))"

fun from_parquet_error :: "parquet_error \<Rightarrow> parquet_error_proto" where
  "from_parquet_error (Parquet_General msg) = \<lparr>parquet_inner = Some (General_p msg)\<rparr>"
| "from_parquet_error (Parquet_NYI msg) = \<lparr>parquet_inner = Some (NYI_p msg)\<rparr>"
| "from_parquet_error (Parquet_EOF msg) = \<lparr>parquet_inner = Some (EOF_p msg)\<rparr>"
| "from_parquet_error (Parquet_ArrowError msg) = \<lparr>parquet_inner = Some (ArrowError_p msg)\<rparr>"
| "from_parquet_error (Parquet_IndexOutOfBound a b) =
     \<lparr>parquet_inner = Some (IndexOutOfBound_p \<lparr>oob_a = ucast a, oob_b = ucast b\<rparr>)\<rparr>"
| "from_parquet_error (Parquet_External err) = \<lparr>parquet_inner = Some (External_p err)\<rparr>"
| "from_parquet_error (Parquet_NeedMoreData a) = \<lparr>parquet_inner = Some (NeedMoreData_p (ucast a))\<rparr>"
| "from_parquet_error Parquet_Unlisted =
     \<lparr>parquet_inner = Some (General_p ''ParquetError could not be serialized into protobuf'')\<rparr>"

definition to_parquet_error :: "parquet_error_proto \<Rightarrow> parquet_error" where
  "to_parquet_error p =
     (case parquet_inner p of
        None \<Rightarrow> Parquet_External ''Malformed protobuf message''
      | Some (General_p msg) \<Rightarrow> Parquet_General msg
      | Some (NYI_p msg) \<Rightarrow> Parquet_NYI msg
      | Some (EOF_p msg) \<Rightarrow> Parquet_EOF msg
      | Some (ArrowError_p msg) \<Rightarrow> Parquet_ArrowError msg
      | Some (IndexOutOfBound_p i) \<Rightarrow> Parquet_IndexOutOfBound (ucast (oob_a i)) (ucast (oob_b i))
      | Some (External_p msg) \<Rightarrow> Parquet_External msg
      | Some (NeedMoreData_p n) \<Rightarrow> Parquet_NeedMoreData (ucast n))"

definition parquet_wire :: "parquet_error_proto \<Rightarrow> parquet_error_proto" where
  "parquet_wire p = p\<lparr>parquet_inner := oneof_known parquet_tags parquet_tag (parquet_inner p)\<rparr>"

fun recovered_parquet :: "parquet_error \<Rightarrow> parquet_error" where
  "recovered_parquet Parquet_Unlisted =
     Parquet_General ''ParquetError could not be serialized into protobuf''"
| "recovered_parquet e = e"

lemma parquet_wire [simp]: "parquet_wire p = p"
proof -
  have "parquet_tag v \<in> set parquet_tags" for v
    by (cases v) (simp_all add: parquet_tags_def)
  then show ?thesis
    by (simp add: parquet_wire_def oneof_known_all)
qed

lemma to_from_parquet_error [simp]: "to_parquet_error (from_parquet_error e) = recovered_parquet e"
  by (cases e) (simp_all add: to_parquet_error_def)

lemma recovered_parquet_idem [simp]: "recovered_parquet (recovered_parquet e) = recovered_parquet e"
  by (cases e) simp_all

interpretation parquet_codec: stable_codec
  from_parquet_error parquet_wire to_parquet_error recovered_parquet
  by unfold_locales simp_all

section \<open>Object store errors\<close>

text \<open>
  \<open>Store_Unlisted\<close> stands for the variants that fall into the wildcard of the conversion. The
  \<open>store\<close> of an error is a string with static lifetime, so the receiver has to choose it among
  the literals it knows.
\<close>

datatype object_store_error =
    Store_Generic string string
  | Store_NotFound string string
  | Store_InvalidPath string
  | Store_JoinError string
  | Store_NotSupported string
  | Store_AlreadyExists string string
  | Store_Precondition string string
  | Store_NotModified string string
  | Store_NotImplemented string string
  | Store_PermissionDenied string string
  | Store_Unauthenticated string string
  | Store_UnknownConfigurationKey string string
  | Store_Unlisted

record store_generic_proto =
  gen_store :: string
  gen_source :: string

record store_source_proto =
  src_source :: string

record store_source_path_proto =
  path_path :: string
  path_source :: string

record store_configuration_key_proto =
  key_key :: string
  key_store :: string

datatype object_store_error_inner_proto =
    StoreGeneric_p store_generic_proto
  | StoreNotFound_p store_source_path_proto
  | StoreInvalidPath_p store_source_proto
  | StoreJoinError_p store_source_proto
  | StoreNotSupported_p store_source_proto
  | StoreAlreadyExists_p store_source_path_proto
  | StorePrecondition_p store_source_path_proto
  | StoreNotModified_p store_source_path_proto
  | StoreNotImplemented_p bool
  | StorePermissionDenied_p store_source_path_proto
  | StoreUnauthenticated_p store_source_path_proto
  | StoreUnknownConfigurationKey_p store_configuration_key_proto

record object_store_error_proto =
  store_inner :: "object_store_error_inner_proto option"

fun store_tag :: "object_store_error_inner_proto \<Rightarrow> nat" where
  "store_tag (StoreGeneric_p _) = 1"
| "store_tag (StoreNotFound_p _) = 2"
| "store_tag (StoreInvalidPath_p _) = 3"
| "store_tag (StoreJoinError_p _) = 4"
| "store_tag (StoreNotSupported_p _) = 5"
| "store_tag (StoreAlreadyExists_p _) = 6"
| "store_tag (StorePrecondition_p _) = 7"
| "store_tag (StoreNotModified_p _) = 8"
| "store_tag (StoreNotImplemented_p _) = 9"
| "store_tag (StorePermissionDenied_p _) = 10"
| "store_tag (StoreUnauthenticated_p _) = 11"
| "store_tag (StoreUnknownConfigurationKey_p _) = 12"

definition store_tags :: "nat list" where
  "store_tags = [1, 2, 3, 4, 5, 6, 7, 8, 9, 10, 11, 12]"

fun from_object_store_error :: "object_store_error \<Rightarrow> object_store_error_proto" where
  "from_object_store_error (Store_Generic st src) =
     \<lparr>store_inner = Some (StoreGeneric_p \<lparr>gen_store = st, gen_source = src\<rparr>)\<rparr>"
| "from_object_store_error (Store_NotFound p src) =
     \<lparr>store_inner = Some (StoreNotFound_p \<lparr>path_path = p, path_source = src\<rparr>)\<rparr>"
| "from_object_store_error (Store_InvalidPath src) =
     \<lparr>store_inner = Some (StoreInvalidPath_p \<lparr>src_source = src\<rparr>)\<rparr>"
| "from_object_store_error (Store_JoinError src) =
     \<lparr>store_inner = Some (StoreJoinError_p \<lparr>src_source = src\<rparr>)\<rparr>"
| "from_object_store_error (Store_NotSupported src) =
     \<lparr>store_inner = Some (StoreNotSupported_p \<lparr>src_source = src\<rparr>)\<rparr>"
| "from_object_store_error (Store_AlreadyExists p src) =
     \<lparr>store_inner = Some (StoreAlreadyExists_p \<lparr>path_path = p, path_source = src\<rparr>)\<rparr>"
| "from_object_store_error (Store_Precondition p src) =
     \<lparr>store_inner = Some (StorePrecondition_p \<lparr>path_path = p, path_source = src\<rparr>)\<rparr>"
| "from_object_store_error (Store_NotModified p src) =
     \<lparr>store_inner = Some (StoreNotModified_p \<lparr>path_path = p, path_source = src\<rparr>)\<rparr>"
| "from_object_store_error (Store_NotImplemented operation implementer) =
     \<lparr>store_inner = Some (StoreNotImplemented_p True)\<rparr>"
| "from_object_store_error (Store_PermissionDenied p src) =
     \<lparr>store_inner = Some (StorePermissionDenied_p \<lparr>path_path = p, path_source = src\<rparr>)\<rparr>"
| "from_object_store_error (Store_Unauthenticated p src) =
     \<lparr>store_inner = Some (StoreUnauthenticated_p \<lparr>path_path = p, path_source = src\<rparr>)\<rparr>"
| "from_object_store_error (Store_UnknownConfigurationKey k st) =
     \<lparr>store_inner = Some (StoreUnknownConfigurationKey_p \<lparr>key_key = k, key_store = st\<rparr>)\<rparr>"
| "from_object_store_error Store_Unlisted =
     \<lparr>store_inner = Some (StoreGeneric_p
        \<lparr>gen_store = ''Could not serialize ObjectStore error to proto'',
         gen_source = ''Could not serialize ObjectStore error to proto''\<rparr>)\<rparr>"

definition known_stores :: "string list" where
  "known_stores =
     [''GCS'', ''MicrosoftAzure'', ''S3'', ''Config'', ''ChunkedStore'', ''LineDelimiter'',
      ''HTTP client'', ''HTTP'', ''URL'', ''InMemory'', ''ObjectStoreRegistry'', ''Parts'',
      ''LocalFileSystem'']"

definition parse_store :: "string \<Rightarrow> string" where
  "parse_store st = (if st \<in> set known_stores then st else ''Unknown'')"

definition to_object_store_error :: "object_store_error_proto \<Rightarrow> object_store_error" where
  "to_object_store_error p =
     (case store_inner p of
        None \<Rightarrow> Store_Generic ''unknown'' ''Could not deserialize ObjectStore error from proto''
      | Some (StoreGeneric_p m) \<Rightarrow> Store_Generic (parse_store (gen_store m)) (gen_source m)
      | Some (StoreNotFound_p m) \<Rightarrow> Store_NotFound (path_path m) (path_source m)
      | Some (StoreInvalidPath_p m) \<Rightarrow> Store_Generic ''unknown'' (''InvalidPath: '' @ src_source m)
      | Some (StoreJoinError_p m) \<Rightarrow> Store_Generic ''unknown'' (''JoinError: '' @ src_source m)
      | Some (StoreNotSupported_p m) \<Rightarrow> Store_NotSupported (src_source m)
      | Some (StoreAlreadyExists_p m) \<Rightarrow> Store_AlreadyExists (path_path m) (path_source m)
      | Some (StorePrecondition_p m) \<Rightarrow> Store_Precondition (path_path m) (path_source m)
      | Some (StoreNotModified_p m) \<Rightarrow> Store_NotModified (path_path m) (path_source m)
      | Some (StoreNotImplemented_p _) \<Rightarrow> Store_NotImplemented ''unknown_operation'' ''unknown_implementer''
      | Some (StorePermissionDenied_p m) \<Rightarrow> Store_PermissionDenied (path_path m) (path_source m)
      | Some (StoreUnauthenticated_p m) \<Rightarrow> Store_Unauthenticated (path_path m) (path_source m)
      | Some (StoreUnknownConfigurationKey_p m) \<Rightarrow>
          Store_UnknownConfigurationKey (key_key m) (parse_store (key_store m)))"

definition store_wire :: "object_store_error_proto \<Rightarrow> object_store_error_proto" where
  "store_wire p = p\<lparr>store_inner := oneof_known store_tags store_tag (store_inner p)\<rparr>"

text \<open>
  What the peer recovers: a store name outside the known ones is replaced, the errors that cannot
  be rebuilt become generic ones of the store \<open>unknown\<close>, and the details of an unimplemented
  operation are lost. The name \<open>unknown\<close> is itself not among the known ones, so it changes once
  more at the next boundary.
\<close>

fun recovered_store :: "object_store_error \<Rightarrow> object_store_error" where
  "recovered_store (Store_Generic st src) = Store_Generic (parse_store st) src"
| "recovered_store (Store_InvalidPath src) = Store_Generic ''unknown'' (''InvalidPath: '' @ src)"
| "recovered_store (Store_JoinError src) = Store_Generic ''unknown'' (''JoinError: '' @ src)"
| "recovered_store (Store_NotImplemented _ _) =
     Store_NotImplemented ''unknown_operation'' ''unknown_implementer''"
| "recovered_store (Store_UnknownConfigurationKey k st) = Store_UnknownConfigurationKey k (parse_store st)"
| "recovered_store Store_Unlisted =
     Store_Generic ''Unknown'' ''Could not serialize ObjectStore error to proto''"
| "recovered_store e = e"

lemma store_wire [simp]: "store_wire p = p"
proof -
  have "store_tag v \<in> set store_tags" for v
    by (cases v) (simp_all add: store_tags_def)
  then show ?thesis
    by (simp add: store_wire_def oneof_known_all)
qed

lemma parse_store_unknown [simp]: "parse_store ''Unknown'' = ''Unknown''"
  "parse_store ''Could not serialize ObjectStore error to proto'' = ''Unknown''"
  by (simp_all add: parse_store_def known_stores_def)

lemma parse_store_idem [simp]: "parse_store (parse_store st) = parse_store st"
  by (simp add: parse_store_def)

lemma to_from_object_store_error [simp]:
  "to_object_store_error (from_object_store_error e) = recovered_store e"
  by (cases e) (simp_all add: to_object_store_error_def)

lemma recovered_store_settles [simp]:
  "recovered_store (recovered_store (recovered_store e)) = recovered_store (recovered_store e)"
  by (cases e) simp_all

interpretation store_codec: error_codec
  from_object_store_error store_wire to_object_store_error recovered_store
  by unfold_locales simp_all

end
