(* ===== verification/SchemaErrors.thy ===== *)
theory SchemaErrors
  imports LeafErrors
begin

text \<open>
  The conversions of schema errors with their columns and table references (\<open>schema_error.rs\<close>)
  and of Arrow errors (\<open>arrow_error.rs\<close>). Both carry an optional text beside the error, the
  backtrace or the context, which travels in the same message.
\<close>

section \<open>Table references and columns\<close>

datatype table_reference =
    Bare string
  | Partial string string
  | Full string string string

text \<open>A column without its source spans, which the message does not carry.\<close>

record column =
  relation :: "table_reference option"
  col_name :: string

record table_reference_bare_proto =
  bare_table :: string

record table_reference_partial_proto =
  partial_schema :: string
  partial_table :: string

record table_reference_full_proto =
  full_catalog :: string
  full_schema :: string
  full_table :: string

datatype table_reference_inner_proto =
    Bare_p table_reference_bare_proto
  | Partial_p table_reference_partial_proto
  | Full_p table_reference_full_proto

record table_reference_proto =
  table_inner :: "table_reference_inner_proto option"

record column_proto =
  col_relation :: "table_reference_proto option"
  col_name_p :: string

fun table_reference_tag :: "table_reference_inner_proto \<Rightarrow> nat" where
  "table_reference_tag (Bare_p _) = 1"
| "table_reference_tag (Partial_p _) = 2"
| "table_reference_tag (Full_p _) = 3"

definition table_reference_tags :: "nat list" where
  "table_reference_tags = [1, 2, 3]"

fun from_table_reference :: "table_reference \<Rightarrow> table_reference_proto" where
  "from_table_reference (Bare t) = \<lparr>table_inner = Some (Bare_p \<lparr>bare_table = t\<rparr>)\<rparr>"
| "from_table_reference (Partial s t) =
     \<lparr>table_inner = Some (Partial_p \<lparr>partial_schema = s, partial_table = t\<rparr>)\<rparr>"
| "from_table_reference (Full c s t) =
     \<lparr>table_inner = Some (Full_p \<lparr>full_catalog = c, full_schema = s, full_table = t\<rparr>)\<rparr>"

definition to_table_reference :: "table_reference_proto \<Rightarrow> table_reference" where
  "to_table_reference p =
     (case table_inner p of
        None \<Rightarrow> Bare ''''
      | Some (Bare_p m) \<Rightarrow> Bare (bare_table m)
      | Some (Partial_p m) \<Rightarrow> Partial (partial_schema m) (partial_table m)
      | Some (Full_p m) \<Rightarrow> Full (full_catalog m) (full_schema m) (full_table m))"

definition from_column :: "column \<Rightarrow> column_proto" where
  "from_column v = \<lparr>col_relation = map_option from_table_reference (relation v), col_name_p = col_name v\<rparr>"

definition to_column :: "column_proto \<Rightarrow> column" where
  "to_column p = \<lparr>relation = map_option to_table_reference (col_relation p), col_name = col_name_p p\<rparr>"

definition table_reference_wire :: "table_reference_proto \<Rightarrow> table_reference_proto" where
  "table_reference_wire p =
     p\<lparr>table_inner := oneof_known table_reference_tags table_reference_tag (table_inner p)\<rparr>"

definition column_wire :: "column_proto \<Rightarrow> column_proto" where
  "column_wire p = p\<lparr>col_relation := map_option table_reference_wire (col_relation p)\<rparr>"

lemma table_reference_wire [simp]: "table_reference_wire p = p"
proof -
  have "table_reference_tag v \<in> set table_reference_tags" for v
    by (cases v) (simp_all add: table_reference_tags_def)
  then show ?thesis
    by (simp add: table_reference_wire_def oneof_known_all)
qed

lemma column_wire [simp]: "column_wire p = p"
  by (simp add: column_wire_def map_option_same)

lemma to_from_table_reference [simp]: "to_table_reference (from_table_reference v) = v"
  by (cases v) (simp_all add: to_table_reference_def)

lemma to_from_column [simp]: "to_column (from_column v) = v"
  by (simp add: to_column_def from_column_def option.map_comp comp_def option.map_ident)

section \<open>Schema errors\<close>

datatype schema_error =
    AmbiguousReference column
  | DuplicateQualifiedField table_reference string
  | DuplicateUnqualifiedField string
  | FieldNotFound column "column list"

record ambiguous_reference_proto =
  amb_field :: "column_proto option"

record duplicate_qualified_field_proto =
  dupq_qualifier :: "table_reference_proto option"
  dupq_name :: string

record duplicate_unqualified_field_proto =
  dupu_name :: string

record field_not_found_proto =
  fnf_field :: "column_proto option"
  fnf_valid_fields :: "column_proto list"

datatype schema_error_inner_proto =
    AmbiguousReference_p ambiguous_reference_proto
  | DuplicateQualifiedField_p duplicate_qualified_field_proto
  | DuplicateUnqualifiedField_p duplicate_unqualified_field_proto
  | FieldNotFound_p field_not_found_proto

record schema_error_proto =
  schema_backtrace :: "string option"
  schema_inner :: "schema_error_inner_proto option"

fun schema_tag :: "schema_error_inner_proto \<Rightarrow> nat" where
  "schema_tag (AmbiguousReference_p _) = 2"
| "schema_tag (DuplicateQualifiedField_p _) = 3"
| "schema_tag (DuplicateUnqualifiedField_p _) = 4"
| "schema_tag (FieldNotFound_p _) = 5"

definition schema_tags :: "nat list" where
  "schema_tags = [2, 3, 4, 5]"

fun from_schema_error :: "schema_error \<Rightarrow> string option \<Rightarrow> schema_error_proto" where
  "from_schema_error (AmbiguousReference field) backtrace =
     \<lparr>schema_backtrace = backtrace,
      schema_inner = Some (AmbiguousReference_p \<lparr>amb_field = Some (from_column field)\<rparr>)\<rparr>"
| "from_schema_error (DuplicateQualifiedField qualifier name) backtrace =
     \<lparr>schema_backtrace = backtrace,
      schema_inner = Some (DuplicateQualifiedField_p
        \<lparr>dupq_qualifier = Some (from_table_reference qualifier), dupq_name = name\<rparr>)\<rparr>"
| "from_schema_error (DuplicateUnqualifiedField name) backtrace =
     \<lparr>schema_backtrace = backtrace,
      schema_inner = Some (DuplicateUnqualifiedField_p \<lparr>dupu_name = name\<rparr>)\<rparr>"
| "from_schema_error (FieldNotFound field valid_fields) backtrace =
     \<lparr>schema_backtrace = backtrace,
      schema_inner = Some (FieldNotFound_p
        \<lparr>fnf_field = Some (from_column field), fnf_valid_fields = map from_column valid_fields\<rparr>)\<rparr>"

definition new_unqualified :: "string \<Rightarrow> column" where
  "new_unqualified name = \<lparr>relation = None, col_name = name\<rparr>"

definition column_or_empty :: "column_proto option \<Rightarrow> column" where
  "column_or_empty c = (case c of Some v \<Rightarrow> to_column v | None \<Rightarrow> new_unqualified '''')"

fun schema_error_of_inner :: "schema_error_inner_proto \<Rightarrow> schema_error" where
  "schema_error_of_inner (AmbiguousReference_p err) = AmbiguousReference (column_or_empty (amb_field err))"
| "schema_error_of_inner (DuplicateQualifiedField_p err) =
     DuplicateQualifiedField
       (case dupq_qualifier err of Some v \<Rightarrow> to_table_reference v | None \<Rightarrow> Bare '''') (dupq_name err)"
| "schema_error_of_inner (DuplicateUnqualifiedField_p err) = DuplicateUnqualifiedField (dupu_name err)"
| "schema_error_of_inner (FieldNotFound_p err) =
     FieldNotFound (column_or_empty (fnf_field err)) (map to_column (fnf_valid_fields err))"

definition to_schema_error :: "schema_error_proto \<Rightarrow> schema_error \<times> string option" where
  "to_schema_error p =
     (case schema_inner p of
        None \<Rightarrow> (FieldNotFound (new_unqualified '''') [], None)
      | Some inner \<Rightarrow> (schema_error_of_inner inner, schema_backtrace p))"

fun schema_inner_wire :: "schema_error_inner_proto \<Rightarrow> schema_error_inner_proto" where
  "schema_inner_wire (AmbiguousReference_p m) =
     AmbiguousReference_p (m\<lparr>amb_field := map_option column_wire (amb_field m)\<rparr>)"
| "schema_inner_wire (DuplicateQualifiedField_p m) =
     DuplicateQualifiedField_p (m\<lparr>dupq_qualifier := map_option table_reference_wire (dupq_qualifier m)\<rparr>)"
| "schema_inner_wire (DuplicateUnqualifiedField_p m) = DuplicateUnqualifiedField_p m"
| "schema_inner_wire (FieldNotFound_p m) =
     FieldNotFound_p (m\<lparr>fnf_field := map_option column_wire (fnf_field m),
                        fnf_valid_fields := map column_wire (fnf_valid_fields m)\<rparr>)"

definition schema_wire :: "schema_error_proto \<Rightarrow> schema_error_proto" where
  "schema_wire p =
     p\<lparr>schema_inner := map_option schema_inner_wire (oneof_known schema_tags schema_tag (schema_inner p))\<rparr>"

lemma schema_inner_wire [simp]: "schema_inner_wire v = v"
  by (cases v) (simp_all add: map_option_same map_idI)

lemma schema_wire [simp]: "schema_wire p = p"
proof -
  have "schema_tag v \<in> set schema_tags" for v
    by (cases v) (simp_all add: schema_tags_def)
  then show ?thesis
    by (simp add: schema_wire_def oneof_known_all map_option_same)
qed

lemma to_from_schema_error [simp]: "to_schema_error (from_schema_error e b) = (e, b)"
  by (cases e) (simp_all add: to_schema_error_def column_or_empty_def comp_def)

interpretation schema_codec: stable_codec
  "\<lambda>(e, b). from_schema_error e b" schema_wire to_schema_error "\<lambda>eb. eb"
  by unfold_locales auto

section \<open>Arrow errors\<close>

datatype arrow_error =
    Arrow_NotYetImplemented string
  | Arrow_ExternalError string
  | Arrow_CastError string
  | Arrow_MemoryError string
  | Arrow_ParseError string
  | Arrow_SchemaError string
  | Arrow_ComputeError string
  | Arrow_DivideByZero
  | Arrow_ArithmeticOverflow string
  | Arrow_CsvError string
  | Arrow_JsonError string
  | Arrow_IoError string io_error
  | Arrow_IpcError string
  | Arrow_InvalidArgumentError string
  | Arrow_ParquetError string
  | Arrow_CDataInterface string
  | Arrow_DictionaryKeyOverflowError
  | Arrow_RunEndIndexOverflowError
  | Arrow_OffsetOverflowError "64 word"
  | Arrow_AvroError string

datatype arrow_error_inner_proto =
    NotYetImplemented_ap string
  | ExternalError_ap string
  | CastError_ap string
  | MemoryError_ap string
  | ParseError_ap string
  | SchemaError_ap string
  | ComputeError_ap string
  | DivideByZero_ap bool
  | ArithmeticOverflow_ap string
  | CsvError_ap string
  | JsonError_ap string
  | IoError_ap io_error_proto
  | IpcError_ap string
  | InvalidArgumentError_ap string
  | ParquetError_ap string
  | CDataInterface_ap string
  | DictionaryKeyOverflowError_ap bool
  | RunEndIndexOverflowError_ap bool
  | OffsetOverflowError_ap "64 word"
  | AvroError_ap string

record arrow_error_proto =
  arrow_ctx :: "string option"
  arrow_inner :: "arrow_error_inner_proto option"

fun arrow_tag :: "arrow_error_inner_proto \<Rightarrow> nat" where
  "arrow_tag (NotYetImplemented_ap _) = 2"
| "arrow_tag (ExternalError_ap _) = 3"
| "arrow_tag (CastError_ap _) = 4"
| "arrow_tag (MemoryError_ap _) = 5"
| "arrow_tag (ParseError_ap _) = 6"
| "arrow_tag (SchemaError_ap _) = 7"
| "arrow_tag (ComputeError_ap _) = 8"
| "arrow_tag (DivideByZero_ap _) = 9"
| "arrow_tag (ArithmeticOverflow_ap _) = 10"
| "arrow_tag (CsvError_ap _) = 11"
| "arrow_tag (JsonError_ap _) = 12"
| "arrow_tag (IoError_ap _) = 13"
| "arrow_tag (IpcError_ap _) = 14"
| "arrow_tag (InvalidArgumentError_ap _) = 15"
| "arrow_tag (ParquetError_ap _) = 16"
| "arrow_tag (CDataInterface_ap _) = 17"
| "arrow_tag (DictionaryKeyOverflowError_ap _) = 18"
| "arrow_tag (RunEndIndexOverflowError_ap _) = 19"
| "arrow_tag (OffsetOverflowError_ap _) = 20"
| "arrow_tag (AvroError_ap _) = 21"

definition arrow_tags :: "nat list" where
  "arrow_tags = [2, 3, 4, 5, 6, 7, 8, 9, 10, 11, 12, 13, 14, 15, 16, 17, 18, 19, 20]"

fun arrow_inner_of :: "arrow_error \<Rightarrow> arrow_error_inner_proto" where
  "arrow_inner_of (Arrow_NotYetImplemented msg) = NotYetImplemented_ap msg"
| "arrow_inner_of (Arrow_ExternalError msg) = ExternalError_ap msg"
| "arrow_inner_of (Arrow_CastError msg) = CastError_ap msg"
| "arrow_inner_of (Arrow_MemoryError msg) = MemoryError_ap msg"
| "arrow_inner_of (Arrow_ParseError msg) = ParseError_ap msg"
| "arrow_inner_of (Arrow_SchemaError msg) = SchemaError_ap msg"
| "arrow_inner_of (Arrow_ComputeError msg) = ComputeError_ap msg"
| "arrow_inner_of Arrow_DivideByZero = DivideByZero_ap True"
| "arrow_inner_of (Arrow_ArithmeticOverflow msg) = ArithmeticOverflow_ap msg"
| "arrow_inner_of (Arrow_CsvError msg) = CsvError_ap msg"
| "arrow_inner_of (Arrow_JsonError msg) = JsonError_ap msg"
| "arrow_inner_of (Arrow_IoError msg err) = IoError_ap (from_io_error msg err)"
| "arrow_inner_of (Arrow_IpcError msg) = IpcError_ap msg"
| "arrow_inner_of (Arrow_InvalidArgumentError msg) = InvalidArgumentError_ap msg"
| "arrow_inner_of (Arrow_ParquetError msg) = ParquetError_ap msg"
| "arrow_inner_of (Arrow_CDataInterface msg) = CDataInterface_ap msg"
| "arrow_inner_of Arrow_DictionaryKeyOverflowError = DictionaryKeyOverflowError_ap True"
| "arrow_inner_of Arrow_RunEndIndexOverflowError = RunEndIndexOverflowError_ap True"
| "arrow_inner_of (Arrow_OffsetOverflowError off) = OffsetOverflowError_ap (ucast off)"
| "arrow_inner_of (Arrow_AvroError msg) = AvroError_ap msg"

definition from_arrow_error :: "arrow_error \<Rightarrow> string option \<Rightarrow> arrow_error_proto" where
  "from_arrow_error err ctx = \<lparr>arrow_ctx = ctx, arrow_inner = Some (arrow_inner_of err)\<rparr>"

fun arrow_error_of_inner :: "arrow_error_inner_proto \<Rightarrow> arrow_error" where
  "arrow_error_of_inner (NotYetImplemented_ap msg) = Arrow_NotYetImplemented msg"
| "arrow_error_of_inner (ExternalError_ap msg) = Arrow_ExternalError msg"
| "arrow_error_of_inner (CastError_ap msg) = Arrow_CastError msg"
| "arrow_error_of_inner (MemoryError_ap msg) = Arrow_MemoryError msg"
| "arrow_error_of_inner (ParseError_ap msg) = Arrow_ParseError msg"
| "arrow_error_of_inner (SchemaError_ap msg) = Arrow_SchemaError msg"
| "arrow_error_of_inner (ComputeError_ap msg) = Arrow_ComputeError msg"
| "arrow_error_of_inner (DivideByZero_ap _) = Arrow_DivideByZero"
| "arrow_error_of_inner (ArithmeticOverflow_ap msg) = Arrow_ArithmeticOverflow msg"
| "arrow_error_of_inner (CsvError_ap msg) = Arrow_CsvError msg"
| "arrow_error_of_inner (JsonError_ap msg) = Arrow_JsonError msg"
| "arrow_error_of_inner (IoError_ap p) = (case to_io_error p of (e, msg) \<Rightarrow> Arrow_IoError msg e)"
| "arrow_error_of_inner (IpcError_ap msg) = Arrow_IpcError msg"
| "arrow_error_of_inner (InvalidArgumentError_ap msg) = Arrow_InvalidArgumentError msg"
| "arrow_error_of_inner (ParquetError_ap msg) = Arrow_ParquetError msg"
| "arrow_error_of_inner (CDataInterface_ap msg) = Arrow_CDataInterface msg"
| "arrow_error_of_inner (DictionaryKeyOverflowError_ap _) = Arrow_DictionaryKeyOverflowError"
| "arrow_error_of_inner (RunEndIndexOverflowError_ap _) = Arrow_RunEndIndexOverflowError"
| "arrow_error_of_inner (OffsetOverflowError_ap off) = Arrow_OffsetOverflowError (ucast off)"
| "arrow_error_of_inner (AvroError_ap msg) = Arrow_AvroError msg"

definition to_arrow_error :: "arrow_error_proto \<Rightarrow> arrow_error \<times> string option" where
  "to_arrow_error p =
     (case arrow_inner p of
        None \<Rightarrow> (Arrow_ExternalError ''Malformed protobuf message'', None)
      | Some inner \<Rightarrow> (arrow_error_of_inner inner, arrow_ctx p))"

definition arrow_wire :: "arrow_error_proto \<Rightarrow> arrow_error_proto" where
  "arrow_wire p = p\<lparr>arrow_inner := oneof_known arrow_tags arrow_tag (arrow_inner p)\<rparr>"

text \<open>
  What the peer recovers of an Arrow error and its context: everything, except the kind of an
  unlisted I/O error, and except Avro errors, whose tag the list of accepted tags omits.
\<close>

fun recovered_arrow :: "arrow_error \<times> string option \<Rightarrow> arrow_error \<times> string option" where
  "recovered_arrow (Arrow_IoError msg err, ctx) = (Arrow_IoError msg (recovered_io err), ctx)"
| "recovered_arrow (Arrow_AvroError msg, ctx) = (Arrow_ExternalError ''Malformed protobuf message'', None)"
| "recovered_arrow (e, ctx) = (e, ctx)"

lemma recovered_arrow_idem [simp]: "recovered_arrow (recovered_arrow ec) = recovered_arrow ec"
  by (cases ec rule: recovered_arrow.cases) simp_all

lemma to_from_arrow_error [simp]:
  "to_arrow_error (arrow_wire (from_arrow_error e ctx)) = recovered_arrow (e, ctx)"
  by (cases e)
    (simp_all add: to_arrow_error_def from_arrow_error_def arrow_wire_def oneof_known_def arrow_tags_def)

interpretation arrow_codec: stable_codec
  "\<lambda>(e, ctx). from_arrow_error e ctx" arrow_wire to_arrow_error recovered_arrow
  by unfold_locales auto

end
