(* ===== verification/DatafusionErrors.thy ===== *)
theory DatafusionErrors
  imports SchemaErrors
begin

text \<open>
  The conversion of \<open>DataFusionError\<close> (\<open>datafusion_error.rs\<close>), which nests, and its transport in
  the details of a gRPC status (\<open>mod.rs\<close>). The Protobuf library and the rendering of a status are
  parameters; \<open>prost_codec\<close> states what its documentation promises of encoding and decoding.
\<close>

section \<open>Errors and messages\<close>

text \<open>
  A \<open>JoinError\<close> and the sources behind \<open>Box<dyn Error>\<close> are represented by their text, a
  diagnostic by its message.
\<close>

datatype datafusion_error =
    DF_ArrowError arrow_error "string option"
  | DF_ParquetError parquet_error
  | DF_ObjectStore object_store_error
  | DF_IoError io_error
  | DF_SQL parser_error "string option"
  | DF_NotImplemented string
  | DF_Internal string
  | DF_Plan string
  | DF_Configuration string
  | DF_SchemaError schema_error "string option"
  | DF_Execution string
  | DF_ExecutionJoin string
  | DF_ResourcesExhausted string
  | DF_External string
  | DF_Context string datafusion_error
  | DF_Substrait string
  | DF_Diagnostic string datafusion_error
  | DF_Collection "datafusion_error list"
  | DF_Shared datafusion_error
  | DF_Ffi string

record sql_error_proto =
  sql_err :: "parser_error_proto option"
  sql_backtrace :: "string option"

datatype datafusion_error_proto =
    DataFusionErrorProto "datafusion_error_inner_proto option"
and datafusion_error_inner_proto =
    ArrowError_dp arrow_error_proto
  | ParquetError_dp parquet_error_proto
  | ObjectStoreError_dp object_store_error_proto
  | IoError_dp io_error_proto
  | SQL_dp sql_error_proto
  | NotImplemented_dp string
  | Internal_dp string
  | Plan_dp string
  | Configuration_dp string
  | Schema_dp schema_error_proto
  | Execution_dp string
  | ExecutionJoin_dp string
  | ResourceExhausted_dp string
  | External_dp string
  | Context_dp "datafusion_error_proto option" string
  | Substrait_dp string
  | Diagnostic_dp datafusion_error_proto
  | Collection_dp "datafusion_error_proto list"
  | Shared_dp datafusion_error_proto

fun datafusion_tag :: "datafusion_error_inner_proto \<Rightarrow> nat" where
  "datafusion_tag (ArrowError_dp _) = 1"
| "datafusion_tag (ParquetError_dp _) = 2"
| "datafusion_tag (ObjectStoreError_dp _) = 3"
| "datafusion_tag (IoError_dp _) = 4"
| "datafusion_tag (SQL_dp _) = 5"
| "datafusion_tag (NotImplemented_dp _) = 6"
| "datafusion_tag (Internal_dp _) = 7"
| "datafusion_tag (Plan_dp _) = 8"
| "datafusion_tag (Configuration_dp _) = 9"
| "datafusion_tag (Schema_dp _) = 10"
| "datafusion_tag (Execution_dp _) = 11"
| "datafusion_tag (ExecutionJoin_dp _) = 12"
| "datafusion_tag (ResourceExhausted_dp _) = 13"
| "datafusion_tag (External_dp _) = 14"
| "datafusion_tag (Context_dp _ _) = 15"
| "datafusion_tag (Substrait_dp _) = 16"
| "datafusion_tag (Diagnostic_dp _) = 17"
| "datafusion_tag (Collection_dp _) = 18"
| "datafusion_tag (Shared_dp _) = 19"

definition datafusion_tags :: "nat list" where
  "datafusion_tags = [1, 2, 3, 4, 5, 6, 7, 8, 9, 10, 11, 12, 13, 14, 15, 16, 17, 18, 19]"

section \<open>The conversions\<close>

fun from_datafusion_error :: "datafusion_error \<Rightarrow> datafusion_error_proto" where
  "from_datafusion_error (DF_ArrowError err msg) =
     DataFusionErrorProto (Some (ArrowError_dp (from_arrow_error err msg)))"
| "from_datafusion_error (DF_ParquetError err) =
     DataFusionErrorProto (Some (ParquetError_dp (from_parquet_error err)))"
| "from_datafusion_error (DF_ObjectStore err) =
     DataFusionErrorProto (Some (ObjectStoreError_dp (from_object_store_error err)))"
| "from_datafusion_error (DF_IoError err) =
     DataFusionErrorProto (Some (IoError_dp (from_io_error '''' err)))"
| "from_datafusion_error (DF_SQL err msg) =
     DataFusionErrorProto (Some (SQL_dp \<lparr>sql_err = Some (from_parser_error err), sql_backtrace = msg\<rparr>))"
| "from_datafusion_error (DF_NotImplemented msg) = DataFusionErrorProto (Some (NotImplemented_dp msg))"
| "from_datafusion_error (DF_Internal msg) = DataFusionErrorProto (Some (Internal_dp msg))"
| "from_datafusion_error (DF_Plan msg) = DataFusionErrorProto (Some (Plan_dp msg))"
| "from_datafusion_error (DF_Configuration msg) = DataFusionErrorProto (Some (Configuration_dp msg))"
| "from_datafusion_error (DF_SchemaError err backtrace) =
     DataFusionErrorProto (Some (Schema_dp (from_schema_error err backtrace)))"
| "from_datafusion_error (DF_Execution msg) = DataFusionErrorProto (Some (Execution_dp msg))"
| "from_datafusion_error (DF_ExecutionJoin err) = DataFusionErrorProto (Some (ExecutionJoin_dp err))"
| "from_datafusion_error (DF_ResourcesExhausted msg) =
     DataFusionErrorProto (Some (ResourceExhausted_dp msg))"
| "from_datafusion_error (DF_External err) = DataFusionErrorProto (Some (External_dp err))"
| "from_datafusion_error (DF_Context ctx err) =
     DataFusionErrorProto (Some (Context_dp (Some (from_datafusion_error err)) ctx))"
| "from_datafusion_error (DF_Substrait err) = DataFusionErrorProto (Some (Substrait_dp err))"
| "from_datafusion_error (DF_Diagnostic _ err) =
     DataFusionErrorProto (Some (Diagnostic_dp (from_datafusion_error err)))"
| "from_datafusion_error (DF_Collection errs) =
     DataFusionErrorProto (Some (Collection_dp (map from_datafusion_error errs)))"
| "from_datafusion_error (DF_Shared err) =
     DataFusionErrorProto (Some (Shared_dp (from_datafusion_error err)))"
| "from_datafusion_error (DF_Ffi err) = DataFusionErrorProto (Some (External_dp err))"

text \<open>The compile-time features of the endpoint that decodes.\<close>

record features =
  feature_sql :: bool
  feature_parquet :: bool

definition unwrap_or_default :: "string option \<Rightarrow> string" where
  "unwrap_or_default s = (case s of Some s \<Rightarrow> s | None \<Rightarrow> '''')"

definition sql_error_of :: "features \<Rightarrow> sql_error_proto \<Rightarrow> datafusion_error" where
  "sql_error_of ft p =
     (if feature_sql ft then
        DF_SQL (case sql_err p of Some e \<Rightarrow> to_parser_error e | None \<Rightarrow> ParserError '''') (sql_backtrace p)
      else
        DF_Internal (''SQL error from peer: '' @ unwrap_or_default (map_option parser_display (sql_err p)) @
          unwrap_or_default (sql_backtrace p)))"

definition parquet_error_of :: "features \<Rightarrow> parquet_error_proto \<Rightarrow> datafusion_error" where
  "parquet_error_of ft p =
     (if feature_parquet ft then DF_ParquetError (to_parquet_error p)
      else DF_Internal (''ParquetError from peer: '' @ parquet_display p))"

fun to_datafusion_err :: "features \<Rightarrow> datafusion_error_proto \<Rightarrow> datafusion_error"
  and datafusion_of_inner :: "features \<Rightarrow> datafusion_error_inner_proto \<Rightarrow> datafusion_error" where
  "to_datafusion_err ft (DataFusionErrorProto None) =
     DF_Internal ''DataFusionError proto message is empty''"
| "to_datafusion_err ft (DataFusionErrorProto (Some inner)) = datafusion_of_inner ft inner"
| "datafusion_of_inner ft (ArrowError_dp err) = (case to_arrow_error err of (e, ctx) \<Rightarrow> DF_ArrowError e ctx)"
| "datafusion_of_inner ft (ParquetError_dp err) = parquet_error_of ft err"
| "datafusion_of_inner ft (ObjectStoreError_dp err) = DF_ObjectStore (to_object_store_error err)"
| "datafusion_of_inner ft (IoError_dp err) = DF_IoError (fst (to_io_error err))"
| "datafusion_of_inner ft (SQL_dp err) = sql_error_of ft err"
| "datafusion_of_inner ft (NotImplemented_dp msg) = DF_NotImplemented msg"
| "datafusion_of_inner ft (Internal_dp msg) = DF_Internal msg"
| "datafusion_of_inner ft (Plan_dp msg) = DF_Plan msg"
| "datafusion_of_inner ft (Configuration_dp msg) = DF_Configuration msg"
| "datafusion_of_inner ft (Schema_dp err) =
     (case to_schema_error err of (e, backtrace) \<Rightarrow> DF_SchemaError e backtrace)"
| "datafusion_of_inner ft (Execution_dp msg) = DF_Execution msg"
| "datafusion_of_inner ft (ExecutionJoin_dp msg) = DF_Internal msg"
| "datafusion_of_inner ft (ResourceExhausted_dp msg) = DF_ResourcesExhausted msg"
| "datafusion_of_inner ft (External_dp msg) = DF_External msg"
| "datafusion_of_inner ft (Context_dp None ctx) =
     DF_Context ctx (DF_Internal ''Missing DataFusionError protobuf message'')"
| "datafusion_of_inner ft (Context_dp (Some err) ctx) = DF_Context ctx (to_datafusion_err ft err)"
| "datafusion_of_inner ft (Substrait_dp msg) = DF_Substrait msg"
| "datafusion_of_inner ft (Diagnostic_dp err) = DF_Diagnostic '''' (to_datafusion_err ft err)"
| "datafusion_of_inner ft (Collection_dp errs) = DF_Collection (map (to_datafusion_err ft) errs)"
| "datafusion_of_inner ft (Shared_dp err) = DF_Shared (to_datafusion_err ft err)"

section \<open>What the Protobuf library keeps of a message\<close>

fun datafusion_wire :: "datafusion_error_proto \<Rightarrow> datafusion_error_proto"
  and datafusion_inner_wire :: "datafusion_error_inner_proto \<Rightarrow> datafusion_error_inner_proto" where
  "datafusion_wire (DataFusionErrorProto None) = DataFusionErrorProto None"
| "datafusion_wire (DataFusionErrorProto (Some inner)) =
     DataFusionErrorProto (oneof_known datafusion_tags datafusion_tag (Some (datafusion_inner_wire inner)))"
| "datafusion_inner_wire (ArrowError_dp p) = ArrowError_dp (arrow_wire p)"
| "datafusion_inner_wire (ParquetError_dp p) = ParquetError_dp (parquet_wire p)"
| "datafusion_inner_wire (ObjectStoreError_dp p) = ObjectStoreError_dp (store_wire p)"
| "datafusion_inner_wire (SQL_dp p) = SQL_dp (p\<lparr>sql_err := map_option parser_wire (sql_err p)\<rparr>)"
| "datafusion_inner_wire (Schema_dp p) = Schema_dp (schema_wire p)"
| "datafusion_inner_wire (Context_dp None ctx) = Context_dp None ctx"
| "datafusion_inner_wire (Context_dp (Some p) ctx) = Context_dp (Some (datafusion_wire p)) ctx"
| "datafusion_inner_wire (Diagnostic_dp p) = Diagnostic_dp (datafusion_wire p)"
| "datafusion_inner_wire (Collection_dp ps) = Collection_dp (map datafusion_wire ps)"
| "datafusion_inner_wire (Shared_dp p) = Shared_dp (datafusion_wire p)"
| "datafusion_inner_wire p = p"

text \<open>
  The library bounds how deep messages nest, a field of message type being one level below the
  message that holds it; strings that are declared as messages count as well.
\<close>

definition arrow_depth :: "arrow_error_proto \<Rightarrow> nat" where
  "arrow_depth p =
     (case arrow_inner p of
        Some (IoError_ap _) \<Rightarrow> 1
      | Some (IpcError_ap _) \<Rightarrow> 1
      | Some (InvalidArgumentError_ap _) \<Rightarrow> 1
      | Some (ParquetError_ap _) \<Rightarrow> 1
      | Some (CDataInterface_ap _) \<Rightarrow> 1
      | _ \<Rightarrow> 0)"

definition parquet_depth :: "parquet_error_proto \<Rightarrow> nat" where
  "parquet_depth p =
     (case parquet_inner p of None \<Rightarrow> 0 | Some (NeedMoreData_p _) \<Rightarrow> 0 | Some _ \<Rightarrow> 1)"

definition optional_depth :: "('m \<Rightarrow> nat) \<Rightarrow> 'm option \<Rightarrow> nat" where
  "optional_depth d m = (case m of None \<Rightarrow> 0 | Some m \<Rightarrow> Suc (d m))"

definition store_depth :: "object_store_error_proto \<Rightarrow> nat" where
  "store_depth p = optional_depth (\<lambda>_. 0) (store_inner p)"

definition column_depth :: "column_proto \<Rightarrow> nat" where
  "column_depth p = optional_depth (\<lambda>r. optional_depth (\<lambda>_. 0) (table_inner r)) (col_relation p)"

definition repeated_depth :: "('m \<Rightarrow> nat) \<Rightarrow> 'm list \<Rightarrow> nat" where
  "repeated_depth d ms = foldr (\<lambda>m. max (Suc (d m))) ms 0"

fun schema_inner_depth :: "schema_error_inner_proto \<Rightarrow> nat" where
  "schema_inner_depth (AmbiguousReference_p m) = optional_depth column_depth (amb_field m)"
| "schema_inner_depth (DuplicateQualifiedField_p m) =
     optional_depth (\<lambda>r. optional_depth (\<lambda>_. 0) (table_inner r)) (dupq_qualifier m)"
| "schema_inner_depth (DuplicateUnqualifiedField_p m) = 0"
| "schema_inner_depth (FieldNotFound_p m) =
     max (optional_depth column_depth (fnf_field m)) (repeated_depth column_depth (fnf_valid_fields m))"

definition schema_depth :: "schema_error_proto \<Rightarrow> nat" where
  "schema_depth p = optional_depth schema_inner_depth (schema_inner p)"

lemma repeated_depth_cong [fundef_cong]:
  "ms = ms' \<Longrightarrow> (\<And>m. m \<in> set ms' \<Longrightarrow> d m = d' m) \<Longrightarrow> repeated_depth d ms = repeated_depth d' ms'"
  unfolding repeated_depth_def by (auto intro!: foldr_cong)

fun message_depth :: "datafusion_error_proto \<Rightarrow> nat"
  and inner_depth :: "datafusion_error_inner_proto \<Rightarrow> nat" where
  "message_depth (DataFusionErrorProto None) = 0"
| "message_depth (DataFusionErrorProto (Some inner)) = inner_depth inner"
| "inner_depth (ArrowError_dp p) = Suc (arrow_depth p)"
| "inner_depth (ParquetError_dp p) = Suc (parquet_depth p)"
| "inner_depth (ObjectStoreError_dp p) = Suc (store_depth p)"
| "inner_depth (IoError_dp p) = 1"
| "inner_depth (SQL_dp p) = Suc (optional_depth (\<lambda>_. 0) (sql_err p))"
| "inner_depth (Schema_dp p) = Suc (schema_depth p)"
| "inner_depth (Context_dp None ctx) = 1"
| "inner_depth (Context_dp (Some p) ctx) = Suc (Suc (message_depth p))"
| "inner_depth (Diagnostic_dp p) = Suc (message_depth p)"
| "inner_depth (Collection_dp ps) = Suc (repeated_depth message_depth ps)"
| "inner_depth (Shared_dp p) = Suc (message_depth p)"
| "inner_depth p = 0"

text \<open>
  The documented behaviour of the library: a message that nests at most \<open>limit\<close> levels is
  decoded to what was encoded, without the fields whose tags are not accepted.
\<close>

definition prost_codec ::
  "nat \<Rightarrow> (datafusion_error_proto \<Rightarrow> 'b) \<Rightarrow> ('b \<Rightarrow> (string, datafusion_error_proto) res) \<Rightarrow> bool" where
  "prost_codec limit encode decode \<longleftrightarrow>
     (\<forall>p. message_depth p \<le> limit \<longrightarrow> decode (encode p) = Inr (datafusion_wire p))"

section \<open>Transport in a gRPC status\<close>

datatype status_code =
    Code_Ok | Code_Cancelled | Code_Unknown | Code_InvalidArgument | Code_DeadlineExceeded
  | Code_NotFound | Code_AlreadyExists | Code_PermissionDenied | Code_ResourceExhausted
  | Code_FailedPrecondition | Code_Aborted | Code_OutOfRange | Code_Unimplemented | Code_Internal
  | Code_Unavailable | Code_DataLoss | Code_Unauthenticated

record 'b status =
  status_code :: status_code
  status_message :: string
  status_details :: 'b

definition datafusion_error_to_tonic_status ::
  "(datafusion_error_proto \<Rightarrow> 'b) \<Rightarrow> datafusion_error \<Rightarrow> 'b status" where
  "datafusion_error_to_tonic_status encode err =
     \<lparr>status_code = Code_Internal, status_message = ''DataFusionError'',
      status_details = encode (from_datafusion_error err)\<rparr>"

definition tonic_status_to_datafusion_error ::
  "features \<Rightarrow> ('b \<Rightarrow> (string, datafusion_error_proto) res) \<Rightarrow> 'b status \<Rightarrow> datafusion_error option" where
  "tonic_status_to_datafusion_error ft decode status =
     (if status_code status \<noteq> Code_Internal then None
      else if status_message status \<noteq> ''DataFusionError'' then None
      else case decode (status_details status) of
             Inr err_proto \<Rightarrow> Some (to_datafusion_err ft err_proto)
           | Inl err \<Rightarrow> Some (DF_Internal (''Cannot decode DataFusionError: '' @ err)))"

definition map_status_to_datafusion_error ::
  "features \<Rightarrow> ('b \<Rightarrow> (string, datafusion_error_proto) res) \<Rightarrow> ('b status \<Rightarrow> string) \<Rightarrow>
   'b status \<Rightarrow> datafusion_error" where
  "map_status_to_datafusion_error ft decode render err =
     (case tonic_status_to_datafusion_error ft decode err of
        Some e \<Rightarrow> e
      | None \<Rightarrow> DF_External (render err))"

datatype 'b flight_error = Flight_Tonic "'b status" | Flight_Other string

fun map_flight_to_datafusion_error ::
  "features \<Rightarrow> ('b \<Rightarrow> (string, datafusion_error_proto) res) \<Rightarrow> ('b status \<Rightarrow> string) \<Rightarrow>
   'b flight_error \<Rightarrow> datafusion_error" where
  "map_flight_to_datafusion_error ft decode render (Flight_Tonic status) =
     map_status_to_datafusion_error ft decode render status"
| "map_flight_to_datafusion_error ft decode render (Flight_Other err) = DF_External err"

section \<open>What the peer recovers\<close>

definition recovered_parquet_df :: "features \<Rightarrow> parquet_error \<Rightarrow> datafusion_error" where
  "recovered_parquet_df ft err =
     (if feature_parquet ft then DF_ParquetError (recovered_parquet err)
      else DF_Internal (''ParquetError from peer: '' @ parquet_display (from_parquet_error err)))"

definition recovered_sql_df :: "features \<Rightarrow> parser_error \<Rightarrow> string option \<Rightarrow> datafusion_error" where
  "recovered_sql_df ft err msg =
     (if feature_sql ft then DF_SQL err msg
      else DF_Internal (''SQL error from peer: '' @ parser_display (from_parser_error err) @
        unwrap_or_default msg))"

fun recovered_df :: "features \<Rightarrow> datafusion_error \<Rightarrow> datafusion_error" where
  "recovered_df ft (DF_ArrowError err msg) =
     (case recovered_arrow (err, msg) of (e, ctx) \<Rightarrow> DF_ArrowError e ctx)"
| "recovered_df ft (DF_ParquetError err) = recovered_parquet_df ft err"
| "recovered_df ft (DF_ObjectStore err) = DF_ObjectStore (recovered_store err)"
| "recovered_df ft (DF_IoError err) = DF_IoError (recovered_io err)"
| "recovered_df ft (DF_SQL err msg) = recovered_sql_df ft err msg"
| "recovered_df ft (DF_ExecutionJoin err) = DF_Internal err"
| "recovered_df ft (DF_Context ctx err) = DF_Context ctx (recovered_df ft err)"
| "recovered_df ft (DF_Diagnostic _ err) = DF_Diagnostic '''' (recovered_df ft err)"
| "recovered_df ft (DF_Collection errs) = DF_Collection (map (recovered_df ft) errs)"
| "recovered_df ft (DF_Shared err) = DF_Shared (recovered_df ft err)"
| "recovered_df ft (DF_Ffi err) = DF_External err"
| "recovered_df ft err = err"

text \<open>The errors that reach the peer unchanged.\<close>

fun faithful_arrow :: "arrow_error \<Rightarrow> bool" where
  "faithful_arrow (Arrow_AvroError _) = False"
| "faithful_arrow (Arrow_IoError _ err) = (io_kind err \<noteq> KindUnlisted)"
| "faithful_arrow _ = True"

definition faithful_store_name :: "string \<Rightarrow> bool" where
  "faithful_store_name st \<longleftrightarrow> st \<in> set known_stores \<or> st = ''Unknown''"

fun faithful_store :: "object_store_error \<Rightarrow> bool" where
  "faithful_store (Store_Generic st _) = faithful_store_name st"
| "faithful_store (Store_UnknownConfigurationKey _ st) = faithful_store_name st"
| "faithful_store (Store_NotImplemented operation implementer) =
     (operation = ''unknown_operation'' \<and> implementer = ''unknown_implementer'')"
| "faithful_store (Store_InvalidPath _) = False"
| "faithful_store (Store_JoinError _) = False"
| "faithful_store Store_Unlisted = False"
| "faithful_store _ = True"

fun faithful :: "datafusion_error \<Rightarrow> bool" where
  "faithful (DF_ArrowError err _) = faithful_arrow err"
| "faithful (DF_ParquetError err) = (err \<noteq> Parquet_Unlisted)"
| "faithful (DF_ObjectStore err) = faithful_store err"
| "faithful (DF_IoError err) = (io_kind err \<noteq> KindUnlisted)"
| "faithful (DF_ExecutionJoin _) = False"
| "faithful (DF_Ffi _) = False"
| "faithful (DF_Context _ err) = faithful err"
| "faithful (DF_Diagnostic d err) = (d = '''' \<and> faithful err)"
| "faithful (DF_Collection errs) = (\<forall>err \<in> set errs. faithful err)"
| "faithful (DF_Shared err) = faithful err"
| "faithful _ = True"

section \<open>Lemmas\<close>

lemma datafusion_tags_known [simp]: "oneof_known datafusion_tags datafusion_tag inner = inner"
proof -
  have "datafusion_tag v \<in> set datafusion_tags" for v
    by (cases v) (simp_all add: datafusion_tags_def)
  then show ?thesis
    by (rule oneof_known_all)
qed

lemma parquet_error_of_recovers [simp]:
  "parquet_error_of ft (from_parquet_error err) = recovered_parquet_df ft err"
  by (simp add: parquet_error_of_def recovered_parquet_df_def)

lemma sql_error_of_recovers [simp]:
  "sql_error_of ft \<lparr>sql_err = Some (from_parser_error err), sql_backtrace = msg\<rparr> = recovered_sql_df ft err msg"
  by (simp add: sql_error_of_def recovered_sql_df_def unwrap_or_default_def)

lemma to_from_datafusion_error:
  "to_datafusion_err ft (datafusion_wire (from_datafusion_error e)) = recovered_df ft e"
  by (induction e rule: from_datafusion_error.induct) (simp_all split: prod.splits)

lemma recovered_df_settles:
  "recovered_df ft (recovered_df ft (recovered_df ft e)) = recovered_df ft (recovered_df ft e)"
proof (induction e rule: from_datafusion_error.induct)
  case (1 err msg)
  then show ?case
    by (cases err) simp_all
qed (simp_all add: recovered_parquet_df_def recovered_sql_df_def)

interpretation datafusion_codec: error_codec
  from_datafusion_error datafusion_wire "to_datafusion_err ft" "recovered_df ft" for ft
  by unfold_locales (simp_all add: to_from_datafusion_error recovered_df_settles)

lemma recovered_io_same_iff: "recovered_io e = e \<longleftrightarrow> io_kind e \<noteq> KindUnlisted"
  by (cases e) (auto simp: recovered_io_def recovered_kind_def)

lemma recovered_arrow_same_iff: "recovered_arrow (e, ctx) = (e, ctx) \<longleftrightarrow> faithful_arrow e"
  by (cases e) (auto simp: recovered_io_same_iff)

lemma parse_store_same_iff: "parse_store st = st \<longleftrightarrow> faithful_store_name st"
  by (auto simp: parse_store_def faithful_store_name_def)

lemma recovered_store_same_iff: "recovered_store e = e \<longleftrightarrow> faithful_store e"
  by (cases e) (auto simp: parse_store_same_iff)

lemma recovered_parquet_same_iff: "recovered_parquet e = e \<longleftrightarrow> e \<noteq> Parquet_Unlisted"
  by (cases e) simp_all

definition all_features :: features where
  "all_features = \<lparr>feature_sql = True, feature_parquet = True\<rparr>"

lemma recovered_df_same_iff: "recovered_df all_features e = e \<longleftrightarrow> faithful e"
proof (induction e rule: faithful.induct)
  case (1 err msg)
  then show ?case
    using recovered_arrow_same_iff [of err msg] by (auto split: prod.splits)
next
  case (9 errs)
  then show ?case
    by (simp add: map_same_iff)
qed (auto simp: all_features_def recovered_parquet_df_def recovered_sql_df_def
    recovered_parquet_same_iff recovered_store_same_iff recovered_io_same_iff)

text \<open>Crossing a boundary never makes the message of an error nest deeper.\<close>

lemma repeated_depth_map:
  "repeated_depth d (map f ms) = repeated_depth (\<lambda>m. d (f m)) ms"
  by (simp add: repeated_depth_def foldr_map comp_def)

lemma repeated_depth_mono:
  "(\<And>m. m \<in> set ms \<Longrightarrow> d m \<le> d' m) \<Longrightarrow> repeated_depth d ms \<le> repeated_depth d' ms"
proof (induction ms)
  case (Cons m ms)
  then have "repeated_depth d ms \<le> repeated_depth d' ms" "d m \<le> d' m"
    by simp_all
  then show ?case
    by (simp add: repeated_depth_def max.coboundedI1 max.coboundedI2)
qed (simp add: repeated_depth_def)

lemma arrow_depth_recovered:
  "recovered_arrow (err, msg) = (err', msg') \<Longrightarrow>
   arrow_depth (from_arrow_error err' msg') \<le> arrow_depth (from_arrow_error err msg)"
  by (cases err) (auto simp: arrow_depth_def from_arrow_error_def)

lemma parquet_depth_recovered:
  "parquet_depth (from_parquet_error (recovered_parquet err)) \<le> parquet_depth (from_parquet_error err)"
  by (cases err) (simp_all add: parquet_depth_def)

lemma store_depth_recovered:
  "store_depth (from_object_store_error (recovered_store err)) \<le> store_depth (from_object_store_error err)"
  by (cases err) (simp_all add: store_depth_def optional_depth_def)

lemma message_depth_recovered:
  "message_depth (from_datafusion_error (recovered_df ft e)) \<le> message_depth (from_datafusion_error e)"
proof (induction e rule: from_datafusion_error.induct)
  case (1 err msg)
  then show ?case
    by (auto simp: arrow_depth_recovered split: prod.splits)
next
  case (18 errs)
  then show ?case
    by (simp add: repeated_depth_map repeated_depth_mono)
qed (simp_all add: recovered_parquet_df_def recovered_sql_df_def parquet_depth_recovered
    store_depth_recovered)

text \<open>One boundary: the error is sent in a status and mapped back by the receiver.\<close>

definition boundary ::
  "features \<Rightarrow> (datafusion_error_proto \<Rightarrow> 'b) \<Rightarrow> ('b \<Rightarrow> (string, datafusion_error_proto) res) \<Rightarrow>
   ('b status \<Rightarrow> string) \<Rightarrow> datafusion_error \<Rightarrow> datafusion_error" where
  "boundary ft encode decode render e =
     map_status_to_datafusion_error ft decode render (datafusion_error_to_tonic_status encode e)"

lemma status_roundtrip:
  assumes "prost_codec limit encode decode" "message_depth (from_datafusion_error e) \<le> limit"
  shows "tonic_status_to_datafusion_error ft decode (datafusion_error_to_tonic_status encode e) =
    Some (recovered_df ft e)"
  using assms
  by (simp add: tonic_status_to_datafusion_error_def datafusion_error_to_tonic_status_def
      prost_codec_def to_from_datafusion_error)

lemma boundary_recovers:
  assumes "prost_codec limit encode decode" "message_depth (from_datafusion_error e) \<le> limit"
  shows "boundary ft encode decode render e = recovered_df ft e"
  using status_roundtrip [OF assms] by (simp add: boundary_def map_status_to_datafusion_error_def)

lemma boundaries_recover:
  assumes "prost_codec limit encode decode" "message_depth (from_datafusion_error e) \<le> limit"
  shows "(boundary ft encode decode render ^^ n) e = (recovered_df ft ^^ n) e \<and>
    message_depth (from_datafusion_error ((recovered_df ft ^^ n) e)) \<le> limit"
proof (induction n)
  case (Suc n)
  then show ?case
    using boundary_recovers [OF assms(1), of "(recovered_df ft ^^ n) e"]
      message_depth_recovered [of ft "(recovered_df ft ^^ n) e"]
    by simp
qed (simp add: assms(2))

section \<open>Properties\<close>

text \<open>C21. An error that is sent across a network boundary in a gRPC status arrives as the recovered
  error, whatever it is and however it nests within the limit of the Protobuf library; from the
  second boundary on it does not change any more.\<close>

theorem error_boundaries_settle:
  assumes "prost_codec limit encode decode" "message_depth (from_datafusion_error e) \<le> limit"
  shows "tonic_status_to_datafusion_error ft decode (datafusion_error_to_tonic_status encode e) =
      Some (recovered_df ft e) \<and>
    (boundary ft encode decode render ^^ (n + 2)) e = recovered_df ft (recovered_df ft e)"
proof -
  have "(boundary ft encode decode render ^^ (n + 2)) e = (recovered_df ft ^^ (n + 2)) e"
    using boundaries_recover [OF assms] by blast
  also have "\<dots> = recovered_df ft (recovered_df ft e)"
    using datafusion_codec.later_hops [where n = n and ft = ft and e = e]
    unfolding datafusion_codec.hops .
  finally show ?thesis
    using status_roundtrip [OF assms] by blast
qed

theorem error_boundaries_settle_witness:
  "(boundary all_features (\<lambda>p. p) (\<lambda>p. Inr (datafusion_wire p)) (\<lambda>_. '''') ^^ 5)
     (DF_Shared (DF_ObjectStore (Store_InvalidPath ''a//b''))) =
   DF_Shared (DF_ObjectStore (Store_Generic ''Unknown'' ''InvalidPath: a//b''))"
proof -
  let ?e = "DF_Shared (DF_ObjectStore (Store_InvalidPath ''a//b''))"
  have codec: "prost_codec 100 (\<lambda>p. p) (\<lambda>p. Inr (datafusion_wire p))"
    by (simp add: prost_codec_def)
  have "message_depth (from_datafusion_error ?e) \<le> 100"
    by (simp add: store_depth_def optional_depth_def)
  from error_boundaries_settle [OF codec this, where ft = all_features and render = "\<lambda>_. ''''" and n = 3]
  show ?thesis
    by (simp add: parse_store_def known_stores_def)
qed

text \<open>C20. An error reaches a peer built with all features unchanged, over any number of boundaries,
  exactly when it contains nothing that the messages cannot carry.\<close>

theorem error_faithful_iff:
  assumes "prost_codec limit encode decode" "message_depth (from_datafusion_error e) \<le> limit"
  shows "(\<forall>n. (boundary all_features encode decode render ^^ n) e = e) \<longleftrightarrow> faithful e"
proof -
  have "(\<forall>n. (boundary all_features encode decode render ^^ n) e = e) \<longleftrightarrow>
      (\<forall>n. (recovered_df all_features ^^ n) e = e)"
    using boundaries_recover [OF assms] by simp
  then show ?thesis
    using datafusion_codec.faithful_iff [of all_features e] recovered_df_same_iff
    by (simp add: datafusion_codec.hops)
qed

theorem error_faithful_iff_witness:
  "(boundary all_features (\<lambda>p. p) (\<lambda>p. Inr (datafusion_wire p)) (\<lambda>_. '''') ^^ 7)
     (DF_Context ''scan'' (DF_Collection [DF_Plan ''p'', DF_ArrowError Arrow_DivideByZero (Some ''ctx'')])) =
   DF_Context ''scan'' (DF_Collection [DF_Plan ''p'', DF_ArrowError Arrow_DivideByZero (Some ''ctx'')])"
proof -
  let ?e = "DF_Context ''scan'' (DF_Collection [DF_Plan ''p'', DF_ArrowError Arrow_DivideByZero (Some ''ctx'')])"
  have codec: "prost_codec 100 (\<lambda>p. p) (\<lambda>p. Inr (datafusion_wire p))"
    by (simp add: prost_codec_def)
  have "message_depth (from_datafusion_error ?e) \<le> 100"
    by (simp add: repeated_depth_def arrow_depth_def from_arrow_error_def)
  from error_faithful_iff [OF codec this, of "\<lambda>_. ''''"] show ?thesis
    by simp
qed

text \<open>C22. Avro errors do not survive a boundary: the tag of their variant is missing from the
  accepted ones, so any peer reports a malformed message instead, without the context.\<close>

theorem avro_error_lost:
  "to_datafusion_err ft (datafusion_wire (from_datafusion_error (DF_ArrowError (Arrow_AvroError msg) ctx))) =
     DF_ArrowError (Arrow_ExternalError ''Malformed protobuf message'') None"
  by (simp add: to_from_datafusion_error)

end
