(* ===== verification/SingleWriteMultiRead.thy ===== *)
theory SingleWriteMultiRead
  imports Prelude
begin

text \<open>
  The slot in which a worker publishes the data of a task
  (\<open>src/src/worker/single_write_multi_read.rs\<close>). A writer first reserves a generation and writes
  later; a retry reserves a newer generation, which makes the older writer stale. Readers may
  arrive before the value, wait for it, and freeze it by starting to read.

  The operations are the critical sections of the code. The second half of the theory is the
  system of one slot with any number of writers and readers whose critical sections interleave in
  any order, with the invariants that hold in every reachable state. Generations are natural
  numbers: the counter has 64 bits and grows by one per reservation. The watch channel cannot
  close while a reader uses it, because the slot owns its sender.
\<close>

section \<open>The slot\<close>

datatype 't slot_state = Empty | Reserved nat | Abandoned | Written 't

record 't swmr =
  slot :: "'t slot_state"
  read_started :: bool
  latest_reserved_generation :: nat

datatype swmr_error = AlreadyWritten | Timeout | NoValue

definition swmr_new :: "'t swmr" where
  "swmr_new = \<lparr>slot = Empty, read_started = False, latest_reserved_generation = 0\<rparr>"

definition reserve_write :: "'t swmr \<Rightarrow> nat \<times> 't swmr" where
  "reserve_write s =
     (let generation = latest_reserved_generation s + 1;
          s = s\<lparr>latest_reserved_generation := generation\<rparr>
      in (generation,
          case slot s of
            Written _ \<Rightarrow> s
          | _ \<Rightarrow> s\<lparr>slot := Reserved generation\<rparr>))"

definition abandon_generation :: "nat \<Rightarrow> 't swmr \<Rightarrow> 't swmr" where
  "abandon_generation generation s =
     (if generation < latest_reserved_generation s then s
      else case slot s of
             Reserved g \<Rightarrow> if g = generation then s\<lparr>slot := Abandoned\<rparr> else s
           | _ \<Rightarrow> s)"

definition is_written :: "'t slot_state \<Rightarrow> bool" where
  "is_written x = (case x of Written _ \<Rightarrow> True | _ \<Rightarrow> False)"

definition write_generation :: "nat \<Rightarrow> 't \<Rightarrow> 't swmr \<Rightarrow> (swmr_error, bool) res \<times> 't swmr" where
  "write_generation generation item s =
     (if generation < latest_reserved_generation s then (Inr False, s)
      else if \<not> is_written (slot s) \<or> \<not> read_started s then (Inr True, s\<lparr>slot := Written item\<rparr>)
      else (Inl AlreadyWritten, s))"

definition write_item :: "'t \<Rightarrow> 't swmr \<Rightarrow> (swmr_error, unit) res \<times> 't swmr" where
  "write_item item s =
     (let (generation, s) = reserve_write s;
          (r, s) = write_generation generation item s
      in (bind_res r (\<lambda>_. Inr ()), s))"

definition seal_with_value_if :: "('t \<Rightarrow> bool) \<Rightarrow> 't \<Rightarrow> 't swmr \<Rightarrow> bool \<times> 't swmr" where
  "seal_with_value_if predicate item s =
     (case slot s of
        Written current \<Rightarrow>
          if \<not> predicate current then (False, s)
          else (True, s\<lparr>read_started := True, slot := Written item\<rparr>)
      | _ \<Rightarrow> (False, s))"

text \<open>
  Both reading operations first mark the slot as being read, in a critical section of its own.
  \<open>read_now\<close> then looks at the slot once; \<open>read\<close> waits, with a timeout, until the slot is no longer
  empty, and then, without one, until it is written or abandoned. A wait is a poll that returns
  \<open>None\<close> as long as its condition does not hold.
\<close>

definition start_reading :: "'t swmr \<Rightarrow> 't swmr" where
  "start_reading s = s\<lparr>read_started := True\<rparr>"

definition read_now_peek :: "'t swmr \<Rightarrow> 't option" where
  "read_now_peek s = (case slot s of Written v \<Rightarrow> Some v | _ \<Rightarrow> None)"

definition read_arrival :: "bool \<Rightarrow> 't swmr \<Rightarrow> (swmr_error, unit) res option" where
  "read_arrival elapsed s =
     (if slot s \<noteq> Empty then Some (Inr ()) else if elapsed then Some (Inl Timeout) else None)"

definition read_value :: "'t swmr \<Rightarrow> (swmr_error, 't) res option" where
  "read_value s =
     (case slot s of
        Written v \<Rightarrow> Some (Inr v)
      | Abandoned \<Rightarrow> Some (Inl NoValue)
      | _ \<Rightarrow> None)"

section \<open>Writers and readers\<close>

text \<open>
  A system is the slot, the progress of every reader, and, as history, the generation that wrote
  the current value, the abandoned generations, and whether the value was replaced by sealing.
\<close>

datatype 't phase =
    Idle
  | AwaitingWriter
  | AwaitingValue
  | Peeking
  | Finished "(swmr_error, 't) res"
  | Peeked "'t option"

record 't slot_system =
  cell :: "'t swmr"
  phases :: "nat \<Rightarrow> 't phase"
  author :: nat
  abandoned :: "nat set"
  sealed :: bool

definition system_new :: "'t slot_system" where
  "system_new = \<lparr>cell = swmr_new, phases = (\<lambda>_. Idle), author = 0, abandoned = {}, sealed = False\<rparr>"

definition set_phase :: "nat \<Rightarrow> 't phase \<Rightarrow> 't slot_system \<Rightarrow> 't slot_system" where
  "set_phase i p s = s\<lparr>phases := (phases s)(i := p)\<rparr>"

inductive slot_step :: "'t slot_system \<Rightarrow> 't slot_system \<Rightarrow> bool" where
  reserve: "slot_step s (s\<lparr>cell := snd (reserve_write (cell s))\<rparr>)"
| abandon: "\<lbrakk>0 < g; g \<le> latest_reserved_generation (cell s)\<rbrakk> \<Longrightarrow>
    slot_step s (s\<lparr>cell := abandon_generation g (cell s), abandoned := insert g (abandoned s)\<rparr>)"
| wrote: "\<lbrakk>0 < g; g \<le> latest_reserved_generation (cell s);
     write_generation g v (cell s) = (r, c)\<rbrakk> \<Longrightarrow>
    slot_step s (s\<lparr>cell := c, author := if r = Inr True then g else author s\<rparr>)"
| seal: "seal_with_value_if p v (cell s) = (b, c) \<Longrightarrow>
    slot_step s (s\<lparr>cell := c, sealed := (sealed s \<or> b)\<rparr>)"
| start: "phases s i = Idle \<Longrightarrow>
    slot_step s (set_phase i AwaitingWriter (s\<lparr>cell := start_reading (cell s)\<rparr>))"
| start_now: "phases s i = Idle \<Longrightarrow>
    slot_step s (set_phase i Peeking (s\<lparr>cell := start_reading (cell s)\<rparr>))"
| peek: "phases s i = Peeking \<Longrightarrow>
    slot_step s (set_phase i (Peeked (read_now_peek (cell s))) s)"
| arrived: "\<lbrakk>phases s i = AwaitingWriter; read_arrival elapsed (cell s) = Some (Inr ())\<rbrakk> \<Longrightarrow>
    slot_step s (set_phase i AwaitingValue s)"
| timed_out: "\<lbrakk>phases s i = AwaitingWriter; read_arrival elapsed (cell s) = Some (Inl e)\<rbrakk> \<Longrightarrow>
    slot_step s (set_phase i (Finished (Inl e)) s)"
| finish: "\<lbrakk>phases s i = AwaitingValue; read_value (cell s) = Some r\<rbrakk> \<Longrightarrow>
    slot_step s (set_phase i (Finished r) s)"

inductive_cases slot_stepE: "slot_step s t"

inductive slot_reach :: "'t slot_system \<Rightarrow> bool" where
  init: "slot_reach system_new"
| step: "slot_reach s \<Longrightarrow> slot_step s t \<Longrightarrow> slot_reach t"

section \<open>Invariants\<close>

fun value_read :: "'t phase \<Rightarrow> 't option" where
  "value_read (Finished (Inr v)) = Some v"
| "value_read (Peeked r) = r"
| "value_read _ = None"

text \<open>
  What holds in every reachable state: a reservation in the slot is the latest one and was not
  abandoned, an abandoned slot was abandoned by the latest reservation, a written value was
  written by a generation that was handed out, and as long as nobody sealed the slot, every value
  that was read is the one in the slot, frozen because reading has started.
\<close>

definition slot_inv :: "'t slot_system \<Rightarrow> bool" where
  "slot_inv s \<longleftrightarrow>
     (case slot (cell s) of
        Empty \<Rightarrow> latest_reserved_generation (cell s) = 0
      | Reserved g \<Rightarrow> g = latest_reserved_generation (cell s) \<and> g \<notin> abandoned s
      | Abandoned \<Rightarrow> latest_reserved_generation (cell s) \<in> abandoned s
      | Written v \<Rightarrow> 0 < author s) \<and>
     (\<forall>g \<in> abandoned s. g \<le> latest_reserved_generation (cell s)) \<and>
     author s \<le> latest_reserved_generation (cell s) \<and>
     (\<forall>i. phases s i \<noteq> Idle \<longrightarrow> read_started (cell s)) \<and>
     (\<forall>i. phases s i = AwaitingValue \<longrightarrow> slot (cell s) \<noteq> Empty) \<and>
     (\<forall>i v. \<not> sealed s \<longrightarrow> value_read (phases s i) = Some v \<longrightarrow> slot (cell s) = Written v)"

lemma slot_inv_init: "slot_inv system_new"
  by (simp add: slot_inv_def system_new_def swmr_new_def)

lemmas slot_op_defs = reserve_write_def abandon_generation_def write_generation_def
  seal_with_value_if_def start_reading_def read_now_peek_def read_arrival_def read_value_def
  is_written_def set_phase_def Let_def

lemma slot_step_inv: "slot_step s t \<Longrightarrow> slot_inv s \<Longrightarrow> slot_inv t"
  by (cases rule: slot_step.cases, assumption)
    (auto simp: slot_inv_def slot_op_defs le_Suc_eq split: slot_state.splits if_splits)

lemma slot_reach_inv: "slot_reach s \<Longrightarrow> slot_inv s"
  by (induction rule: slot_reach.induct) (auto intro: slot_inv_init slot_step_inv)

lemma slot_reach_steps: "slot_step\<^sup>*\<^sup>* s t \<Longrightarrow> slot_reach s \<Longrightarrow> slot_reach t"
  by (induction rule: rtranclp_induct) (auto intro: slot_reach.step)

lemma slot_step_not_empty: "slot_step s t \<Longrightarrow> slot (cell s) \<noteq> Empty \<Longrightarrow> slot (cell t) \<noteq> Empty"
  by (cases rule: slot_step.cases, assumption)
    (auto simp: slot_op_defs split: slot_state.splits if_splits)

lemma slot_step_no_timeout:
  "slot_step s t \<Longrightarrow> slot (cell s) \<noteq> Empty \<Longrightarrow> phases s i \<noteq> Finished (Inl Timeout) \<Longrightarrow>
   phases t i \<noteq> Finished (Inl Timeout)"
  by (cases rule: slot_step.cases, assumption)
    (auto simp: slot_op_defs split: slot_state.splits if_splits)

lemma slot_step_author: "slot_step s t \<Longrightarrow> slot_inv s \<Longrightarrow> author s \<le> author t"
  by (cases rule: slot_step.cases, assumption)
    (auto simp: slot_inv_def slot_op_defs split: slot_state.splits if_splits)

text \<open>A run used by the examples: one writer, one reader that waits for it.\<close>

definition example_cell :: "nat slot_state \<Rightarrow> bool \<Rightarrow> nat swmr" where
  "example_cell x r = \<lparr>slot = x, read_started = r, latest_reserved_generation = 1\<rparr>"

definition example_system :: "nat slot_state \<Rightarrow> bool \<Rightarrow> nat phase \<Rightarrow> nat \<Rightarrow> nat slot_system" where
  "example_system x r p a =
     \<lparr>cell = example_cell x r, phases = (\<lambda>_. Idle)(0 := p), author = a, abandoned = {}, sealed = False\<rparr>"

lemmas example_defs = example_system_def example_cell_def system_new_def swmr_new_def slot_op_defs

lemma example_reserved: "slot_reach (example_system (Reserved 1) False Idle 0)"
  using slot_reach.step [OF slot_reach.init slot_step.reserve] by (simp add: example_defs fun_upd_idem)

lemma example_waiting: "slot_reach (example_system (Reserved 1) True AwaitingWriter 0)"
  using slot_reach.step [OF example_reserved slot_step.start [where i = 0]] by (simp add: example_defs)

lemma example_arrived: "slot_reach (example_system (Reserved 1) True AwaitingValue 0)"
  using slot_reach.step [OF example_waiting slot_step.arrived [where i = 0 and elapsed = False]]
  by (simp add: example_defs)

lemma example_written: "slot_reach (example_system (Written 7) True AwaitingValue 1)"
  using slot_reach.step [OF example_arrived slot_step.wrote [where g = 1 and v = 7]]
  by (simp add: example_defs)

lemma example_finished: "slot_reach (example_system (Written 7) True (Finished (Inr 7)) 1)"
  using slot_reach.step [OF example_written slot_step.finish [where i = 0]] by (simp add: example_defs)

section \<open>Properties\<close>

text \<open>C23. As long as nobody seals the slot, all readers that obtain a value obtain the same one,
  whatever retries and stale writers do: it is the value in the slot, and every further write is
  refused or ignored and leaves it there.\<close>

theorem swmr_readers_agree:
  assumes "slot_reach s" "\<not> sealed s" "value_read (phases s i) = Some u"
  shows "slot (cell s) = Written u \<and>
    (\<forall>j v. value_read (phases s j) = Some v \<longrightarrow> v = u) \<and>
    write_generation g w (cell s) \<in> {(Inr False, cell s), (Inl AlreadyWritten, cell s)}"
proof -
  note inv = slot_reach_inv [OF assms(1)]
  have written: "slot (cell s) = Written v" if "value_read (phases s j) = Some v" for j v
    using inv assms(2) that by (simp add: slot_inv_def)
  have "phases s i \<noteq> Idle"
    using assms(3) by auto
  then have "read_started (cell s)"
    using inv unfolding slot_inv_def by blast
  then show ?thesis
    using written written [OF assms(3)] by (auto simp: write_generation_def is_written_def)
qed

theorem swmr_readers_agree_witness:
  "write_generation 1 8 (cell (example_system (Written 7) True (Finished (Inr 7)) 1)) =
    (Inl AlreadyWritten, example_cell (Written 7) True)"
  using swmr_readers_agree [OF example_finished, of 0 7 1 8] by (auto simp: example_defs)

text \<open>A reader never times out once a writer has reserved the slot, however long the writer
  takes: the timeout only bounds the wait for a writer to arrive.\<close>

theorem swmr_no_timeout_after_reserve:
  assumes "slot (cell s) \<noteq> Empty" "phases s i \<noteq> Finished (Inl Timeout)" "slot_step\<^sup>*\<^sup>* s t"
  shows "phases t i \<noteq> Finished (Inl Timeout)"
proof -
  from assms(3) have "slot (cell t) \<noteq> Empty \<and> phases t i \<noteq> Finished (Inl Timeout)"
    by (induction rule: rtranclp_induct)
      (use assms slot_step_not_empty slot_step_no_timeout in blast)+
  then show ?thesis ..
qed

theorem swmr_no_timeout_after_reserve_witness:
  "phases (example_system (Reserved 1) True AwaitingValue 0) 0 \<noteq> Finished (Inl Timeout)"
proof -
  let ?s = "example_system (Reserved 1) True AwaitingWriter 0"
  have "slot_step ?s (example_system (Reserved 1) True AwaitingValue 0)"
    using slot_step.arrived [where s = ?s and i = 0 and elapsed = True] by (simp add: example_defs)
  moreover have "slot (cell ?s) \<noteq> Empty" "phases ?s 0 \<noteq> Finished (Inl Timeout)"
    by (simp_all add: example_defs)
  ultimately show ?thesis
    using swmr_no_timeout_after_reserve by blast
qed

text \<open>A value is never replaced by one of an older generation: along every execution the
  generation of the writer whose value is in the slot only grows.\<close>

theorem swmr_newest_writer_wins:
  assumes "slot_reach s" "slot_step\<^sup>*\<^sup>* s t"
  shows "author s \<le> author t"
  using assms(2)
proof (induction rule: rtranclp_induct)
  case (step t u)
  then show ?case
    using slot_reach_inv [OF slot_reach_steps [OF step.hyps(1) assms(1)]] slot_step_author
    by (blast intro: order_trans)
qed simp

theorem swmr_newest_writer_wins_witness:
  "author (example_system (Reserved 1) True AwaitingValue 0) \<le>
   author (example_system (Written 7) True AwaitingValue 1)"
proof -
  have "slot_step (example_system (Reserved 1) True AwaitingValue 0) (example_system (Written 7) True AwaitingValue 1)"
    using slot_step.wrote [where g = 1 and v = 7 and s = "example_system (Reserved 1) True AwaitingValue 0"]
    by (simp add: example_defs)
  then show ?thesis
    using swmr_newest_writer_wins [OF example_arrived] by blast
qed

text \<open>A reader waiting for the value is only ever held up by the latest reservation, which is
  neither written nor abandoned yet; otherwise it can finish.\<close>

theorem swmr_reader_progress:
  assumes "slot_reach s" "phases s i = AwaitingValue"
  shows "(\<exists>r. slot_step s (set_phase i (Finished r) s)) \<or>
    slot (cell s) = Reserved (latest_reserved_generation (cell s)) \<and>
      latest_reserved_generation (cell s) \<notin> abandoned s"
proof -
  have inv: "slot_inv s"
    using assms(1) by (rule slot_reach_inv)
  show ?thesis
  proof (cases "read_value (cell s)")
    case (Some r)
    then show ?thesis
      using slot_step.finish [OF assms(2) Some] by blast
  next
    case None
    then show ?thesis
      using inv assms(2) by (auto simp: slot_inv_def read_value_def split: slot_state.splits)
  qed
qed

theorem swmr_reader_progress_witness:
  "\<exists>r. slot_step (example_system (Written 7) True AwaitingValue 1)
     (set_phase 0 (Finished r) (example_system (Written 7) True AwaitingValue 1))"
  using swmr_reader_progress [OF example_written, of 0] by (simp add: example_system_def example_cell_def)

end
