(* ===== verification/PlanTree.thy ===== *)
theory PlanTree
  imports ChildrenIsolatorUnion NetworkShuffle NetworkCoalesce NetworkBroadcast
begin

text \<open>
  Physical plans as the program sees them. A plan is a node and its children; a node is what a
  downcast reveals: the operators of the query engine that the program recognises, with the fields
  it reads, the program's own operators, and \<open>OtherNode\<close> for everything else. A network boundary
  keeps its input stage without the plan, which is the boundary's only child while the stage is
  local; a remote stage has no plan and the boundary no child.

  Joins have two children, the first one being the left or build side.
\<close>

section \<open>Plans\<close>

type_synonym url = string
type_synonym uuid = nat
type_synonym stage_ref = "(uuid, unit, unit, url, unit, unit) stage"

datatype join_type =
    Inner | LeftJoin | RightJoin | FullJoin | LeftSemi | RightSemi | LeftAnti | RightAnti
  | LeftMark | RightMark

datatype partition_mode = Partitioned | CollectLeft | AutoMode

datatype aggregate_mode =
    PartialAgg | FinalAgg | FinalPartitioned | SingleAgg | SinglePartitioned | PartialReduce

record 'x group_by =
  gb_expr :: "('x \<times> string) list"
  gb_null_expr :: "('x \<times> string) list"
  gb_groups :: "bool list list"
  gb_has_grouping_set :: bool

record 'x aggregate =
  agg_mode :: aggregate_mode
  agg_group_by :: "'x group_by"
  agg_aggr_expr :: "'x list"
  agg_filter_expr :: "'x option list"

datatype ('x, 'r, 'q, 'o) node =
    HashJoinNode partition_mode join_type bool "('x \<times> 'x) list"
  | NestedLoopJoinNode join_type
  | CrossJoinNode
  | CoalescePartitionsNode "nat option"
  | SortPreservingMergeNode "nat option"
  | RepartitionNode "('x, 'r) partitioning" bool
  | AggregateNode "'x aggregate"
  | UnionNode
  | GlobalLimitNode nat "nat option"
  | BroadcastNode nat
  | SamplerNode
  | IsolatorUnionNode "(unit, ('x, 'r, 'q) plan_properties) children_isolator_union"
  | DistributedLeafNode 'o "'o list"
  | ShuffleNode "('x, 'r, 'q, stage_ref) network_shuffle"
  | NetworkCoalesceNode "('x, 'r, 'q, stage_ref) network_coalesce"
  | NetworkBroadcastNode "('x, 'r, 'q, stage_ref) network_broadcast"
  | OtherNode 'o

datatype (nodes_of: 'n) tree = Plan (node_of: 'n) (kids: "'n tree list")
  for map: map_tree

type_synonym ('x, 'r, 'q, 'o) plan = "('x, 'r, 'q, 'o) node tree"

text \<open>\<open>as_network_boundary\<close> and the input stage of a boundary.\<close>

fun input_stage :: "('x, 'r, 'q, 'o) node \<Rightarrow> stage_ref option" where
  "input_stage (ShuffleNode sh) = Some (sh_input_stage sh)"
| "input_stage (NetworkCoalesceNode co) = Some (co_input_stage co)"
| "input_stage (NetworkBroadcastNode br) = Some (br_input_stage br)"
| "input_stage _ = None"

definition is_network_boundary :: "('x, 'r, 'q, 'o) node \<Rightarrow> bool" where
  "is_network_boundary n \<longleftrightarrow> input_stage n \<noteq> None"

text \<open>The joins that collect their left side before they emit anything.\<close>

definition collects_left :: "('x, 'r, 'q, 'o) node \<Rightarrow> bool" where
  "collects_left n =
     (case n of
        HashJoinNode _ _ _ _ \<Rightarrow> True
      | NestedLoopJoinNode _ \<Rightarrow> True
      | CrossJoinNode \<Rightarrow> True
      | _ \<Rightarrow> False)"

text \<open>
  The shape of the plans that the program builds: a boundary has exactly one child if its stage is
  local and none if it is remote, an isolating union has a child for each of its entries, a
  join has two, and a repartition or broadcast has one.
\<close>

definition wf_node :: "('x, 'r, 'q, 'o) node \<Rightarrow> nat \<Rightarrow> bool" where
  "wf_node n k \<longleftrightarrow>
     (case input_stage n of
        Some (Local _) \<Rightarrow> k = 1
      | Some (Remote _) \<Rightarrow> k = 0
      | None \<Rightarrow> (case n of IsolatorUnionNode u \<Rightarrow> length (children u) = k
                 | RepartitionNode _ _ \<Rightarrow> k = 1
                 | BroadcastNode _ \<Rightarrow> k = 1
                 | _ \<Rightarrow> collects_left n \<longrightarrow> k = 2))"

primrec wf_plan :: "('x, 'r, 'q, 'o) plan \<Rightarrow> bool" where
  "wf_plan (Plan n cs) \<longleftrightarrow> wf_node n (length cs) \<and> list_all wf_plan cs"

end
