(* ===== verification/TreeRewrite.thy ===== *)
theory TreeRewrite
  imports Prelude
begin

text \<open>
  The generic tree operations of the query engine that the planner passes and the program's own
  traversals (\<open>src/src/common/recursion.rs\<close>) are built on: visitors that may skip or stop, and
  rewriters that go down, up, or both ways. They belong to the engine, so they are parameters of
  the definitions that use them. The laws below state their documented behaviour for given
  closures; a closure and a rewriter take and return the state that the closures capture.
\<close>

section \<open>Visitors\<close>

datatype recursion = Continue | Jump | Stop

type_synonym ('e, 's) visit = "'s \<Rightarrow> ('e, recursion \<times> 's) res"

text \<open>
  \<open>visit_children\<close> decides from the visitor's answer whether to go on with the children, and
  \<open>apply_until_stop\<close> runs a sequence of visits until one of them says stop.
\<close>

record ('e, 's) visit_lib =
  visit_children :: "recursion \<Rightarrow> ('e, 's) visit \<Rightarrow> ('e, 's) visit"
  apply_until_stop :: "('e, 's) visit list \<Rightarrow> ('e, 's) visit"

definition visit_law :: "('e, 's) visit_lib \<Rightarrow> bool" where
  "visit_law L \<longleftrightarrow>
     (\<forall>g s. visit_children L Continue g s = g s) \<and>
     (\<forall>g s. visit_children L Jump g s = Inr (Continue, s)) \<and>
     (\<forall>g s. visit_children L Stop g s = Inr (Stop, s)) \<and>
     (\<forall>s. apply_until_stop L [] s = Inr (Continue, s)) \<and>
     (\<forall>g s. apply_until_stop L [g] s = g s) \<and>
     (\<forall>g h gs s. apply_until_stop L (g # h # gs) s =
        bind_res (g s) (\<lambda>(t, s). if t = Stop then Inr (Stop, s) else apply_until_stop L (h # gs) s))"

text \<open>A visitor library that meets the law, for the examples.\<close>

fun run_until_stop :: "('e, 's) visit list \<Rightarrow> ('e, 's) visit" where
  "run_until_stop [] s = Inr (Continue, s)"
| "run_until_stop [g] s = g s"
| "run_until_stop (g # h # gs) s =
     bind_res (g s) (\<lambda>(t, s). if t = Stop then Inr (Stop, s) else run_until_stop (h # gs) s)"

definition example_visit_lib :: "('e, 's) visit_lib" where
  "example_visit_lib =
     \<lparr>visit_children = (\<lambda>t g s. case t of Continue \<Rightarrow> g s | Jump \<Rightarrow> Inr (Continue, s) | Stop \<Rightarrow> Inr (Stop, s)),
      apply_until_stop = run_until_stop\<rparr>"

lemma example_visit_lib_law: "visit_law example_visit_lib"
  unfolding visit_law_def example_visit_lib_def visit_lib.simps run_until_stop.simps recursion.case
  by simp

lemma visit_lawD:
  assumes "visit_law L"
  shows "visit_children L Continue g s = g s"
    and "apply_until_stop L [] s = Inr (Continue, s)"
    and "apply_until_stop L [g] s = g s"
    and "apply_until_stop L (g # h # gs) s =
      bind_res (g s) (\<lambda>(t, s). if t = Stop then Inr (Stop, s) else apply_until_stop L (h # gs) s)"
  using assms unfolding visit_law_def by blast+

text \<open>A sequence of visits that all continue runs to its end.\<close>

lemma apply_until_stop_continue:
  assumes "visit_law L" "\<And>x s. x \<in> set xs \<Longrightarrow> g x s = Inr (Continue, h x s)"
  shows "apply_until_stop L (map g xs) s = Inr (Continue, fold h xs s)"
  using assms(2)
proof (induction xs arbitrary: s rule: induct_list012)
  case 1
  show ?case by (simp add: visit_lawD(2) [OF assms(1)])
next
  case (2 x)
  have "g x s = Inr (Continue, h x s)"
    by (rule 2) simp
  then show ?case by (simp add: visit_lawD(3) [OF assms(1)])
next
  case (3 x y xs)
  have "g x s = Inr (Continue, h x s)"
    by (rule 3(3)) simp
  moreover have "apply_until_stop L (map g (y # xs)) (h x s) = Inr (Continue, fold h (y # xs) (h x s))"
    by (rule 3(2)) (rule 3(3), simp)
  ultimately show ?case
    by (simp add: visit_lawD(4) [OF assms(1)])
qed

section \<open>Rewriters\<close>

text \<open>\<open>Transformed\<close>: the new tree, whether it changed, and how the recursion goes on.\<close>

record 'p transformed =
  data :: 'p
  changed :: bool
  tnr :: recursion

definition yes :: "'p \<Rightarrow> 'p transformed" where
  "yes p = \<lparr>data = p, changed = True, tnr = Continue\<rparr>"

definition no :: "'p \<Rightarrow> 'p transformed" where
  "no p = \<lparr>data = p, changed = False, tnr = Continue\<rparr>"

type_synonym ('e, 's, 'p) rewriter = "'p \<Rightarrow> 's \<Rightarrow> ('e, 'p transformed \<times> 's) res"

text \<open>
  The children of a node are rewritten in order until one stops; the node is rebuilt from the
  results, by the node's own \<open>rebuild\<close>, only if one of them changed.
\<close>

primrec rewrite_until_stop ::
  "('e, 's, 'p) rewriter \<Rightarrow> 'p list \<Rightarrow> recursion \<Rightarrow> 's \<Rightarrow> ('e, ('p list \<times> bool \<times> recursion) \<times> 's) res" where
  "rewrite_until_stop g [] t s = Inr (([], False, t), s)"
| "rewrite_until_stop g (p # ps) t s =
     (if t = Stop then Inr ((p # ps, False, Stop), s)
      else bind_res (g p s) (\<lambda>(r, s).
             bind_res (rewrite_until_stop g ps (tnr r) s) (\<lambda>((ps', ch, t), s).
               Inr ((data r # ps', changed r \<or> ch, t), s))))"

definition rewrite_children ::
  "('p \<Rightarrow> 'p list) \<Rightarrow> ('p \<Rightarrow> 'p list \<Rightarrow> ('e, 'p) res) \<Rightarrow> ('e, 's, 'p) rewriter \<Rightarrow> ('e, 's, 'p) rewriter" where
  "rewrite_children children_of rebuild g p s =
     (if children_of p = [] then Inr (no p, s)
      else bind_res (rewrite_until_stop g (children_of p) Continue s) (\<lambda>((ps, ch, t), s).
             if ch then bind_res (rebuild p ps) (\<lambda>p. Inr (\<lparr>data = p, changed = True, tnr = t\<rparr>, s))
             else Inr (\<lparr>data = p, changed = False, tnr = t\<rparr>, s)))"

definition rewrite_parent :: "('e, 's, 'p) rewriter \<Rightarrow> 'p transformed \<Rightarrow> 's \<Rightarrow> ('e, 'p transformed \<times> 's) res" where
  "rewrite_parent f t s =
     (if tnr t = Continue then
        bind_res (f (data t) s) (\<lambda>(t', s). Inr (t'\<lparr>changed := changed t' \<or> changed t\<rparr>, s))
      else Inr (t, s))"

text \<open>The three rewriters, for given closures.\<close>

definition transform_up_law where
  "transform_up_law children_of rebuild transform_up f \<longleftrightarrow>
     (\<forall>p s. transform_up f p s =
        bind_res (rewrite_children children_of rebuild (transform_up f) p s) (\<lambda>(t, s). rewrite_parent f t s))"

definition transform_down_law where
  "transform_down_law children_of rebuild transform_down f \<longleftrightarrow>
     (\<forall>p s. transform_down f p s =
        bind_res (f p s) (\<lambda>(t, s).
          case tnr t of
            Stop \<Rightarrow> Inr (t, s)
          | Jump \<Rightarrow> Inr (t\<lparr>tnr := Continue\<rparr>, s)
          | Continue \<Rightarrow>
              bind_res (rewrite_children children_of rebuild (transform_down f) (data t) s) (\<lambda>(t', s).
                Inr (t'\<lparr>changed := changed t' \<or> changed t\<rparr>, s))))"

definition transform_down_up_law where
  "transform_down_up_law children_of rebuild transform_down_up f_down f_up \<longleftrightarrow>
     (\<forall>p s. transform_down_up f_down f_up p s =
        bind_res (f_down p s) (\<lambda>(t, s).
          case tnr t of
            Stop \<Rightarrow> Inr (t, s)
          | Jump \<Rightarrow> rewrite_parent f_up (t\<lparr>tnr := Continue\<rparr>) s
          | Continue \<Rightarrow>
              bind_res (rewrite_children children_of rebuild (transform_down_up f_down f_up) (data t) s)
                (\<lambda>(t', s). rewrite_parent f_up (t'\<lparr>changed := changed t' \<or> changed t\<rparr>) s)))"

definition map_children_law where
  "map_children_law children_of rebuild map_children f \<longleftrightarrow>
     (\<forall>p s. map_children f p s = rewrite_children children_of rebuild f p s)"

lemmas rewrite_laws = map_children_law_def transform_up_law_def transform_down_law_def transform_down_up_law_def

lemma yes_no_simps [simp]:
  "data (yes p) = p" "changed (yes p)" "tnr (yes p) = Continue"
  "data (no p) = p" "\<not> changed (no p)" "tnr (no p) = Continue"
  by (simp_all add: yes_def no_def)

section \<open>Rewriting with a stack\<close>

text \<open>
  A closure that keeps a stack of contexts, its top at the end: it pops the context of the node it
  is given, lets \<open>g\<close> rewrite the node in that context, and pushes the contexts that \<open>g\<close> chooses for
  the new node's children, the first child's on top. Popping an empty stack panics.
\<close>

definition with_stack ::
  "'e \<Rightarrow> ('c \<Rightarrow> 'p \<Rightarrow> 's \<Rightarrow> ('e, 'p transformed \<times> 'c list \<times> 's) res) \<Rightarrow> ('e, 'c list \<times> 's, 'p) rewriter" where
  "with_stack panic g p st =
     (case st of (stack, s) \<Rightarrow>
        if stack = [] then Inl panic
        else bind_res (g (last stack) p s) (\<lambda>(t, cxs, s). Inr (t, (butlast stack @ rev cxs, s))))"

text \<open>
  The direct recursion that this should amount to: every node is rewritten in its own context, its
  children in theirs.
\<close>

inductive down_run and down_runs
  for children_of :: "'p \<Rightarrow> 'p list"
    and rebuild :: "'p \<Rightarrow> 'p list \<Rightarrow> ('e, 'p) res"
    and g :: "'c \<Rightarrow> 'p \<Rightarrow> 's \<Rightarrow> ('e, 'p transformed \<times> 'c list \<times> 's) res"
  where
  stop: "\<lbrakk>g c p s = Inr (t, cxs, s'); tnr t = Stop\<rbrakk> \<Longrightarrow> down_run children_of rebuild g c p s t s'"
| jump: "\<lbrakk>g c p s = Inr (t, [], s'); tnr t = Jump\<rbrakk> \<Longrightarrow>
    down_run children_of rebuild g c p s (t\<lparr>tnr := Continue\<rparr>) s'"
| down: "\<lbrakk>g c p s = Inr (t, cxs, s1); tnr t = Continue;
     down_runs children_of rebuild g cxs (children_of (data t)) s1 ps ch r s2;
     if ch then rebuild (data t) ps = Inr q else q = data t\<rbrakk> \<Longrightarrow>
    down_run children_of rebuild g c p s \<lparr>data = q, changed = ch \<or> changed t, tnr = r\<rparr> s2"
| nil: "down_runs children_of rebuild g [] [] s [] False Continue s"
| last_stop: "\<lbrakk>down_run children_of rebuild g c p s t s1; tnr t = Stop; length cs = length ps\<rbrakk> \<Longrightarrow>
    down_runs children_of rebuild g (c # cs) (p # ps) s (data t # ps) (changed t) Stop s1"
| cons: "\<lbrakk>down_run children_of rebuild g c p s t s1; tnr t \<noteq> Stop;
     down_runs children_of rebuild g cs ps s1 ps' ch r s2\<rbrakk> \<Longrightarrow>
    down_runs children_of rebuild g (c # cs) (p # ps) s (data t # ps') (changed t \<or> ch) r s2"

lemma down_run_tnr:
  "down_run children_of rebuild g c p s t s' \<Longrightarrow> tnr t \<noteq> Jump"
  "down_runs children_of rebuild g cs ps s ps' ch r s' \<Longrightarrow> r \<noteq> Jump"
  by (induction rule: down_run_down_runs.inducts) auto

lemma rewrite_until_stop_Stop [simp]:
  "rewrite_until_stop g ps Stop s = Inr ((ps, False, Stop), s)"
  by (cases ps) simp_all

text \<open>One child after the other, the remaining contexts on the stack.\<close>

lemma stack_children_step:
  assumes "h p (base @ rev (c # cs), s) = Inr (t, (stack, s1))"
    and "tnr t \<noteq> Stop \<Longrightarrow> stack = base @ rev cs"
    and "tnr t \<noteq> Jump"
    and "tnr t \<noteq> Stop \<Longrightarrow> \<exists>stack'.
      rewrite_until_stop h ps Continue (base @ rev cs, s1) = Inr ((ps', ch, r), (stack', s2)) \<and>
      (r \<noteq> Stop \<longrightarrow> stack' = base)"
  shows "\<exists>stack'. rewrite_until_stop h (p # ps) Continue (base @ rev (c # cs), s) =
      Inr (if tnr t = Stop then ((data t # ps, changed t, Stop), (stack', s1))
           else ((data t # ps', changed t \<or> ch, r), (stack', s2))) \<and>
    (tnr t \<noteq> Stop \<longrightarrow> r \<noteq> Stop \<longrightarrow> stack' = base)"
proof (cases "tnr t = Stop")
  case True
  then show ?thesis using assms(1) by simp
next
  case False
  then have "tnr t = Continue"
    using assms(3) by (cases "tnr t") simp_all
  then show ?thesis using assms(1,2,4) False by auto
qed

lemma with_stack_top [simp]:
  "with_stack panic g p (base @ [c], s) = bind_res (g c p s) (\<lambda>(t, cxs, s). Inr (t, (base @ rev cxs, s)))"
  by (simp add: with_stack_def)

lemma rewrite_children_result:
  assumes "rewrite_until_stop h (children_of p) Continue st = Inr ((ps, ch, r), st')"
    "if ch then rebuild p ps = Inr q else q = p" "children_of p = [] \<Longrightarrow> st' = st"
  shows "rewrite_children children_of rebuild h p st = Inr (\<lparr>data = q, changed = ch, tnr = r\<rparr>, st')"
  using assms by (auto simp: rewrite_children_def no_def split: if_splits)

lemma rewrite_until_stop_nil: "rewrite_until_stop h [] t st = Inr ((ps, ch, r), st') \<Longrightarrow> st' = st"
  by simp

text \<open>Going down with the engine's \<open>transform_down\<close>.\<close>

lemma stack_transform_down:
  assumes law: "transform_down_law children_of rebuild td (with_stack panic g)"
  shows "down_run children_of rebuild g c p s t s' \<Longrightarrow>
      \<forall>base. \<exists>stack. td (with_stack panic g) p (base @ [c], s) = Inr (t, (stack, s')) \<and>
        (tnr t \<noteq> Stop \<longrightarrow> stack = base)"
    and "down_runs children_of rebuild g cs ps s ps' ch r s' \<Longrightarrow>
      \<forall>base. \<exists>stack. rewrite_until_stop (td (with_stack panic g)) ps Continue (base @ rev cs, s) =
        Inr ((ps', ch, r), (stack, s')) \<and> (r \<noteq> Stop \<longrightarrow> stack = base)"
proof (induction rule: down_run_down_runs.inducts)
  case (stop c p s t cxs s')
  then show ?case using law by (simp add: transform_down_law_def)
next
  case (jump c p s t s')
  then show ?case using law by (simp add: transform_down_law_def)
next
  case (down c p s t cxs s1 ps ch r s2 q)
  show ?case
  proof
    fix base
    obtain stack where run: "rewrite_until_stop (td (with_stack panic g)) (children_of (data t)) Continue
        (base @ rev cxs, s1) = Inr ((ps, ch, r), (stack, s2))" and base: "r \<noteq> Stop \<longrightarrow> stack = base"
      using down(3) by blast
    have "rewrite_children children_of rebuild (td (with_stack panic g)) (data t) (base @ rev cxs, s1) =
        Inr (\<lparr>data = q, changed = ch, tnr = r\<rparr>, (stack, s2))"
      using run down(4) by (rule rewrite_children_result) (use run in simp)
    then show "\<exists>stack. td (with_stack panic g) p (base @ [c], s) =
        Inr (\<lparr>data = q, changed = ch \<or> changed t, tnr = r\<rparr>, (stack, s2)) \<and>
        (tnr \<lparr>data = q, changed = ch \<or> changed t, tnr = r\<rparr> \<noteq> Stop \<longrightarrow> stack = base)"
      using law down(1,5) base by (simp add: transform_down_law_def)
  qed
next
  case (nil s)
  then show ?case by simp
next
  case (last_stop c p s t s1 cs ps)
  show ?case
  proof
    fix base
    obtain stack where "td (with_stack panic g) p ((base @ rev cs) @ [c], s) = Inr (t, (stack, s1))"
      using last_stop(2) by blast
    then show "\<exists>stack. rewrite_until_stop (td (with_stack panic g)) (p # ps) Continue
        (base @ rev (c # cs), s) = Inr ((data t # ps, changed t, Stop), (stack, s1)) \<and>
        (Stop \<noteq> Stop \<longrightarrow> stack = base)"
      using last_stop(3) by simp
  qed
next
  case (cons c p s t s1 cs ps ps' ch r s2)
  show ?case
  proof
    fix base
    obtain stack where "td (with_stack panic g) p ((base @ rev cs) @ [c], s) = Inr (t, (stack, s1))"
      "tnr t \<noteq> Stop \<longrightarrow> stack = base @ rev cs"
      using cons(2) by blast
    then show "\<exists>stack. rewrite_until_stop (td (with_stack panic g)) (p # ps) Continue
        (base @ rev (c # cs), s) = Inr ((data t # ps', changed t \<or> ch, r), (stack, s2)) \<and>
        (r \<noteq> Stop \<longrightarrow> stack = base)"
      using stack_children_step [of "td (with_stack panic g)" p base c cs s t stack s1 ps ps' ch r s2]
        cons(4,5) down_run_tnr(1) [OF cons(1)] by simp
  qed
qed

text \<open>A recursion that changes nothing.\<close>

lemma down_same:
  assumes "g c p s = Inr (no p, cxs, s1)"
    "down_runs children_of rebuild g cxs (children_of p) s1 ps False Continue s2"
  shows "down_run children_of rebuild g c p s (no p) s2"
  using down_run_down_runs.down [of g c p s "no p" cxs s1 children_of rebuild ps False Continue s2 p] assms
  by (simp add: no_def)

lemma cons_same:
  assumes "down_run children_of rebuild g c p s (no p) s1"
    "down_runs children_of rebuild g cs ps s1 ps' False r s2"
  shows "down_runs children_of rebuild g (c # cs) (p # ps) s (p # ps') False r s2"
  using down_run_down_runs.cons [OF assms(1) _ assms(2)] by simp

lemma jump_same:
  "g c p s = Inr (\<lparr>data = p, changed = False, tnr = Jump\<rparr>, [], s') \<Longrightarrow>
     down_run children_of rebuild g c p s (no p) s'"
  using down_run_down_runs.jump [of g c p s "\<lparr>data = p, changed = False, tnr = Jump\<rparr>" s' children_of rebuild]
  by (simp add: no_def)

end
