(* ===== verification/RewriteExamples.thy ===== *)
theory RewriteExamples
  imports PlanTree TreeRewrite
begin

text \<open>
  Rewriters that meet the laws of \<open>TreeRewrite\<close> on plans. They show that the laws can hold and
  serve as the engine's rewriters in concrete examples. Going down follows the children of the node
  before it is rewritten, so the law holds for closures that keep the children of every node into
  which they let the recursion continue.
\<close>

definition example_rebuild :: "('x, 'r, 'q, 'o) plan \<Rightarrow> ('x, 'r, 'q, 'o) plan list \<Rightarrow> ('e, ('x, 'r, 'q, 'o) plan) res" where
  "example_rebuild p ps = Inr (Plan (node_of p) ps)"

fun until_stop ::
  "('s \<Rightarrow> ('e, 'p transformed \<times> 's) res) list \<Rightarrow> 'p list \<Rightarrow> recursion \<Rightarrow> 's \<Rightarrow>
   ('e, ('p list \<times> bool \<times> recursion) \<times> 's) res" where
  "until_stop (g # gs) (p # ps) t s =
     (if t = Stop then Inr ((p # ps, False, Stop), s)
      else bind_res (g s) (\<lambda>(r, s).
             bind_res (until_stop gs ps (tnr r) s) (\<lambda>((ps', ch, t), s).
               Inr ((data r # ps', changed r \<or> ch, t), s))))"
| "until_stop _ _ t s = Inr (([], False, t), s)"

definition children_with where
  "children_with rebuild gs p0 p s =
     (if kids p0 = [] then Inr (no p, s)
      else bind_res (until_stop gs (kids p0) Continue s) (\<lambda>((ps, ch, t), s).
             if ch then bind_res (rebuild p ps) (\<lambda>p. Inr (\<lparr>data = p, changed = True, tnr = t\<rparr>, s))
             else Inr (\<lparr>data = p, changed = False, tnr = t\<rparr>, s)))"

primrec example_up ::
  "(('x, 'r, 'q, 'o) plan \<Rightarrow> ('x, 'r, 'q, 'o) plan list \<Rightarrow> ('e, ('x, 'r, 'q, 'o) plan) res) \<Rightarrow>
   ('e, 's, ('x, 'r, 'q, 'o) plan) rewriter \<Rightarrow> ('e, 's, ('x, 'r, 'q, 'o) plan) rewriter" where
  "example_up rebuild f (Plan n cs) = (\<lambda>s.
     bind_res (children_with rebuild (map (example_up rebuild f) cs) (Plan n cs) (Plan n cs) s) (\<lambda>(t, s). rewrite_parent f t s))"

primrec example_down_up ::
  "(('x, 'r, 'q, 'o) plan \<Rightarrow> ('x, 'r, 'q, 'o) plan list \<Rightarrow> ('e, ('x, 'r, 'q, 'o) plan) res) \<Rightarrow>
   ('e, 's, ('x, 'r, 'q, 'o) plan) rewriter \<Rightarrow> ('e, 's, ('x, 'r, 'q, 'o) plan) rewriter \<Rightarrow>
   ('e, 's, ('x, 'r, 'q, 'o) plan) rewriter" where
  "example_down_up rebuild f g (Plan n cs) = (\<lambda>s.
     bind_res (f (Plan n cs) s) (\<lambda>(t, s).
       case tnr t of
         Stop \<Rightarrow> Inr (t, s)
       | Jump \<Rightarrow> rewrite_parent g (t\<lparr>tnr := Continue\<rparr>) s
       | Continue \<Rightarrow>
           bind_res (children_with rebuild (map (example_down_up rebuild f g) cs) (Plan n cs) (data t) s)
             (\<lambda>(t', s). rewrite_parent g (t'\<lparr>changed := changed t' \<or> changed t\<rparr>) s)))"

primrec example_down ::
  "(('x, 'r, 'q, 'o) plan \<Rightarrow> ('x, 'r, 'q, 'o) plan list \<Rightarrow> ('e, ('x, 'r, 'q, 'o) plan) res) \<Rightarrow>
   ('e, 's, ('x, 'r, 'q, 'o) plan) rewriter \<Rightarrow> ('e, 's, ('x, 'r, 'q, 'o) plan) rewriter" where
  "example_down rebuild f (Plan n cs) = (\<lambda>s.
     bind_res (f (Plan n cs) s) (\<lambda>(t, s).
       case tnr t of
         Stop \<Rightarrow> Inr (t, s)
       | Jump \<Rightarrow> Inr (t\<lparr>tnr := Continue\<rparr>, s)
       | Continue \<Rightarrow>
           bind_res (children_with rebuild (map (example_down rebuild f) cs) (Plan n cs) (data t) s)
             (\<lambda>(t', s). Inr (t'\<lparr>changed := changed t' \<or> changed t\<rparr>, s))))"

lemma until_stop_map: "until_stop (map g ps) ps t s = rewrite_until_stop g ps t s"
  by (induction ps arbitrary: t s) simp_all

lemma children_with_map: "children_with rebuild (map g (kids p)) p p s = rewrite_children kids rebuild g p s"
  by (simp add: children_with_def rewrite_children_def until_stop_map)

definition keeps_children :: "('e, 's, ('x, 'r, 'q, 'o) plan) rewriter \<Rightarrow> bool" where
  "keeps_children f \<longleftrightarrow> (\<forall>p s t s'. f p s = Inr (t, s') \<longrightarrow> tnr t = Continue \<longrightarrow> kids (data t) = kids p)"

lemma example_up_law: "transform_up_law kids rebuild (example_up rebuild) f"
  unfolding transform_up_law_def
proof (intro allI)
  fix p s
  show "example_up rebuild f p s =
      bind_res (rewrite_children kids rebuild (example_up rebuild f) p s) (\<lambda>(t, s). rewrite_parent f t s)"
    using children_with_map [of rebuild "example_up rebuild f" p s] by (cases p) simp
qed

lemma example_children:
  assumes "keeps_children f" "f p s = Inr (t, s')" "tnr t = Continue"
  shows "children_with rebuild (map g (kids p)) p (data t) s' = rewrite_children kids rebuild g (data t) s'"
proof -
  have "kids (data t) = kids p"
    using assms unfolding keeps_children_def by blast
  then show ?thesis
    by (simp only: children_with_def rewrite_children_def until_stop_map)
qed

lemma example_down_law: "keeps_children f \<Longrightarrow> transform_down_law kids rebuild (example_down rebuild) f"
  unfolding transform_down_law_def
proof (intro allI)
  fix p s
  assume "keeps_children f"
  note ch = example_children [OF this, of p]
  show "example_down rebuild f p s = bind_res (f p s) (\<lambda>(t, s).
          case tnr t of
            Stop \<Rightarrow> Inr (t, s)
          | Jump \<Rightarrow> Inr (t\<lparr>tnr := Continue\<rparr>, s)
          | Continue \<Rightarrow>
              bind_res (rewrite_children kids rebuild (example_down rebuild f) (data t) s) (\<lambda>(t', s).
                Inr (t'\<lparr>changed := changed t' \<or> changed t\<rparr>, s)))"
    using ch by (cases p) (auto intro!: bind_res_cong split: recursion.split)
qed

lemma example_down_up_law: "keeps_children f \<Longrightarrow> transform_down_up_law kids rebuild (example_down_up rebuild) f g"
  unfolding transform_down_up_law_def
proof (intro allI)
  fix p s
  assume "keeps_children f"
  note ch = example_children [OF this, of p]
  show "example_down_up rebuild f g p s = bind_res (f p s) (\<lambda>(t, s).
          case tnr t of
            Stop \<Rightarrow> Inr (t, s)
          | Jump \<Rightarrow> rewrite_parent g (t\<lparr>tnr := Continue\<rparr>) s
          | Continue \<Rightarrow>
              bind_res (rewrite_children kids rebuild (example_down_up rebuild f g) (data t) s) (\<lambda>(t', s).
                rewrite_parent g (t'\<lparr>changed := changed t' \<or> changed t\<rparr>) s))"
    using ch by (cases p) (auto intro!: bind_res_cong split: recursion.split)
qed

lemma example_map_children_law: "map_children_law kids rebuild (rewrite_children kids rebuild) f"
  by (simp add: map_children_law_def)

end
