(* ===== verification/Recursion.thy ===== *)
theory Recursion
  imports RewriteExamples
begin

text \<open>
  The traversals of \<open>src/src/common/recursion.rs\<close>, which carry task contexts and task counts
  through a plan. The visitors are recursive functions; the rewriters run one of the engine's
  generic rewriters with closures that keep a stack of contexts or counts beside them, and the
  theorems show that this stack always has the right entry on top: the rewriters equal the direct
  recursions given here as their specifications.
\<close>

section \<open>Visitors\<close>

text \<open>
  \<open>apply_with_dt_ctx\<close>: only the children that the task executes are visited, each in its own task
  context, and the input of a network boundary is not. An index out of range panics.
\<close>

primrec apply_with_dt_ctx ::
  "('e, 's) visit_lib \<Rightarrow> 'e \<Rightarrow> (('x, 'r, 'q, 'o) plan \<Rightarrow> task_ctx \<Rightarrow> ('e, 's) visit) \<Rightarrow>
   ('x, 'r, 'q, 'o) plan \<Rightarrow> task_ctx \<Rightarrow> ('e, 's) visit" where
  "apply_with_dt_ctx L panic f (Plan n cs) = (\<lambda>ctx s.
     bind_res (f (Plan n cs) ctx s) (\<lambda>(t, s). visit_children L t (\<lambda>s.
       case n of
         IsolatorUnionNode u \<Rightarrow>
           if length (task_idx_map u) \<le> task_index ctx then Inl panic
           else apply_until_stop L (map (\<lambda>(child_i, child_ctx).
                  if length cs \<le> child_i then (\<lambda>_. Inl panic)
                  else (map (apply_with_dt_ctx L panic f) cs ! child_i) child_ctx)
                (task_idx_map u ! task_index ctx)) s
       | _ \<Rightarrow>
           if is_network_boundary n then Inr (Continue, s)
           else apply_until_stop L (map (\<lambda>visit. visit ctx) (map (apply_with_dt_ctx L panic f) cs)) s) s))"

text \<open>\<open>apply_driver_path\<close>: at a join that collects its left side, only the right side is visited.\<close>

primrec apply_driver_path ::
  "('e, 's) visit_lib \<Rightarrow> (('x, 'r, 'q, 'o) plan \<Rightarrow> ('e, 's) visit) \<Rightarrow>
   ('x, 'r, 'q, 'o) plan \<Rightarrow> ('e, 's) visit" where
  "apply_driver_path L f (Plan n cs) = (\<lambda>s.
     bind_res (f (Plan n cs) s) (\<lambda>(t, s). visit_children L t (\<lambda>s.
       if collects_left n then (map (apply_driver_path L f) cs ! 1) s
       else apply_until_stop L (map (apply_driver_path L f) cs) s) s))"

text \<open>The engine's \<open>apply\<close> on plans, built from the visitor library.\<close>

primrec tree_apply ::
  "('e, 's) visit_lib \<Rightarrow> (('x, 'r, 'q, 'o) plan \<Rightarrow> ('e, 's) visit) \<Rightarrow> ('x, 'r, 'q, 'o) plan \<Rightarrow> ('e, 's) visit" where
  "tree_apply L f (Plan n cs) = (\<lambda>s.
     bind_res (f (Plan n cs) s) (\<lambda>(t, s). visit_children L t (apply_until_stop L (map (tree_apply L f) cs)) s))"

section \<open>Task counts of children\<close>

text \<open>
  The task count in which each child of a node runs: a boundary's input runs in its stage's tasks,
  the children of an isolating union in their own, every other child in its parent's.
\<close>

definition child_tcs :: "nat \<Rightarrow> ('x, 'r, 'q, 'o) plan \<Rightarrow> nat list" where
  "child_tcs tc p =
     (case node_of p of
        IsolatorUnionNode u \<Rightarrow> union_child_task_counts u
      | n \<Rightarrow> (case input_stage n of
                Some st \<Rightarrow> replicate (length (kids p)) (stage_task_count st)
              | None \<Rightarrow> replicate (length (kids p)) tc))"

section \<open>Rewriters with task counts\<close>

text \<open>
  \<open>transform_up_with_task_count\<close>: on the way down every node pushes its children's task counts,
  the first child's on top, and on the way up every node pops its own. The closures' state is the
  stack, its top at the end, and the state of \<open>f\<close>; popping an empty stack panics.
\<close>

definition up_push :: "'e \<Rightarrow> ('e, nat list \<times> 's, ('x, 'r, 'q, 'o) plan) rewriter" where
  "up_push panic p st =
     (case st of (stack, s) \<Rightarrow>
        if stack = [] then Inl panic
        else Inr (no p, (stack @ rev (child_tcs (last stack) p), s)))"

definition up_pop ::
  "'e \<Rightarrow> (('x, 'r, 'q, 'o) plan \<Rightarrow> nat \<Rightarrow> 's \<Rightarrow> ('e, ('x, 'r, 'q, 'o) plan transformed \<times> 's) res) \<Rightarrow>
   ('e, nat list \<times> 's, ('x, 'r, 'q, 'o) plan) rewriter" where
  "up_pop panic f p st =
     (case st of (stack, s) \<Rightarrow>
        if stack = [] then Inl panic
        else bind_res (f p (last stack) s) (\<lambda>(t, s). Inr (t, (butlast stack, s))))"

definition transform_up_with_task_count where
  "transform_up_with_task_count transform_down_up panic tc f p s =
     bind_res (transform_down_up (up_push panic) (up_pop panic f) p ([tc], s)) (\<lambda>(t, (stack, s)). Inr (t, s))"

text \<open>
  \<open>transform_down_with_task_count\<close>: every node pops its task count, is rewritten, and pushes the
  counts of its new children unless the recursion stops there.
\<close>

definition down_step ::
  "'e \<Rightarrow> (('x, 'r, 'q, 'o) plan \<Rightarrow> nat \<Rightarrow> 's \<Rightarrow> ('e, ('x, 'r, 'q, 'o) plan transformed \<times> 's) res) \<Rightarrow>
   ('e, nat list \<times> 's, ('x, 'r, 'q, 'o) plan) rewriter" where
  "down_step panic f p st =
     (case st of (stack, s) \<Rightarrow>
        if stack = [] then Inl panic
        else bind_res (f p (last stack) s) (\<lambda>(t, s).
               if tnr t \<noteq> Continue then Inr (t, (butlast stack, s))
               else Inr (t, (butlast stack @ rev (child_tcs (last stack) (data t)), s))))"

definition down_up_nothing :: "('e, 's, 'p) rewriter" where
  "down_up_nothing p s = Inr (no p, s)"

definition transform_down_with_task_count where
  "transform_down_with_task_count transform_down_up panic tc f p s =
     bind_res (transform_down_up (down_step panic f) down_up_nothing p ([tc], s))
       (\<lambda>(t, (stack, s)). Inr (t, s))"

text \<open>
  \<open>transform_down_with_dt_ctx\<close>: a stack of task contexts, \<open>None\<close> for a child that the task does
  not execute and that is therefore left alone. An index out of range panics.
\<close>

definition child_ctxs :: "'e \<Rightarrow> ('x, 'r, 'q, 'o) plan \<Rightarrow> task_ctx \<Rightarrow> ('e, task_ctx option list) res" where
  "child_ctxs panic p ctx =
     (case node_of p of
        IsolatorUnionNode u \<Rightarrow>
          if length (task_idx_map u) \<le> task_index ctx \<or>
             list_ex (\<lambda>(child_idx, _). length (kids p) \<le> child_idx) (task_idx_map u ! task_index ctx)
          then Inl panic
          else Inr (fold (\<lambda>(child_idx, child_ctx) ctxs. ctxs[child_idx := Some child_ctx])
                 (task_idx_map u ! task_index ctx) (replicate (length (kids p)) None))
      | _ \<Rightarrow> Inr (replicate (length (kids p)) (Some ctx)))"

definition dt_step ::
  "'e \<Rightarrow> (('x, 'r, 'q, 'o) plan \<Rightarrow> task_ctx \<Rightarrow> 's \<Rightarrow> ('e, ('x, 'r, 'q, 'o) plan transformed \<times> 's) res) \<Rightarrow>
   ('e, task_ctx option list \<times> 's, ('x, 'r, 'q, 'o) plan) rewriter" where
  "dt_step panic f p st =
     (case st of (stack, s) \<Rightarrow>
        if stack = [] then Inl panic
        else case last stack of
               None \<Rightarrow> Inr (\<lparr>data = p, changed = False, tnr = Jump\<rparr>, (butlast stack, s))
             | Some ctx \<Rightarrow>
                 bind_res (f p ctx s) (\<lambda>(t, s).
                   if tnr t = Stop then Inr (t, (butlast stack, s))
                   else if tnr t \<noteq> Continue \<or> is_network_boundary (node_of (data t)) then
                     Inr (t\<lparr>tnr := Jump\<rparr>, (butlast stack, s))
                   else bind_res (child_ctxs panic (data t) ctx) (\<lambda>ctxs.
                     Inr (t, (butlast stack @ rev ctxs, s)))))"

definition transform_down_with_dt_ctx where
  "transform_down_with_dt_ctx transform_down panic ctx f p s =
     bind_res (transform_down (dt_step panic f) p ([Some ctx], s)) (\<lambda>(t, (stack, s)). Inr (t, s))"

section \<open>Concurrent rewriting\<close>

text \<open>
  \<open>transform_up_async\<close> rewrites all children first, concurrently, and then hands the results to the
  engine's \<open>map_children\<close>, which takes them in order until one stops. \<open>f\<close> has no state here: its
  result for a node does not depend on what happens elsewhere. An error of any child is returned.
\<close>

primrec transform_up_async ::
  "(('e, ('x, 'r, 'q, 'o) plan transformed list, ('x, 'r, 'q, 'o) plan) rewriter \<Rightarrow>
     ('e, ('x, 'r, 'q, 'o) plan transformed list, ('x, 'r, 'q, 'o) plan) rewriter) \<Rightarrow> 'e \<Rightarrow>
   (('x, 'r, 'q, 'o) plan \<Rightarrow> ('e, ('x, 'r, 'q, 'o) plan transformed) res) \<Rightarrow>
   ('x, 'r, 'q, 'o) plan \<Rightarrow> ('e, ('x, 'r, 'q, 'o) plan transformed) res" where
  "transform_up_async map_children panic f (Plan n cs) =
     bind_res (map_res (\<lambda>r. r) (map (transform_up_async map_children panic f) cs)) (\<lambda>results.
       bind_res (map_children
           (\<lambda>_ rs. case rs of [] \<Rightarrow> Inl panic | r # rs \<Rightarrow> Inr (r, rs)) (Plan n cs) results) (\<lambda>(t, _).
         if tnr t = Continue then
           bind_res (f (data t)) (\<lambda>t'. Inr (t'\<lparr>changed := changed t' \<or> changed t\<rparr>))
         else Inr t))"

section \<open>What the traversals should do\<close>

text \<open>The nodes that a task executes, each with the task context it runs in.\<close>

primrec task_nodes ::
  "('x, 'r, 'q, 'o) plan \<Rightarrow> task_ctx \<Rightarrow> (('x, 'r, 'q, 'o) plan \<times> task_ctx) list" where
  "task_nodes (Plan n cs) = (\<lambda>ctx. (Plan n cs, ctx) #
     (case n of
        IsolatorUnionNode u \<Rightarrow>
          concat (map (\<lambda>(child_i, child_ctx). (map task_nodes cs ! child_i) child_ctx)
            (task_idx_map u ! task_index ctx))
      | _ \<Rightarrow> if is_network_boundary n then [] else concat (map (\<lambda>g. g ctx) (map task_nodes cs))))"

text \<open>The nodes of a stage, each with the number of tasks it runs in.\<close>

primrec stage_nodes ::
  "('x, 'r, 'q, 'o) plan \<Rightarrow> nat \<Rightarrow> (('x, 'r, 'q, 'o) plan \<times> nat) list" where
  "stage_nodes (Plan n cs) = (\<lambda>tc. (Plan n cs, tc) #
     (if is_network_boundary n then []
      else concat (map (\<lambda>(g, tc). g tc) (zip (map stage_nodes cs) (child_tcs tc (Plan n cs))))))"

text \<open>All tasks of a stage: every node in every task context of its task count.\<close>

definition all_tasks :: "('p \<times> nat) list \<Rightarrow> ('p \<times> task_ctx) list" where
  "all_tasks ns =
     concat (map (\<lambda>(p, tc). map (\<lambda>i. (p, \<lparr>task_index = i, task_count = tc\<rparr>)) [0..<tc]) ns)"

text \<open>The unions of a stage were built for the task count they run in.\<close>

primrec stage_ok :: "('x, 'r, 'q, 'o) plan \<Rightarrow> nat \<Rightarrow> bool" where
  "stage_ok (Plan n cs) = (\<lambda>tc.
     is_network_boundary n \<or>
     ((case n of
         IsolatorUnionNode u \<Rightarrow>
           task_map_inv u \<and> list_all (\<lambda>a. wf_restriction (restriction a)) (child_annotations u) \<and>
           length (task_idx_map u) = tc \<and> length (children u) = length cs
       | _ \<Rightarrow> True) \<and>
      list_all (\<lambda>(g, tc). g tc) (zip (map stage_ok cs) (child_tcs tc (Plan n cs)))))"

text \<open>
  The bottom-up rewriting with task counts: the children in order, each in its own task count, then
  the node, rebuilt only if a child changed. \<open>f\<close> always lets the recursion continue.
\<close>

definition rebuild_if :: "('p \<Rightarrow> 'p list \<Rightarrow> ('e, 'p) res) \<Rightarrow> 'p \<Rightarrow> ('p \<times> bool) list \<Rightarrow> ('e, 'p \<times> bool) res" where
  "rebuild_if rebuild p rs =
     (if list_ex snd rs then bind_res (rebuild p (map fst rs)) (\<lambda>q. Inr (q, True)) else Inr (p, False))"

fun seq_res :: "('s \<Rightarrow> ('e, 'a \<times> 's) res) list \<Rightarrow> 's \<Rightarrow> ('e, 'a list \<times> 's) res" where
  "seq_res [] s = Inr ([], s)"
| "seq_res (g # gs) s = bind_res (g s) (\<lambda>(a, s). bind_res (seq_res gs s) (\<lambda>(as, s). Inr (a # as, s)))"

primrec up_spec ::
  "(('x, 'r, 'q, 'o) plan \<Rightarrow> ('x, 'r, 'q, 'o) plan list \<Rightarrow> ('e, ('x, 'r, 'q, 'o) plan) res) \<Rightarrow>
   (('x, 'r, 'q, 'o) plan \<Rightarrow> nat \<Rightarrow> 's \<Rightarrow> ('e, (('x, 'r, 'q, 'o) plan \<times> bool) \<times> 's) res) \<Rightarrow>
   ('x, 'r, 'q, 'o) plan \<Rightarrow> nat \<Rightarrow> 's \<Rightarrow> ('e, (('x, 'r, 'q, 'o) plan \<times> bool) \<times> 's) res" where
  "up_spec rebuild f (Plan n cs) = (\<lambda>tc s.
     bind_res (seq_res (map (\<lambda>(g, tc). g tc)
         (zip (map (up_spec rebuild f) cs) (child_tcs tc (Plan n cs)))) s) (\<lambda>(rs, s).
       bind_res (rebuild_if rebuild (Plan n cs) rs) (\<lambda>(p, ch).
         bind_res (f p tc s) (\<lambda>((q, ch'), s). Inr ((q, ch' \<or> ch), s)))))"

text \<open>\<open>f\<close> as a closure of the rewriter, which always continues.\<close>

definition continuing ::
  "('p \<Rightarrow> 'c \<Rightarrow> 's \<Rightarrow> ('e, ('p \<times> bool) \<times> 's) res) \<Rightarrow> 'p \<Rightarrow> 'c \<Rightarrow> 's \<Rightarrow> ('e, 'p transformed \<times> 's) res" where
  "continuing f p c s =
     bind_res (f p c s) (\<lambda>((q, ch), s). Inr (\<lparr>data = q, changed = ch, tnr = Continue\<rparr>, s))"

text \<open>The contexts that the top-down rewriters choose for the children of a rewritten node.\<close>

definition task_count_contexts ::
  "(('x, 'r, 'q, 'o) plan \<Rightarrow> nat \<Rightarrow> 's \<Rightarrow> ('e, ('x, 'r, 'q, 'o) plan transformed \<times> 's) res) \<Rightarrow>
   nat \<Rightarrow> ('x, 'r, 'q, 'o) plan \<Rightarrow> 's \<Rightarrow> ('e, ('x, 'r, 'q, 'o) plan transformed \<times> nat list \<times> 's) res" where
  "task_count_contexts f tc p s =
     bind_res (f p tc s) (\<lambda>(t, s). Inr (t, if tnr t = Continue then child_tcs tc (data t) else [], s))"

definition dt_contexts ::
  "'e \<Rightarrow> (('x, 'r, 'q, 'o) plan \<Rightarrow> task_ctx \<Rightarrow> 's \<Rightarrow> ('e, ('x, 'r, 'q, 'o) plan transformed \<times> 's) res) \<Rightarrow>
   task_ctx option \<Rightarrow> ('x, 'r, 'q, 'o) plan \<Rightarrow> 's \<Rightarrow>
   ('e, ('x, 'r, 'q, 'o) plan transformed \<times> task_ctx option list \<times> 's) res" where
  "dt_contexts panic f c p s =
     (case c of
        None \<Rightarrow> Inr (\<lparr>data = p, changed = False, tnr = Jump\<rparr>, [], s)
      | Some ctx \<Rightarrow>
          bind_res (f p ctx s) (\<lambda>(t, s).
            if tnr t = Stop then Inr (t, [], s)
            else if tnr t = Jump \<or> is_network_boundary (node_of (data t)) then
              Inr (t\<lparr>tnr := Jump\<rparr>, [], s)
            else bind_res (child_ctxs panic (data t) ctx) (\<lambda>ctxs. Inr (t, ctxs, s))))"

section \<open>Lemmas\<close>

lemma down_step_with_stack: "down_step panic f = with_stack panic (task_count_contexts f)"
proof (intro ext)
  fix p st
  show "down_step panic f p st = with_stack panic (task_count_contexts f) p st"
    by (auto simp: down_step_def with_stack_def task_count_contexts_def bind_res_def
        split: prod.splits sum.splits)
qed

lemma recursion_exhaust: "t \<noteq> Stop \<Longrightarrow> t \<noteq> Jump \<Longrightarrow> t = Continue"
  by (cases t) simp_all

lemma dt_step_with_stack: "dt_step panic f = with_stack panic (dt_contexts panic f)"
proof (intro ext)
  fix p st
  have "(t \<noteq> Continue) = (t = Jump)" if "t \<noteq> Stop" for t
    using that by (cases t) simp_all
  then show "dt_step panic f p st = with_stack panic (dt_contexts panic f) p st"
    by (auto simp: dt_step_def with_stack_def dt_contexts_def bind_res_def
        split: prod.splits sum.splits option.splits)
qed

text \<open>Going both ways with nothing to do on the way up is going down.\<close>

lemma rewrite_parent_nothing [simp]: "rewrite_parent down_up_nothing t s = Inr (t, s)"
  by (cases "tnr t") (simp_all add: rewrite_parent_def down_up_nothing_def no_def)

lemma down_up_nothing_law:
  assumes "transform_down_up_law children_of rebuild tdu g down_up_nothing"
  shows "transform_down_law children_of rebuild (\<lambda>f. tdu f down_up_nothing) g"
  using assms unfolding transform_down_up_law_def transform_down_law_def rewrite_parent_nothing .

lemma length_union_child_task_counts [simp]: "length (union_child_task_counts u) = length (children u)"
proof -
  have "length (fold count_item xs ns) = length ns" for xs ns
    by (induction xs arbitrary: ns) (simp_all add: count_item_def case_prod_beta)
  then show ?thesis
    by (simp add: union_child_task_counts_def fold_fold_concat)
qed

lemma length_child_tcs: "wf_node n (length cs) \<Longrightarrow> length (child_tcs tc (Plan n cs)) = length cs"
  by (cases n) (simp_all add: child_tcs_def wf_node_def)

lemma rewrite_counts_in_order:
  assumes "length ps = length tcs"
    and "\<And>p base tc s. p \<in> set ps \<Longrightarrow> h p (base @ [tc], s) =
      bind_res (g p tc s) (\<lambda>((q, ch), s). Inr (\<lparr>data = q, changed = ch, tnr = Continue\<rparr>, (base, s)))"
  shows "rewrite_until_stop h ps Continue (base @ rev tcs, s) =
    bind_res (seq_res (map (\<lambda>(g, tc). g tc) (zip (map g ps) tcs)) s)
      (\<lambda>(rs, s). Inr ((map fst rs, list_ex snd rs, Continue), (base, s)))"
  using assms
proof (induction ps tcs arbitrary: s rule: list_induct2)
  case Nil
  show ?case by simp
next
  case (Cons p ps tc tcs)
  have h: "h p ((base @ rev tcs) @ [tc], s) = bind_res (g p tc s)
      (\<lambda>((q, ch), s). Inr (\<lparr>data = q, changed = ch, tnr = Continue\<rparr>, (base @ rev tcs, s)))"
    by (rule Cons.prems) simp
  have IH: "rewrite_until_stop h ps Continue (base @ rev tcs, s) =
    bind_res (seq_res (map (\<lambda>(g, tc). g tc) (zip (map g ps) tcs)) s)
      (\<lambda>(rs, s). Inr ((map fst rs, list_ex snd rs, Continue), (base, s)))" for s
    by (rule Cons.IH) (rule Cons.prems, simp)
  show ?case
    using h IH by (auto simp: bind_res_def split: sum.splits prod.splits)
qed

lemma transform_up_with_stack:
  assumes law: "transform_down_up_law kids rebuild tdu (up_push panic) (up_pop panic (continuing f))"
  shows "wf_plan p \<Longrightarrow> tdu (up_push panic) (up_pop panic (continuing f)) p (base @ [tc], s) =
    bind_res (up_spec rebuild f p tc s)
      (\<lambda>((q, ch), s). Inr (\<lparr>data = q, changed = ch, tnr = Continue\<rparr>, (base, s)))"
proof (induction p arbitrary: base tc s)
  case (Plan n cs)
  let ?h = "tdu (up_push panic) (up_pop panic (continuing f))"
  have len: "length cs = length (child_tcs tc (Plan n cs))"
    using Plan.prems length_child_tcs [of n cs tc] by simp
  have "rewrite_until_stop ?h cs Continue ((base @ [tc]) @ rev (child_tcs tc (Plan n cs)), s) =
    bind_res (seq_res (map (\<lambda>(g, tc). g tc) (zip (map (up_spec rebuild f) cs) (child_tcs tc (Plan n cs)))) s)
      (\<lambda>(rs, s). Inr ((map fst rs, list_ex snd rs, Continue), (base @ [tc], s)))"
    using len
  proof (rule rewrite_counts_in_order)
    fix p base tc s
    assume "p \<in> set cs"
    then show "?h p (base @ [tc], s) = bind_res (up_spec rebuild f p tc s)
      (\<lambda>((q, ch), s). Inr (\<lparr>data = q, changed = ch, tnr = Continue\<rparr>, (base, s)))"
      using Plan.prems by (intro Plan.IH) (auto simp: list_all_iff)
  qed
  note run = this [unfolded append_assoc]
  have children: "rewrite_children kids rebuild ?h (Plan n cs) (base @ [tc] @ rev (child_tcs tc (Plan n cs)), s) =
    bind_res (seq_res (map (\<lambda>(g, tc). g tc) (zip (map (up_spec rebuild f) cs) (child_tcs tc (Plan n cs)))) s)
      (\<lambda>(rs, s). bind_res (rebuild_if rebuild (Plan n cs) rs) (\<lambda>(p, ch).
        Inr (\<lparr>data = p, changed = ch, tnr = Continue\<rparr>, (base @ [tc], s))))"
  proof (cases "cs = []")
    case True
    then show ?thesis
      using len by (simp add: rewrite_children_def rebuild_if_def no_def)
  next
    case False
    then show ?thesis
      using run by (auto simp: rewrite_children_def rebuild_if_def bind_res_def split: sum.splits prod.splits)
  qed
  have whole: "?h (Plan n cs) (base @ [tc], s) =
    bind_res (rewrite_children kids rebuild ?h (Plan n cs) (base @ [tc] @ rev (child_tcs tc (Plan n cs)), s))
      (\<lambda>(t, st). rewrite_parent (up_pop panic (continuing f)) t st)"
    using law [unfolded transform_down_up_law_def, rule_format, of "Plan n cs" "(base @ [tc], s)"]
    by (simp add: up_push_def)
  show ?case
    unfolding whole children
    by (auto simp: up_pop_def rewrite_parent_def continuing_def bind_res_def split: sum.splits prod.splits)
qed

text \<open>Visiting.\<close>

lemma fold_concat_map: "fold f (concat (map g xs)) s = fold (\<lambda>x. fold f (g x)) xs s"
  by (induction xs arbitrary: s) simp_all

lemma case_not_union:
  "(\<And>u. n \<noteq> IsolatorUnionNode u) \<Longrightarrow> (case n of IsolatorUnionNode u \<Rightarrow> a u | _ \<Rightarrow> b) = b"
  by (cases n) auto

lemma union_not_boundary [simp]: "\<not> is_network_boundary (IsolatorUnionNode u)"
  by (simp add: is_network_boundary_def)

lemma child_tcs_other:
  "\<not> is_network_boundary n \<Longrightarrow> (\<And>u. n \<noteq> IsolatorUnionNode u) \<Longrightarrow>
     child_tcs tc (Plan n cs) = replicate (length cs) tc"
  by (cases n) (auto simp: child_tcs_def is_network_boundary_def)

lemma child_tcs_union [simp]: "child_tcs tc (Plan (IsolatorUnionNode u) cs) = union_child_task_counts u"
  by (simp add: child_tcs_def)

lemma zip_replicate_map: "zip (map f cs) (replicate (length cs) tc) = map (\<lambda>c. (f c, tc)) cs"
  by (induction cs) simp_all

text \<open>The entries of a union's task map: every child in every task of its count.\<close>

lemma union_entries:
  assumes "task_map_inv u" "list_all (\<lambda>a. wf_restriction (restriction a)) (child_annotations u)"
  shows "mset (concat (task_idx_map u)) =
      mset (concat (map (\<lambda>i. map (\<lambda>k. (i, \<lparr>task_index = k, task_count = union_child_task_counts u ! i\<rparr>))
        [0..<union_child_task_counts u ! i]) [0..<length (children u)]))"
proof -
  have wf: "\<forall>a \<in> set (child_annotations u). wf_restriction (restriction a)"
    using assms(2) by (simp add: list_all_iff)
  have "length (run_counts (child_annotations u) (length (task_idx_map u))) = length (children u)"
    using assms(1) by (simp add: run_counts_def task_map_inv_def)
  then show ?thesis
    using union_tasks_mset [OF assms(1) wf]
    unfolding union_task_counts [OF assms(1) wf] child_items_enumerate by simp
qed

lemma union_entry:
  assumes "task_map_inv u" "list_all (\<lambda>a. wf_restriction (restriction a)) (child_annotations u)"
    "i < length (task_idx_map u)" "(c, cctx) \<in> set (task_idx_map u ! i)"
  shows "c < length (children u)" "task_count cctx = union_child_task_counts u ! c"
    "task_index cctx < task_count cctx"
proof -
  have "(c, cctx) \<in> set (concat (task_idx_map u))"
    using nth_mem [OF assms(3)] assms(4) by auto
  also have "set (concat (task_idx_map u)) = set (concat (map (\<lambda>i. map (\<lambda>k. (i, \<lparr>task_index = k, task_count = union_child_task_counts u ! i\<rparr>))
        [0..<union_child_task_counts u ! i]) [0..<length (children u)]))"
    by (rule mset_eq_setD) (rule union_entries [OF assms(1,2)])
  finally show "c < length (children u)" "task_count cctx = union_child_task_counts u ! c"
    "task_index cctx < task_count cctx"
    by auto
qed

lemma stage_ok_union:
  assumes "stage_ok (Plan (IsolatorUnionNode u) cs) tc"
  shows "task_map_inv u" "list_all (\<lambda>a. wf_restriction (restriction a)) (child_annotations u)"
    "length (task_idx_map u) = tc" "length (children u) = length cs"
    "\<And>i. i < length cs \<Longrightarrow> stage_ok (cs ! i) (union_child_task_counts u ! i)"
  using assms by (auto simp: list_all_length)

lemma stage_ok_other:
  assumes "stage_ok (Plan n cs) tc" "\<not> is_network_boundary n" "\<And>u. n \<noteq> IsolatorUnionNode u" "c \<in> set cs"
  shows "stage_ok c tc"
  using assms by (simp add: child_tcs_other zip_replicate_map list_all_iff)

text \<open>A visit of the whole plan that always continues.\<close>

primrec pre_order :: "'n tree \<Rightarrow> 'n list" where
  "pre_order (Plan n cs) = n # concat (map pre_order cs)"

lemma fold_concat: "fold f (concat xss) s = fold (fold f) xss s"
  by (induction xss arbitrary: s) simp_all

lemma tree_apply_pre_order:
  assumes "visit_law L"
  shows "tree_apply L (\<lambda>p s. Inr (Continue, h (node_of p) s)) p s = Inr (Continue, fold h (pre_order p) s)"
proof (induction p arbitrary: s)
  case (Plan n cs)
  have "apply_until_stop L (map (tree_apply L (\<lambda>p s. Inr (Continue, h (node_of p) s))) cs) s =
      Inr (Continue, fold (\<lambda>c. fold h (pre_order c)) cs s)" for s
    by (rule apply_until_stop_continue [OF assms]) (rule Plan.IH)
  then show ?case
    by (simp add: visit_lawD(1) [OF assms] fold_concat fold_map comp_def)
qed

lemma apply_with_dt_ctx_task_nodes:
  assumes "visit_law L"
  shows "stage_ok p (task_count ctx) \<Longrightarrow> task_index ctx < task_count ctx \<Longrightarrow>
    apply_with_dt_ctx L panic (\<lambda>q c s. Inr (Continue, h q c s)) p ctx s =
      Inr (Continue, fold (\<lambda>(q, c). h q c) (task_nodes p ctx) s)"
proof (induction p arbitrary: ctx s)
  case (Plan n cs)
  let ?v = "apply_with_dt_ctx L panic (\<lambda>q c s. Inr (Continue, h q c s))"
  consider u where "n = IsolatorUnionNode u" | "is_network_boundary n"
    | "\<not> is_network_boundary n" "\<And>u. n \<noteq> IsolatorUnionNode u"
    by blast
  then show ?case
  proof cases
    case (1 u)
    note ok = stage_ok_union [OF Plan.prems(1) [unfolded 1]]
    have "apply_until_stop L (map (\<lambda>(c, cctx). if length cs \<le> c then (\<lambda>_. Inl panic) else (map ?v cs ! c) cctx)
          (task_idx_map u ! task_index ctx)) s =
        Inr (Continue, fold (\<lambda>x. fold (\<lambda>(q, c). h q c) (case x of (c, cctx) \<Rightarrow> (map task_nodes cs ! c) cctx))
          (task_idx_map u ! task_index ctx) s)" for s
    proof (rule apply_until_stop_continue [OF assms])
      fix x s
      assume x: "x \<in> set (task_idx_map u ! task_index ctx)"
      obtain c cctx where [simp]: "x = (c, cctx)"
        by (cases x)
      note entry = union_entry [OF ok(1,2) _ x [simplified], unfolded ok(3,4), OF Plan.prems(2)]
      have "?v (cs ! c) cctx s = Inr (Continue, fold (\<lambda>(q, c). h q c) (task_nodes (cs ! c) cctx) s)"
        using ok(5) [of c] entry by (intro Plan.IH) simp_all
      then show "(case x of (c, cctx) \<Rightarrow> if length cs \<le> c then \<lambda>_. Inl panic else (map ?v cs ! c) cctx) s =
          Inr (Continue, fold (\<lambda>(q, c). h q c) (case x of (c, cctx) \<Rightarrow> (map task_nodes cs ! c) cctx) s)"
        using entry(1) by simp
    qed
    then show ?thesis
      using 1 ok(3) Plan.prems(2) by (simp add: visit_lawD(1) [OF assms] fold_concat_map)
  next
    case 2
    then have "\<And>u. n \<noteq> IsolatorUnionNode u"
      by auto
    then show ?thesis
      using 2 by (simp add: visit_lawD(1) [OF assms] case_not_union)
  next
    case 3
    have "apply_until_stop L (map (\<lambda>c. ?v c ctx) cs) s =
        Inr (Continue, fold (\<lambda>c. fold (\<lambda>(q, c). h q c) (task_nodes c ctx)) cs s)" for s
    proof (rule apply_until_stop_continue [OF assms])
      fix c s assume "c \<in> set cs"
      then show "?v c ctx s = Inr (Continue, fold (\<lambda>(q, c). h q c) (task_nodes c ctx) s)"
        using stage_ok_other [OF Plan.prems(1) 3] Plan.prems(2) by (intro Plan.IH)
    qed
    then show ?thesis
      using 3 by (simp add: visit_lawD(1) [OF assms] case_not_union fold_concat_map comp_def)
  qed
qed

text \<open>The tasks of a stage together.\<close>

lemma mset_concat_map_append:
  "mset (concat (map (\<lambda>x. f x @ g x) xs)) = mset (concat (map f xs)) + mset (concat (map g xs))"
  by (induction xs) simp_all

lemma mset_concat_map_swap:
  "mset (concat (map (\<lambda>x. concat (map (\<lambda>y. f x y) ys)) xs)) =
     mset (concat (map (\<lambda>y. concat (map (\<lambda>x. f x y) xs)) ys))"
  by (induction ys) (simp_all add: mset_concat_map_append)

lemma mset_concat_map_eq:
  "(\<And>x. x \<in> set xs \<Longrightarrow> mset (f x) = mset (g x)) \<Longrightarrow> mset (concat (map f xs)) = mset (concat (map g xs))"
  by (induction xs) simp_all

lemma all_tasks_Cons:
  "all_tasks ((p, tc) # ns) = map (\<lambda>i. (p, \<lparr>task_index = i, task_count = tc\<rparr>)) [0..<tc] @ all_tasks ns"
  by (simp add: all_tasks_def)

lemma all_tasks_concat: "all_tasks (concat nss) = concat (map all_tasks nss)"
  by (induction nss) (simp_all add: all_tasks_def)

lemma zip_map_nth:
  "length xs = length ys \<Longrightarrow> zip (map f xs) ys = map (\<lambda>i. (f (xs ! i), ys ! i)) [0..<length xs]"
  by (rule nth_equalityI) simp_all

lemma union_rows: "concat (map (\<lambda>i. concat (map f (m ! i))) [0..<length m]) = concat (map f (concat m))"
proof -
  have "concat (map f (concat m)) = concat (map (\<lambda>row. concat (map f row)) (map (\<lambda>i. m ! i) [0..<length m]))"
    unfolding map_nth by (rule concat_map_concat)
  then show ?thesis
    by (simp add: comp_def)
qed

lemma stage_tasks:
  "stage_ok p tc \<Longrightarrow>
     mset (concat (map (\<lambda>i. task_nodes p \<lparr>task_index = i, task_count = tc\<rparr>) [0..<tc])) =
     mset (all_tasks (stage_nodes p tc))"
proof (induction p arbitrary: tc)
  case (Plan n cs)
  let ?c = "\<lambda>tc i. \<lparr>task_index = i, task_count = tc\<rparr>"
  let ?f = "\<lambda>(c, cctx). (map task_nodes cs ! c) cctx"
  consider u where "n = IsolatorUnionNode u" | "is_network_boundary n"
    | "\<not> is_network_boundary n" "\<And>u. n \<noteq> IsolatorUnionNode u"
    by blast
  then show ?case
  proof cases
    case (1 u)
    note ok = stage_ok_union [OF Plan.prems [unfolded 1]]
    let ?ns = "union_child_task_counts u"
    have "mset (concat (map (\<lambda>i. concat (map ?f (task_idx_map u ! i))) [0..<tc])) =
        mset (concat (map ?f (concat (map (\<lambda>i. map (\<lambda>k. (i, ?c (?ns ! i) k)) [0..<?ns ! i]) [0..<length cs]))))"
      unfolding ok(3) [symmetric] union_rows
      by (rule mset_concat_map_cong) (simp only: union_entries [OF ok(1,2)] ok(4))
    also have "\<dots> = mset (concat (map (\<lambda>i. all_tasks (stage_nodes (cs ! i) (?ns ! i))) [0..<length cs]))"
      unfolding concat_map_concat map_map comp_def
      by (rule mset_concat_map_eq) (use Plan.IH ok(5) in \<open>simp add: comp_def\<close>)
    also have "\<dots> = mset (all_tasks (concat (map (\<lambda>(g, tc). g tc) (zip (map stage_nodes cs) ?ns))))"
      using ok(4) by (simp add: all_tasks_concat zip_map_nth comp_def)
    finally show ?thesis
      using 1 by (simp add: all_tasks_Cons mset_concat_map_append [of "\<lambda>i. [_ i]", simplified])
  next
    case 2
    then have "\<And>u. n \<noteq> IsolatorUnionNode u"
      by auto
    then show ?thesis
      using 2 by (simp add: case_not_union all_tasks_def)
  next
    case 3
    have "mset (concat (map (\<lambda>i. concat (map (\<lambda>c. task_nodes c (?c tc i)) cs)) [0..<tc])) =
        mset (concat (map (\<lambda>c. all_tasks (stage_nodes c tc)) cs))"
      unfolding mset_concat_map_swap [of _ cs]
      by (rule mset_concat_map_eq) (use Plan.IH stage_ok_other [OF Plan.prems 3] in blast)
    then show ?thesis
      using 3 by (simp add: case_not_union child_tcs_other zip_replicate_map all_tasks_Cons all_tasks_concat
          comp_def mset_concat_map_append [of "\<lambda>i. [_ i]", simplified])
  qed
qed

text \<open>Rewriting the children beforehand and taking the results in order.\<close>

abbreviation next_result :: "'e \<Rightarrow> 'p \<Rightarrow> 'p transformed list \<Rightarrow> ('e, 'p transformed \<times> 'p transformed list) res" where
  "next_result panic \<equiv> (\<lambda>_ rs. case rs of [] \<Rightarrow> Inl panic | r # rs \<Rightarrow> Inr (r, rs))"

abbreviation stateless :: "('p \<Rightarrow> ('e, 'p transformed) res) \<Rightarrow> ('e, unit, 'p) rewriter" where
  "stateless f \<equiv> (\<lambda>p s. bind_res (f p) (\<lambda>t. Inr (t, s)))"

lemma results_in_order:
  assumes "list_all2 (\<lambda>c r. h c () = Inr (r, ())) cs rs"
  shows "\<exists>x rest. rewrite_until_stop (next_result panic) cs t rs = Inr (x, rest) \<and>
    rewrite_until_stop h cs t () = Inr (x, ())"
  using assms
proof (induction cs rs arbitrary: t rule: list_all2_induct)
  case (Cons c cs r rs)
  obtain x rest where "rewrite_until_stop (next_result panic) cs (tnr r) rs = Inr (x, rest)"
    "rewrite_until_stop h cs (tnr r) () = Inr (x, ())"
    using Cons.IH by blast
  then show ?case
    using Cons.hyps by (cases x) auto
qed auto

lemma transform_up_async_sync:
  assumes up: "transform_up_law kids rebuild tu (stateless f)"
    and mc: "map_children_law kids rebuild map_children (next_result panic)"
  shows "transform_up_async map_children panic f p = Inr t \<Longrightarrow> tu (stateless f) p () = Inr (t, ())"
proof (induction p arbitrary: t)
  case (Plan n cs)
  let ?h = "tu (stateless f)"
  obtain rs t1 rest where rs: "map_res (\<lambda>r. r) (map (transform_up_async map_children panic f) cs) = Inr rs"
    and t1: "map_children (next_result panic) (Plan n cs) rs = Inr (t1, rest)"
    and last: "(if tnr t1 = Continue then bind_res (f (data t1)) (\<lambda>t'. Inr (t'\<lparr>changed := changed t' \<or> changed t1\<rparr>))
      else Inr t1) = Inr t"
    using Plan.prems by (auto simp: bind_res_eq_Inr)
  have "list_all2 (\<lambda>c r. ?h c () = Inr (r, ())) cs rs"
    using rs Plan.IH by (auto simp: map_res_Inr_iff list.rel_map elim: list.rel_mono_strong)
  from results_in_order [where h = ?h, OF this, of panic Continue]
  have "rewrite_children kids rebuild ?h (Plan n cs) () = Inr (t1, ())"
    using t1 mc unfolding map_children_law_def rewrite_children_def
    by (auto simp: bind_res_eq_Inr split: if_splits)
  then show ?case
    using up [unfolded transform_up_law_def, rule_format, of "Plan n cs" "()"] last
    by (auto simp: rewrite_parent_def bind_res_eq_Inr split: if_splits)
qed

lemma transform_up_async_total:
  assumes mc: "map_children_law kids rebuild map_children (next_result panic)"
    and "\<And>p. \<exists>t. f p = Inr t" "\<And>p ps. \<exists>q. rebuild p ps = Inr q"
  shows "\<exists>t. transform_up_async map_children panic f p = Inr t"
proof (induction p)
  case (Plan n cs)
  then obtain g where g: "\<forall>c \<in> set cs. transform_up_async map_children panic f c = Inr (g c)"
    by metis
  then have rs: "map_res (\<lambda>r. r) (map (transform_up_async map_children panic f) cs) = Inr (map g cs)"
    by (simp add: map_res_Inr_iff list.rel_map list.rel_refl_strong)
  have "list_all2 (\<lambda>c r. Inr (g c, ()) = (Inr (r, ()) :: ('e, _) res)) cs (map g cs)"
    by (simp add: list.rel_map list.rel_refl_strong)
  from results_in_order [where h = "\<lambda>c s. Inr (g c, s)", OF this, of panic Continue]
  obtain ps ch r rest where run: "rewrite_until_stop (next_result panic) cs Continue (map g cs) = Inr ((ps, ch, r), rest)"
    by auto
  obtain q where q: "rebuild (Plan n cs) ps = Inr q"
    using assms(3) by blast
  obtain t1 rest where "map_children (next_result panic) (Plan n cs) (map g cs) = Inr (t1, rest)"
    using mc run q unfolding map_children_law_def rewrite_children_def by (cases "cs = []"; cases ch) simp_all
  then show ?case
    using rs assms(2) [of "data t1"] by auto
qed

section \<open>An example\<close>

text \<open>Two leaves below an isolating union of two tasks.\<close>

definition example_union :: "(unit, (unit, unit, unit) plan_properties) children_isolator_union" where
  "example_union =
     \<lparr>properties = \<lparr>eq_properties = (), partitioning = UnknownPartitioning 1, emission_incremental = True, bounded = True\<rparr>,
      partition_count = 1, children = [(), ()], child_annotations = [ann_soft (Fin 1), ann_soft (Fin 1)],
      task_idx_map = [[(0, \<lparr>task_index = 0, task_count = 1\<rparr>)], [(1, \<lparr>task_index = 0, task_count = 1\<rparr>)]]\<rparr>"

definition example_plan :: "(unit, unit, unit, nat) plan" where
  "example_plan = Plan (IsolatorUnionNode example_union) [Plan (OtherNode 1) [], Plan (OtherNode 2) []]"

section \<open>Properties\<close>

lemma transform_down_with_task_count_run:
  assumes "transform_down_up_law kids rebuild tdu (down_step panic f) down_up_nothing"
    "down_run kids rebuild (task_count_contexts f) tc p s t s'"
  shows "transform_down_with_task_count tdu panic tc f p s = Inr (t, s')"
proof -
  have "transform_down_law kids rebuild (\<lambda>f. tdu f down_up_nothing) (with_stack panic (task_count_contexts f))"
    using down_up_nothing_law [OF assms(1)] by (simp add: down_step_with_stack)
  from stack_transform_down(1) [OF this assms(2), rule_format, of "[]"]
  show ?thesis
    by (auto simp: transform_down_with_task_count_def down_step_with_stack)
qed

text \<open>C26. Visiting a plan in every task of its stage visits every node of the stage in exactly the
  task contexts of the node's task count, each once. In every task, the visitor sees the nodes that
  the task executes, in order.\<close>

theorem apply_with_dt_ctx_covers_stage:
  assumes "visit_law L" "stage_ok p tc"
  shows "(\<forall>i < tc. apply_with_dt_ctx L panic (\<lambda>q c s. Inr (Continue, h q c s)) p
        \<lparr>task_index = i, task_count = tc\<rparr> s =
      Inr (Continue, fold (\<lambda>(q, c). h q c) (task_nodes p \<lparr>task_index = i, task_count = tc\<rparr>) s)) \<and>
    mset (concat (map (\<lambda>i. task_nodes p \<lparr>task_index = i, task_count = tc\<rparr>) [0..<tc])) =
      mset (all_tasks (stage_nodes p tc))"
proof (intro conjI allI impI)
  fix i assume "i < tc"
  then show "apply_with_dt_ctx L panic (\<lambda>q c s. Inr (Continue, h q c s)) p \<lparr>task_index = i, task_count = tc\<rparr> s =
      Inr (Continue, fold (\<lambda>(q, c). h q c) (task_nodes p \<lparr>task_index = i, task_count = tc\<rparr>) s)"
    by (intro apply_with_dt_ctx_task_nodes assms(1)) (simp_all add: assms(2))
qed (rule stage_tasks [OF assms(2)])

theorem apply_with_dt_ctx_covers_stage_witness:
  "apply_with_dt_ctx example_visit_lib () (\<lambda>_ c s. Inr (Continue, s @ [c])) example_plan
       \<lparr>task_index = 1, task_count = 2\<rparr> [] =
     Inr (Continue, [\<lparr>task_index = 1, task_count = 2\<rparr>, \<lparr>task_index = 0, task_count = 1\<rparr>]) \<and>
   mset (concat (map (\<lambda>i. task_nodes example_plan \<lparr>task_index = i, task_count = 2\<rparr>) [0..<2])) =
     mset (all_tasks (stage_nodes example_plan 2))"
proof -
  have "stage_ok example_plan 2"
    by code_simp
  note th = apply_with_dt_ctx_covers_stage [OF example_visit_lib_law this,
      where panic = "()" and h = "\<lambda>_ c s. s @ [c]" and s = "[]"]
  have "fold (\<lambda>(_, c) s. s @ [c]) (task_nodes example_plan \<lparr>task_index = 1, task_count = 2\<rparr>) [] =
      [\<lparr>task_index = 1, task_count = 2\<rparr>, \<lparr>task_index = 0, task_count = 1\<rparr>]"
    by code_simp
  then show ?thesis
    using th by (auto simp: dest: spec [of _ 1])
qed


text \<open>C28. The stack of task contexts of the top-down rewriter always has the context of the next node
  on top: the rewriter returns what the recursion returns that gives every child its own context,
  with the same state, also when the closure skips children or stops.\<close>

theorem transform_down_with_dt_ctx_refines:
  assumes "transform_down_law kids rebuild td (dt_step panic f)"
    "down_run kids rebuild (dt_contexts panic f) (Some ctx) p s t s'"
  shows "transform_down_with_dt_ctx td panic ctx f p s = Inr (t, s')"
proof -
  have "transform_down_law kids rebuild td (with_stack panic (dt_contexts panic f))"
    using assms(1) by (simp add: dt_step_with_stack)
  from stack_transform_down(1) [OF this assms(2), rule_format, of "[]"]
  show ?thesis
    by (auto simp: transform_down_with_dt_ctx_def dt_step_with_stack)
qed

text \<open>Rewriting the children concurrently gives the plan that the engine's sequential
  \<open>transform_up\<close> gives, and a result whenever neither the closure nor rebuilding a node fails.\<close>

theorem transform_up_async_same_plan:
  assumes "transform_up_law kids rebuild tu (stateless f)"
    "map_children_law kids rebuild map_children (next_result panic)"
  shows "(transform_up_async map_children panic f p = Inr t \<longrightarrow> tu (stateless f) p () = Inr (t, ())) \<and>
    ((\<forall>p. \<exists>t. f p = Inr t) \<and> (\<forall>p ps. \<exists>q. rebuild p ps = Inr q) \<longrightarrow>
      (\<exists>t. transform_up_async map_children panic f p = Inr t))"
  using transform_up_async_sync [OF assms] transform_up_async_total [OF assms(2)] by blast

lemma keeps_children_up_push: "keeps_children (up_push panic)"
  by (auto simp: keeps_children_def up_push_def split: if_splits)


lemma keeps_children_dt_step:
  "keeps_children (dt_step panic (\<lambda>p c s. Inr (no p, h p c s)))"
  by (auto simp: keeps_children_def dt_step_def bind_res_eq_Inr split: if_splits option.splits)

theorem transform_down_with_dt_ctx_refines_witness:
  "transform_down_with_dt_ctx (example_down example_rebuild) () \<lparr>task_index = 1, task_count = 2\<rparr>
     (\<lambda>p c s. Inr (no p, s @ [c])) example_plan [] =
   Inr (no example_plan, [\<lparr>task_index = 1, task_count = 2\<rparr>, \<lparr>task_index = 0, task_count = 1\<rparr>])"
proof (rule transform_down_with_dt_ctx_refines)
  let ?f = "\<lambda>p c s. Inr (no p, s @ [c]) :: (unit, _) res"
  let ?g = "dt_contexts () ?f"
  show "transform_down_law kids example_rebuild (example_down example_rebuild) (dt_step () ?f)"
    by (rule example_down_law) (rule keeps_children_dt_step)
  let ?c = "\<lparr>task_index = 1, task_count = 2\<rparr>" and ?d = "\<lparr>task_index = 0, task_count = 1\<rparr>"
  show "down_run kids example_rebuild ?g (Some ?c) example_plan [] (no example_plan) [?c, ?d]"
  proof (rule down_same)
    show "?g (Some ?c) example_plan [] = Inr (no example_plan, [None, Some ?d], [?c])"
      by (simp add: dt_contexts_def example_plan_def child_ctxs_def example_union_def)
    show "down_runs kids example_rebuild ?g [None, Some ?d] (kids example_plan) [?c] (kids example_plan) False Continue [?c, ?d]"
      unfolding example_plan_def tree.sel
    proof (rule cons_same, rule jump_same)
      let ?l = "Plan (OtherNode 2) [] :: (unit, unit, unit, nat) plan"
      have "down_run kids example_rebuild ?g (Some ?d) ?l [?c] (no ?l) [?c, ?d]"
        by (rule down_same [where cxs = "[]" and ps = "[]" and ?s1.0 = "[?c, ?d]"])
          (simp add: dt_contexts_def is_network_boundary_def child_ctxs_def,
            unfold tree.sel, rule down_run_down_runs.nil)
      then show "down_runs kids example_rebuild ?g [Some ?d] [?l] [?c] [?l] False Continue [?c, ?d]"
        by (rule cons_same) (rule down_run_down_runs.nil)
    qed (simp add: dt_contexts_def)
  qed
qed

theorem transform_up_async_same_plan_witness:
  "example_up example_rebuild (stateless (\<lambda>p. Inr (if kids p = [] then yes (Plan (OtherNode 3) []) else no p) :: (unit, _) res)) example_plan () =
     Inr (yes (Plan (IsolatorUnionNode example_union) [Plan (OtherNode 3) [], Plan (OtherNode 3) []]), ())"
proof -
  let ?f = "\<lambda>p :: (unit, unit, unit, nat) plan. Inr (if kids p = [] then yes (Plan (OtherNode 3) []) else no p) :: (unit, _) res"
  note th = transform_up_async_same_plan [OF example_up_law example_map_children_law, where f = ?f and panic = "()"]
  have "transform_up_async (rewrite_children kids example_rebuild) () ?f example_plan =
      Inr (yes (Plan (IsolatorUnionNode example_union) [Plan (OtherNode 3) [], Plan (OtherNode 3) []]))"
    by (simp add: example_plan_def rewrite_children_def yes_def no_def example_rebuild_def)
  from th [THEN conjunct1, rule_format, OF this] show ?thesis .
qed

text \<open>
  The closure must let the recursion continue: if it skips the parent of a node, the parent's count
  stays on the stack and the next sibling is rewritten with it. Here the second child of the union
  runs in 3 tasks and is rewritten with 2.
\<close>

definition skipping_union :: "(unit, (unit, unit, unit) plan_properties) children_isolator_union" where
  "skipping_union = example_union\<lparr>task_idx_map :=
     [[(0, \<lparr>task_index = 0, task_count = 2\<rparr>), (1, \<lparr>task_index = 0, task_count = 3\<rparr>)]]\<rparr>"

lemma transform_up_with_task_count_jump:
  "union_child_task_counts skipping_union = [2, 3] \<and>
   transform_up_with_task_count (example_down_up example_rebuild) () 1
     (\<lambda>p tc s. Inr (if p = Plan (OtherNode 0) [] then (no p)\<lparr>tnr := Jump\<rparr> else no p, s @ [(node_of p, tc)]))
     (Plan (IsolatorUnionNode skipping_union) [Plan (OtherNode 1) [Plan (OtherNode 0) []], Plan (OtherNode 2) []]) [] =
   Inr (no (Plan (IsolatorUnionNode skipping_union) [Plan (OtherNode 1) [Plan (OtherNode (0::nat)) []], Plan (OtherNode 2) []]),
     [(OtherNode 0, 2), (OtherNode 2, 2), (IsolatorUnionNode skipping_union, 3)])"
proof
  show counts: "union_child_task_counts skipping_union = [2, 3]"
    by code_simp
  show "transform_up_with_task_count (example_down_up example_rebuild) () 1
     (\<lambda>p tc s. Inr (if p = Plan (OtherNode 0) [] then (no p)\<lparr>tnr := Jump\<rparr> else no p, s @ [(node_of p, tc)]))
     (Plan (IsolatorUnionNode skipping_union) [Plan (OtherNode 1) [Plan (OtherNode 0) []], Plan (OtherNode 2) []]) [] =
   Inr (no (Plan (IsolatorUnionNode skipping_union) [Plan (OtherNode 1) [Plan (OtherNode (0::nat)) []], Plan (OtherNode 2) []]),
     [(OtherNode 0, 2), (OtherNode 2, 2), (IsolatorUnionNode skipping_union, 3)])"
    by (simp add: transform_up_with_task_count_def up_push_def up_pop_def example_rebuild_def counts child_tcs_other
        is_network_boundary_def children_with_def rewrite_parent_def no_def)
qed

end
