(* ===== verification/InjectBoundaries.thy ===== *)
theory InjectBoundaries
  imports Recursion
begin

text \<open>
  Injection of network boundaries (\<open>src/src/distributed_planner/inject_network_boundaries.rs\<close>).
  The planner climbs a plan, reconciles the task counts of a stage from its leaves upwards, and
  where a stage ends it pushes the final count down through the stage and puts a boundary on top.

  The planner keeps the task count of every node in a map under the node's address. Here a plan in
  progress is a tree whose nodes carry the map's entry for their address, if there is one; a node
  built anew has none. Handlers, plan properties and the rebuilding of the engine's operators are
  parameters. Children are processed one after the other; the code runs them concurrently, which
  only permutes the provisional stage numbers that \<open>prepare_network_boundaries\<close> replaces.
\<close>

section \<open>Plans in progress\<close>

type_synonym ('x, 'r, 'q, 'o) aplan = "(('x, 'r, 'q, 'o) node \<times> task_count_annotation option) tree"

datatype 'e plan_error =
    MissingTaskCount
  | MergeError task_count_error
  | RequiredAboveMax nat nat
  | NotExactlyOne
  | ZeroChildTasks
  | WrongChildCount nat
  | SinglePartitionJoin
  | UnionFailed "'e union_error"
  | BoundaryFailed "'e boundary_error"
  | EngineError 'e
  | Panic

definition erase :: "('x, 'r, 'q, 'o) aplan \<Rightarrow> ('x, 'r, 'q, 'o) plan" where
  "erase = map_tree fst"

definition task_count_of :: "('x, 'r, 'q, 'o) aplan \<Rightarrow> ('e plan_error, task_count_annotation) res" where
  "task_count_of p = (case snd (node_of p) of None \<Rightarrow> Inl MissingTaskCount | Some a \<Rightarrow> Inr a)"

definition plan_with_task_count ::
  "('x, 'r, 'q, 'o) aplan \<Rightarrow> task_count_annotation \<Rightarrow> ('x, 'r, 'q, 'o) aplan" where
  "plan_with_task_count p a = Plan (fst (node_of p), Some a) (kids p)"

datatype cardinality_effect = EffectUnknown | EffectEqual | LowerEqual | GreaterEqual

text \<open>
  The configuration and the environment of the planner: the fields that the code reads from its
  configuration, the urls of the workers, the event handlers' answers, and what the engine's
  operators compute. \<open>pl_repartition\<close> builds a repartition that keeps the order of its input where
  that is possible and says whether it does; \<open>pl_replace\<close> rebuilds an operator over new children.
\<close>

record ('x, 'r, 'q, 'o, 'e) planner =
  pl_broadcast_joins :: bool
  pl_max_tasks_per_stage :: nat
  pl_fanout_threshold :: nat
  pl_cardinality_factor :: f64
  pl_urls :: "('e, url list) res"
  pl_query_id :: uuid
  pl_desired :: "('x, 'r, 'q, 'o) plan \<Rightarrow> ('e, task_count_annotation) res option"
  pl_scale_up :: "('x, 'r, 'q, 'o) plan \<Rightarrow> nat \<Rightarrow> ('e, ('x, 'r, 'q, 'o) plan) res option"
  pl_props :: "('x, 'r, 'q, 'o) plan \<Rightarrow> ('x, 'r, 'q) plan_properties"
  pl_replace :: "('x, 'r, 'q, 'o) node \<Rightarrow> ('x, 'r, 'q, 'o) plan list \<Rightarrow> ('e, ('x, 'r, 'q, 'o) node) res"
  pl_union_new :: "('x, 'r, 'q, 'o) plan list \<Rightarrow> ('e, ('x, 'r, 'q) plan_properties) res"
  pl_repartition :: "('x, 'r, 'q, 'o) plan \<Rightarrow> ('x, 'r) partitioning \<Rightarrow> ('e, bool) res"
  pl_effect :: "('x, 'r, 'q, 'o) plan \<Rightarrow> cardinality_effect"
  pl_clear_constants :: "'q \<Rightarrow> 'q"
  pl_range_count :: "'r \<Rightarrow> nat"
  pl_range_scale :: "'r \<Rightarrow> nat \<Rightarrow> ('e, 'r) res"
  pl_salt_lit :: "nat \<Rightarrow> 'x"
  pl_ordering :: "'q \<Rightarrow> 'x list option"

definition max_tasks :: "('x, 'r, 'q, 'o, 'e) planner \<Rightarrow> ('e plan_error, nat) res" where
  "max_tasks env =
     (if pl_max_tasks_per_stage env = 0 then
        (case pl_urls env of Inl e \<Rightarrow> Inl (EngineError e) | Inr urls \<Rightarrow> Inr (max (length urls) 1))
      else Inr (pl_max_tasks_per_stage env))"

definition engine :: "('e, 'a) res \<Rightarrow> ('e plan_error, 'a) res" where
  "engine r = (case r of Inl e \<Rightarrow> Inl (EngineError e) | Inr a \<Rightarrow> Inr a)"

definition partitions_of :: "('x, 'r, 'q, 'o, 'e) planner \<Rightarrow> ('x, 'r, 'q, 'o) plan \<Rightarrow> nat" where
  "partitions_of env p = part_count (pl_range_count env) (partitioning (pl_props env p))"

section \<open>Rebuilding a node over new children\<close>

definition with_children ::
  "('p, 'props) children_isolator_union \<Rightarrow> 'c list \<Rightarrow> ('c, 'props) children_isolator_union" where
  "with_children u cs =
     \<lparr>properties = properties u, partition_count = partition_count u, children = cs,
      child_annotations = child_annotations u, task_idx_map = task_idx_map u\<rparr>"

definition union_node ::
  "(('x, 'r, 'q, 'o) plan, ('x, 'r, 'q) plan_properties) children_isolator_union \<Rightarrow> ('x, 'r, 'q, 'o) node" where
  "union_node u = IsolatorUnionNode (with_children u (map (\<lambda>_. ()) (children u)))"

definition union_res :: "('e union_error, 'a) res \<Rightarrow> ('e plan_error, 'a) res" where
  "union_res r = (case r of Inl e \<Rightarrow> Inl (UnionFailed e) | Inr a \<Rightarrow> Inr a)"

definition boundary_res :: "('e boundary_error, 'a) res \<Rightarrow> ('e plan_error, 'a) res" where
  "boundary_res r = (case r of Inl e \<Rightarrow> Inl (BoundaryFailed e) | Inr a \<Rightarrow> Inr a)"

text \<open>
  \<open>replace_children\<close>: the program's own nodes by their \<open>with_new_children\<close>, others by the engine. Of
  the old children of a union only their number matters.
\<close>

definition replace_children ::
  "('x, 'r, 'q, 'o, 'e) planner \<Rightarrow> ('x, 'r, 'q, 'o) node \<Rightarrow> ('x, 'r, 'q, 'o) plan list \<Rightarrow>
   ('e plan_error, ('x, 'r, 'q, 'o) node) res" where
  "replace_children env n cs =
     (case n of
        IsolatorUnionNode u \<Rightarrow>
          bind_res (union_res (with_new_children (partitions_of env) (pl_union_new env)
              (with_children u (replicate (length (children u)) (Plan n []))) cs)) (\<lambda>u.
            Inr (union_node u))
      | BroadcastNode k \<Rightarrow>
          if length cs \<noteq> 1 then Inl (WrongChildCount (length cs)) else Inr (BroadcastNode k)
      | ShuffleNode sh \<Rightarrow>
          bind_res (boundary_res (shuffle_with_new_children sh (map (\<lambda>_. ()) cs))) (\<lambda>sh. Inr (ShuffleNode sh))
      | NetworkCoalesceNode co \<Rightarrow>
          bind_res (boundary_res (coalesce_with_new_children (pl_range_count env) (\<lambda>_. pl_props env (hd cs)) co
              (map (\<lambda>_. ()) cs))) (\<lambda>co.
            Inr (NetworkCoalesceNode co))
      | NetworkBroadcastNode br \<Rightarrow>
          bind_res (boundary_res (broadcast_with_new_children br (map (\<lambda>_. ()) cs))) (\<lambda>br.
            Inr (NetworkBroadcastNode br))
      | _ \<Rightarrow> engine (pl_replace env n cs))"

section \<open>The task count of a node\<close>

definition is_left_broadcast_safe :: "join_type \<Rightarrow> bool" where
  "is_left_broadcast_safe t \<longleftrightarrow> t \<in> {Inner, RightJoin, RightSemi, RightAnti, RightMark}"

text \<open>The joins that must run in a single task because their build side is not broadcast.\<close>

definition single_task_join :: "bool \<Rightarrow> ('x, 'r, 'q, 'o) node \<Rightarrow> bool" where
  "single_task_join broadcast_joins n =
     (case n of
        HashJoinNode mode t null_aware _ \<Rightarrow>
          mode = CollectLeft \<and> (\<not> broadcast_joins \<or> null_aware \<or> \<not> is_left_broadcast_safe t)
      | NestedLoopJoinNode t \<Rightarrow> \<not> broadcast_joins \<or> t = FullJoin \<or> \<not> is_left_broadcast_safe t
      | CrossJoinNode \<Rightarrow> \<not> broadcast_joins
      | _ \<Rightarrow> False)"

fun merge_children ::
  "task_count_annotation \<Rightarrow> ('x, 'r, 'q, 'o) aplan list \<Rightarrow> ('e plan_error, task_count_annotation) res" where
  "merge_children a [] = Inr a"
| "merge_children a (c # cs) =
     bind_res (task_count_of c) (\<lambda>b.
       case ann_merge a b of Inl e \<Rightarrow> Inl (MergeError e) | Inr a \<Rightarrow> merge_children a cs)"

text \<open>In a union the loads of the children add up, and the largest minimum applies.\<close>

definition child_load :: "task_count_annotation \<Rightarrow> f64" where
  "child_load a =
     (case restriction a of
        Exact n \<Rightarrow> f64_min (soft a) (f64_of_usize n)
      | _ \<Rightarrow> (case get_max a of None \<Rightarrow> soft a | Some m \<Rightarrow> f64_min (soft a) (f64_of_usize m)))"

fun union_count ::
  "f64 \<Rightarrow> nat option \<Rightarrow> ('x, 'r, 'q, 'o) aplan list \<Rightarrow> ('e plan_error, task_count_annotation) res" where
  "union_count load mn [] = Inr (case mn of Some v \<Rightarrow> ann_min v load | None \<Rightarrow> ann_soft load)"
| "union_count load mn (c # cs) =
     bind_res (task_count_of c) (\<lambda>a.
       union_count (f64_add load (child_load a))
         (case get_min a of
            None \<Rightarrow> mn
          | Some n \<Rightarrow> Some (case mn of None \<Rightarrow> n | Some m \<Rightarrow> max m n)) cs)"

definition desired_or ::
  "('x, 'r, 'q, 'o, 'e) planner \<Rightarrow> ('x, 'r, 'q, 'o) plan \<Rightarrow> task_count_annotation \<Rightarrow>
   ('e plan_error, task_count_annotation) res" where
  "desired_or env p a = (case pl_desired env p of None \<Rightarrow> Inr a | Some r \<Rightarrow> engine r)"

definition is_isolator_union :: "('x, 'r, 'q, 'o) node \<Rightarrow> bool" where
  "is_isolator_union n = (case n of IsolatorUnionNode _ \<Rightarrow> True | _ \<Rightarrow> False)"

definition reconcile ::
  "('x, 'r, 'q, 'o, 'e) planner \<Rightarrow> ('x, 'r, 'q, 'o) plan \<Rightarrow> ('x, 'r, 'q, 'o) aplan list \<Rightarrow>
   ('e plan_error, task_count_annotation) res" where
  "reconcile env p processed =
     (if kids p = [] then desired_or env p (ann_exact 1 (Fin 0))
      else if is_isolator_union (node_of p) then union_count (Fin 0) None processed
      else if single_task_join (pl_broadcast_joins env) (node_of p) then
        merge_children (ann_exact 1 (Fin 0)) processed
      else bind_res (desired_or env p (ann_soft (Fin 0))) (\<lambda>a. merge_children a processed))"

text \<open>The configured maximum caps the estimate; a larger required count is an error.\<close>

definition cap ::
  "('x, 'r, 'q, 'o, 'e) planner \<Rightarrow> task_count_annotation \<Rightarrow> ('e plan_error, task_count_annotation) res" where
  "cap env a =
     bind_res (max_tasks env) (\<lambda>m.
       case get_min a of
         Some mn \<Rightarrow> if m < mn then Inl (RequiredAboveMax mn m)
                    else Inr (a\<lparr>soft := f64_min (soft a) (f64_of_usize m)\<rparr>)
       | None \<Rightarrow> Inr (a\<lparr>soft := f64_min (soft a) (f64_of_usize m)\<rparr>))"

section \<open>Pushing a task count down through a stage\<close>

definition propagate_leaf ::
  "('x, 'r, 'q, 'o, 'e) planner \<Rightarrow> ('x, 'r, 'q, 'o) node \<Rightarrow> task_count_annotation \<Rightarrow>
   ('e plan_error, ('x, 'r, 'q, 'o) aplan) res" where
  "propagate_leaf env n tc =
     (case pl_scale_up env (Plan n []) (as_usize tc) of
        None \<Rightarrow> Inr (Plan (n, Some tc) [])
      | Some (Inl e) \<Rightarrow> Inl (EngineError e)
      | Some (Inr scaled) \<Rightarrow> Inr (map_tree (\<lambda>n. (n, Some tc)) scaled))"

text \<open>
  A direct hash shuffle with a large fan-out becomes a two-phase shuffle, with a repartition above
  it. The input of a boundary belongs to another stage.
\<close>

definition propagate_boundary ::
  "('x, 'r, 'q, 'o, 'e) planner \<Rightarrow> ('x, 'r, 'q, 'o) node \<Rightarrow> ('x, 'r, 'q, 'o) aplan list \<Rightarrow>
   task_count_annotation \<Rightarrow> ('e plan_error, ('x, 'r, 'q, 'o) aplan) res" where
  "propagate_boundary env n cs tc =
     (case n of
        ShuffleNode sh \<Rightarrow>
          (case (sh_mode sh, sh_producer_partitioning sh) of
             (Direct, Hash exprs k) \<Rightarrow>
               if pl_fanout_threshold env \<le> as_usize tc * k then
                 (let two_phase = Plan (ShuffleNode (to_two_phase_salted sh), Some tc) cs
                  in bind_res (engine (pl_repartition env (erase two_phase) (Hash exprs k))) (\<lambda>preserve.
                       Inr (Plan (RepartitionNode (Hash exprs k) preserve, Some tc) [two_phase])))
               else Inr (Plan (n, Some tc) cs)
           | _ \<Rightarrow> Inr (Plan (n, Some tc) cs))
      | _ \<Rightarrow> Inr (Plan (n, Some tc) cs))"

text \<open>The children of a union run in the tasks that are allocated to them.\<close>

definition propagate_union ::
  "('x, 'r, 'q, 'o, 'e) planner \<Rightarrow> ('x, 'r, 'q, 'o) aplan \<Rightarrow>
   (task_count_annotation \<Rightarrow> ('e plan_error, ('x, 'r, 'q, 'o) aplan) res) list \<Rightarrow>
   task_count_annotation \<Rightarrow> ('e plan_error, ('x, 'r, 'q, 'o) aplan) res" where
  "propagate_union env p recurse tc =
     bind_res (map_res task_count_of (kids p)) (\<lambda>anns.
     bind_res (union_res (from_children_and_annotations (partitions_of env) (pl_union_new env)
         (map erase (kids p)) anns (as_usize tc))) (\<lambda>u.
     bind_res (map_res (\<lambda>(g, n). if n = 0 then Inl ZeroChildTasks else g (ann_exact n (soft tc)))
         (zip recurse (union_child_task_counts u))) (\<lambda>new_children.
     bind_res (union_res (with_new_children (partitions_of env) (pl_union_new env) u
         (map erase new_children))) (\<lambda>u.
     Inr (Plan (union_node u, Some tc) new_children)))))"

primrec propagate ::
  "('x, 'r, 'q, 'o, 'e) planner \<Rightarrow> ('x, 'r, 'q, 'o) aplan \<Rightarrow> task_count_annotation \<Rightarrow>
   ('e plan_error, ('x, 'r, 'q, 'o) aplan) res" where
  "propagate env (Plan na cs) = (\<lambda>tc.
     let n = fst na
     in if cs = [] \<and> \<not> is_network_boundary n then propagate_leaf env n tc
        else if is_network_boundary n then propagate_boundary env n cs tc
        else if is_isolator_union n then
          propagate_union env (Plan na cs) (map (propagate env) cs) tc
        else
          bind_res (map_res (\<lambda>g. g tc) (map (propagate env) cs)) (\<lambda>new_children.
          bind_res (replace_children env n (map erase new_children)) (\<lambda>n.
          Inr (Plan (n, Some tc) new_children))))"

section \<open>Injection\<close>

datatype boundary_kind = ShuffleKind | BroadcastKind | CoalesceKind

record ('x, 'r, 'q, 'o) built =
  consumer_task_count :: task_count_annotation
  built_stage :: "(uuid, ('x, 'r, 'q, 'o) aplan, unit, url, unit, unit) stage"
  built_properties :: "('x, 'r, 'q) plan_properties"

type_synonym ('x, 'r, 'q, 'o, 'e) builder =
  "(uuid, ('x, 'r, 'q, 'o) aplan, unit) local_stage \<Rightarrow> boundary_kind \<Rightarrow> ('e plan_error, ('x, 'r, 'q, 'o) built) res"

text \<open>A boundary's stage without the plan, and the plan as the boundary's child.\<close>

fun stage_ref_of :: "(uuid, 'p, unit, url, unit, unit) stage \<Rightarrow> stage_ref" where
  "stage_ref_of (Local l) =
     Local \<lparr>ls_query_id = ls_query_id l, ls_num = ls_num l, ls_plan = (), ls_tasks = ls_tasks l,
            ls_metrics_set = ls_metrics_set l\<rparr>"
| "stage_ref_of (Remote r) = Remote r"

fun stage_kids :: "(uuid, 'p, unit, url, unit, unit) stage \<Rightarrow> 'p list" where
  "stage_kids (Local l) = [ls_plan l]"
| "stage_kids (Remote r) = []"

definition boundary_above :: "('x, 'r, 'q, 'o) node \<Rightarrow> ('x, 'r, 'q, 'o) node option \<Rightarrow> boundary_kind option" where
  "boundary_above n parent =
     (case n of
        RepartitionNode (Hash _ _) _ \<Rightarrow> Some ShuffleKind
      | RepartitionNode (RangePart _) _ \<Rightarrow> Some ShuffleKind
      | BroadcastNode _ \<Rightarrow> Some BroadcastKind
      | _ \<Rightarrow> (case parent of
                Some (CoalescePartitionsNode _) \<Rightarrow> Some CoalesceKind
              | Some (SortPreservingMergeNode _) \<Rightarrow> Some CoalesceKind
              | _ \<Rightarrow> None))"

definition boundary_node ::
  "('x, 'r, 'q, 'o, 'e) planner \<Rightarrow> boundary_kind \<Rightarrow> ('x, 'r, 'q, 'o) node \<Rightarrow> ('x, 'r, 'q, 'o) built \<Rightarrow>
   ('e plan_error, ('x, 'r, 'q, 'o) node) res" where
  "boundary_node env kind n b =
     (let st = stage_ref_of (built_stage b); props = built_properties b
      in case kind of
           ShuffleKind \<Rightarrow>
             Inr (ShuffleNode (shuffle_from_stage (pl_clear_constants env) st
               (case n of RepartitionNode pt _ \<Rightarrow> props\<lparr>partitioning := pt\<rparr> | _ \<Rightarrow> props)))
         | BroadcastKind \<Rightarrow> Inr (NetworkBroadcastNode (broadcast_from_stage (pl_range_count env) st props))
         | CoalesceKind \<Rightarrow>
             if restriction (consumer_task_count b) \<noteq> Exact 1 then Inl NotExactlyOne
             else Inr (NetworkCoalesceNode (coalesce_try_from_stage (pl_range_count env) st props 1)))"

definition inject_step ::
  "('x, 'r, 'q, 'o, 'e) planner \<Rightarrow> ('x, 'r, 'q, 'o, 'e) builder \<Rightarrow> ('x, 'r, 'q, 'o) plan \<Rightarrow>
   ('x, 'r, 'q, 'o) node option \<Rightarrow> ('x, 'r, 'q, 'o) aplan list \<Rightarrow> nat \<Rightarrow>
   ('e plan_error, ('x, 'r, 'q, 'o) aplan \<times> nat) res" where
  "inject_step env build p parent processed stage_id =
     bind_res (reconcile env p processed) (\<lambda>tc.
     bind_res (replace_children env (node_of p) (map erase processed)) (\<lambda>n.
     bind_res (cap env tc) (\<lambda>tc.
       (let plan = Plan (n, None) processed
        in case boundary_above n parent of
             Some kind \<Rightarrow>
               bind_res (build \<lparr>ls_query_id = pl_query_id env, ls_num = stage_id,
                                ls_plan = plan_with_task_count plan tc, ls_tasks = as_usize tc,
                                ls_metrics_set = ()\<rparr> kind) (\<lambda>b.
               bind_res (boundary_node env kind n b) (\<lambda>nb.
                 Inr (Plan (nb, Some (consumer_task_count b)) (stage_kids (built_stage b)), stage_id + 1)))
           | None \<Rightarrow>
               if parent = None then bind_res (propagate env plan tc) (\<lambda>q. Inr (q, stage_id))
               else Inr (plan_with_task_count plan tc, stage_id)))))"

primrec inject ::
  "('x, 'r, 'q, 'o, 'e) planner \<Rightarrow> ('x, 'r, 'q, 'o, 'e) builder \<Rightarrow> ('x, 'r, 'q, 'o) plan \<Rightarrow>
   ('x, 'r, 'q, 'o) node option \<Rightarrow> nat \<Rightarrow> ('e plan_error, ('x, 'r, 'q, 'o) aplan \<times> nat) res" where
  "inject env build (Plan n cs) = (\<lambda>parent stage_id.
     bind_res (seq_res (map (\<lambda>g. g (Some n)) (map (inject env build) cs)) stage_id) (\<lambda>(processed, stage_id).
       inject_step env build (Plan n cs) parent processed stage_id))"

definition inject_network_boundaries ::
  "('x, 'r, 'q, 'o, 'e) planner \<Rightarrow> ('x, 'r, 'q, 'o, 'e) builder \<Rightarrow> ('x, 'r, 'q, 'o) plan \<Rightarrow>
   ('e plan_error, ('x, 'r, 'q, 'o) aplan) res" where
  "inject_network_boundaries env build p = bind_res (inject env build p None 1) (\<lambda>(q, _). Inr q)"

section \<open>The builder for static plans\<close>

primrec calculate_scale_factor ::
  "('x, 'r, 'q, 'o, 'e) planner \<Rightarrow> ('x, 'r, 'q, 'o) plan \<Rightarrow> f64" where
  "calculate_scale_factor env (Plan n cs) =
     (if is_network_boundary n then Fin 1
      else let sf = (case map (calculate_scale_factor env) cs of [] \<Rightarrow> Fin 1 | f # fs \<Rightarrow> foldl f64_max f fs)
           in case pl_effect env (Plan n cs) of
                LowerEqual \<Rightarrow> f64_div sf (pl_cardinality_factor env)
              | GreaterEqual \<Rightarrow> f64_mul sf (pl_cardinality_factor env)
              | _ \<Rightarrow> sf)"

definition cardinality_build :: "('x, 'r, 'q, 'o, 'e) planner \<Rightarrow> ('x, 'r, 'q, 'o, 'e) builder" where
  "cardinality_build env st kind =
     bind_res (task_count_of (ls_plan st)) (\<lambda>tc.
     bind_res (propagate env (ls_plan st) tc) (\<lambda>p.
       (let st' = st\<lparr>ls_plan := p\<rparr>; props = pl_props env (erase p)
        in if kind = CoalesceKind then
             Inr \<lparr>consumer_task_count = ann_exact 1 (soft tc), built_stage = Local st', built_properties = props\<rparr>
           else
             Inr \<lparr>consumer_task_count =
                    ann_soft (f64_mul (f64_min (soft tc) (f64_of_usize (ls_tasks st))) (calculate_scale_factor env (erase p))),
                  built_stage = Local st', built_properties = props\<rparr>)))"

section \<open>Where the nodes run\<close>

text \<open>All nodes of a plan, each with the number of tasks it runs in.\<close>

primrec counted_nodes :: "('x, 'r, 'q, 'o) plan \<Rightarrow> nat \<Rightarrow> (('x, 'r, 'q, 'o) plan \<times> nat) list" where
  "counted_nodes (Plan n cs) = (\<lambda>tc. (Plan n cs, tc) #
     concat (map (\<lambda>(g, tc). g tc) (zip (map counted_nodes cs) (child_tcs tc (Plan n cs)))))"

definition is_network_coalesce :: "('x, 'r, 'q, 'o) node \<Rightarrow> bool" where
  "is_network_coalesce n = (case n of NetworkCoalesceNode _ \<Rightarrow> True | _ \<Rightarrow> False)"

text \<open>
  A node that must run in one task: a join that collects its build side without a broadcast, or an
  operator that merges all partitions into one above a network coalesce.
\<close>

definition needs_one_task :: "bool \<Rightarrow> ('x, 'r, 'q, 'o) plan \<Rightarrow> bool" where
  "needs_one_task broadcast_joins p \<longleftrightarrow>
     single_task_join broadcast_joins (node_of p) \<or>
     (case node_of p of
        CoalescePartitionsNode _ \<Rightarrow> list_ex (\<lambda>c. is_network_coalesce (node_of c)) (kids p)
      | SortPreservingMergeNode _ \<Rightarrow> list_ex (\<lambda>c. is_network_coalesce (node_of c)) (kids p)
      | _ \<Rightarrow> False)"

definition placed :: "bool \<Rightarrow> nat \<Rightarrow> ('x, 'r, 'q, 'o) plan \<times> nat \<Rightarrow> bool" where
  "placed broadcast_joins m x \<longleftrightarrow>
     (needs_one_task broadcast_joins (fst x) \<longrightarrow> snd x = 1) \<and>
     (case input_stage (node_of (fst x)) of
        Some st \<Rightarrow> 0 < stage_task_count st \<and> stage_task_count st \<le> m
      | None \<Rightarrow> True)"

text \<open>
  The plan without what the planner adds: boundaries, the repartition above a two-phase shuffle, and
  the task maps of unions.
\<close>

definition is_two_phase :: "('x, 'r, 'q, 'o) node \<Rightarrow> bool" where
  "is_two_phase n = (case n of ShuffleNode sh \<Rightarrow> sh_mode sh \<noteq> Direct | _ \<Rightarrow> False)"

definition above_two_phase :: "('x, 'r, 'q, 'o) node \<Rightarrow> ('x, 'r, 'q, 'o) node list \<Rightarrow> bool" where
  "above_two_phase n ns = (case n of RepartitionNode _ _ \<Rightarrow> length ns = 1 \<and> list_all is_two_phase ns | _ \<Rightarrow> False)"

definition bare_node :: "('x, 'r, 'q, 'o) node \<Rightarrow> ('x, 'r, 'q, 'o) node" where
  "bare_node n = (if is_isolator_union n then UnionNode else n)"

primrec strip :: "('x, 'r, 'q, 'o) plan \<Rightarrow> ('x, 'r, 'q, 'o) plan" where
  "strip (Plan n cs) =
     (if is_network_boundary n \<or> above_two_phase n (map node_of cs) then hd (map strip cs)
      else Plan (bare_node n) (map strip cs))"

text \<open>
  What the planner relies on. Task counts are not 0, the replacement of a leaf consists of
  operators that place no demand on the stage, and rebuilding one of the engine's operators over
  new children gives the same operator.
\<close>

definition plain_node :: "('x, 'r, 'q, 'o) node \<Rightarrow> bool" where
  "plain_node n = (case n of OtherNode _ \<Rightarrow> True | DistributedLeafNode _ _ \<Rightarrow> True | _ \<Rightarrow> False)"

definition planner_ok :: "('x, 'r, 'q, 'o, 'e) planner \<Rightarrow> bool" where
  "planner_ok env \<longleftrightarrow>
     (\<forall>p a. pl_desired env p = Some (Inr a) \<longrightarrow> wf_restriction (restriction a)) \<and>
     (\<forall>p k q. pl_scale_up env p k = Some (Inr q) \<longrightarrow> (\<forall>n \<in> nodes_of q. plain_node n)) \<and>
     (\<forall>n cs n'. pl_replace env n cs = Inr n' \<longrightarrow> n' = n)"

text \<open>
  A plan in progress whose stages below the boundaries are finished: every node has a task count,
  and the counts that a node admits are admitted by its children.
\<close>

definition admitted :: "('x, 'r, 'q, 'o) aplan \<Rightarrow> nat \<Rightarrow> bool" where
  "admitted p k \<longleftrightarrow> (\<forall>b. snd (node_of p) = Some b \<longrightarrow> admits (restriction b) k)"

inductive reconciled :: "bool \<Rightarrow> nat \<Rightarrow> ('x, 'r, 'q, 'o) aplan \<Rightarrow> bool" for bj m where
  boundary: "\<lbrakk>input_stage n = Some st; 0 < stage_task_count st; stage_task_count st \<le> m;
     wf_restriction (restriction t); is_network_coalesce n \<longrightarrow> restriction t = Exact 1;
     \<forall>c \<in> set cs. \<forall>x \<in> set (counted_nodes (erase c) (stage_task_count st)). placed bj m x\<rbrakk> \<Longrightarrow>
     reconciled bj m (Plan (n, Some t) cs)"
| leaf: "\<lbrakk>\<not> is_network_boundary n; \<not> single_task_join bj n; wf_restriction (restriction t)\<rbrakk> \<Longrightarrow>
     reconciled bj m (Plan (n, Some t) [])"
| union: "\<lbrakk>cs \<noteq> []; \<forall>c \<in> set cs. reconciled bj m c; wf_restriction (restriction t)\<rbrakk> \<Longrightarrow>
     reconciled bj m (Plan (IsolatorUnionNode u, Some t) cs)"
| inner: "\<lbrakk>\<not> is_network_boundary n; \<not> is_isolator_union n; cs \<noteq> []; \<forall>c \<in> set cs. reconciled bj m c;
     wf_restriction (restriction t); \<forall>k. admits (restriction t) k \<longrightarrow> list_all (\<lambda>c. admitted c k) cs;
     single_task_join bj n \<longrightarrow> (\<forall>k. admits (restriction t) k \<longrightarrow> k = 1)\<rbrakk> \<Longrightarrow>
     reconciled bj m (Plan (n, Some t) cs)"

section \<open>Lemmas\<close>

lemma erase_Plan [simp]: "erase (Plan na cs) = Plan (fst na) (map erase cs)"
  by (simp add: erase_def)

lemma node_of_erase [simp]: "node_of (erase p) = fst (node_of p)"
  by (cases p) simp

lemma kids_erase [simp]: "kids (erase p) = map erase (kids p)"
  by (cases p) simp

lemma erase_annotate [simp]: "erase (map_tree (\<lambda>n. (n, a)) p) = p"
  unfolding erase_def by (induction p) (simp add: map_idI)

lemma engine_Inr [simp]: "engine r = Inr a \<longleftrightarrow> r = Inr a"
  by (auto simp: engine_def split: sum.splits)

lemma union_res_Inr [simp]: "union_res r = Inr a \<longleftrightarrow> r = Inr a"
  by (auto simp: union_res_def split: sum.splits)

lemma isolator_union_eq: "is_isolator_union n \<longleftrightarrow> (\<exists>u. n = IsolatorUnionNode u)"
  by (cases n) (simp_all add: is_isolator_union_def)

lemma replace_children_same:
  assumes "planner_ok env" "\<not> is_network_boundary n" "\<not> is_isolator_union n" "replace_children env n cs = Inr n'"
  shows "n' = n"
  using assms
  by (cases n) (auto simp: replace_children_def planner_ok_def is_network_boundary_def is_isolator_union_def split: if_splits)

lemma length_child_tcs_boundary: "input_stage n = Some st \<Longrightarrow> child_tcs k (Plan n cs) = replicate (length cs) (stage_task_count st)"
  by (cases n) (simp_all add: child_tcs_def)

lemma set_zip_counted:
  "length cs = length tcs \<Longrightarrow> set (concat (map (\<lambda>(g, tc). g tc) (zip (map f cs) tcs))) = (\<Union>i < length cs. set (f (cs ! i) (tcs ! i)))"
  by (auto simp: set_zip)

lemma set_counted_nodes:
  assumes "length (child_tcs k (Plan n cs)) = length cs"
  shows "set (counted_nodes (Plan n cs) k) =
    insert (Plan n cs, k) (\<Union>i < length cs. set (counted_nodes (cs ! i) (child_tcs k (Plan n cs) ! i)))"
  using set_zip_counted [of cs "child_tcs k (Plan n cs)" counted_nodes] assms by simp

lemma reconciled_wf:
  "reconciled bj m p \<Longrightarrow> \<exists>t. snd (node_of p) = Some t \<and> wf_restriction (restriction t)"
  by (cases rule: reconciled.cases) auto

lemma placed_plain:
  assumes "\<forall>n \<in> nodes_of p. plain_node n" "x \<in> set (counted_nodes p k)"
  shows "placed bj m x"
  using assms
proof (induction p arbitrary: k)
  case (Plan n cs)
  have plain: "plain_node n"
    using Plan.prems(1) by simp
  then have n: "\<not> is_network_boundary n" "\<And>u. n \<noteq> IsolatorUnionNode u"
    by (auto simp: plain_node_def is_network_boundary_def split: node.splits)
  have "placed bj m (Plan n cs, k)"
    using plain by (cases n) (simp_all add: plain_node_def placed_def needs_one_task_def single_task_join_def)
  then show ?case
    using Plan.prems Plan.IH nth_mem
    by (auto simp del: counted_nodes.simps simp: set_counted_nodes child_tcs_other [OF n])
qed

text \<open>The tasks that a union allocates to a child are admitted by the child's restriction.\<close>

lemma union_counts_admitted:
  assumes "from_children_and_annotations parts union_new cs anns budget = Inr u"
    "\<forall>a \<in> set anns. wf_restriction (restriction a)"
  shows "length (union_child_task_counts u) = length anns"
    "i < length anns \<Longrightarrow> admits (restriction (anns ! i)) (union_child_task_counts u ! i)"
proof -
  note f = from_children_Inr [OF assms(1)]
  have inv: "task_map_inv u" and len: "length anns = length cs"
    using f by (simp_all add: union_inv_def task_map_inv_def)
  have counts: "union_child_task_counts u = run_counts anns budget"
    using union_task_counts [OF inv] f split_children_length [OF f(3)] assms(2) by simp
  show "length (union_child_task_counts u) = length anns"
    by (simp add: counts run_counts_def)
  show "i < length anns \<Longrightarrow> admits (restriction (anns ! i)) (union_child_task_counts u ! i)"
    using child_task_counts_ok [OF assms(2)] count_ok_admits assms(2)
    by (auto simp: counts run_counts_def)
qed

lemma union_counts_pos:
  assumes "from_children_and_annotations parts union_new cs anns budget = Inr u"
    "\<forall>a \<in> set anns. wf_restriction (restriction a)" "n \<in> set (union_child_task_counts u)"
  shows "0 < n"
proof -
  note f = from_children_Inr [OF assms(1)]
  have "union_child_task_counts u = run_counts anns budget"
    using union_task_counts [of u] f split_children_length [OF f(3)] assms(2) by (simp add: union_inv_def)
  then show ?thesis
    using assms(3) by (auto simp: run_counts_def)
qed

lemma with_new_children_counts:
  assumes "from_children_and_annotations parts union_new cs anns budget = Inr u"
    "with_new_children parts union_new u cs' = Inr u'"
  shows "task_idx_map u' = task_idx_map u" "children u' = cs'" "length cs' = length cs"
proof -
  note f = from_children_Inr [OF assms(1)]
  have len: "length (task_idx_map u) = budget" "length cs' = length cs"
    using split_children_length [OF f(3)] assms(2) f(1)
    by (auto simp: with_new_children_def split: if_splits)
  then have "from_children_and_annotations parts union_new cs' anns budget = Inr u'"
    using assms(2) f(1,2) by (simp add: with_new_children_def split: if_splits)
  note g = from_children_Inr [OF this]
  show "task_idx_map u' = task_idx_map u" "children u' = cs'" "length cs' = length cs"
    using f(3) g(1,3) len by auto
qed

lemma UN_nth: "(\<Union>i < length xs. f (xs ! i)) = (\<Union>x \<in> set xs. f x)"
  by (auto simp: set_conv_nth)

lemma counted_same:
  assumes "child_tcs k (Plan n cs) = replicate (length cs) j"
  shows "set (counted_nodes (Plan n cs) k) = insert (Plan n cs, k) (\<Union>c \<in> set cs. set (counted_nodes c j))"
proof -
  have "(\<Union>i < length cs. set (counted_nodes (cs ! i) (replicate (length cs) j ! i))) =
      (\<Union>i < length cs. set (counted_nodes (cs ! i) j))"
    by (rule SUP_cong) simp_all
  then show ?thesis
    using UN_nth [where xs = cs and f = "\<lambda>c. set (counted_nodes c j)"] set_counted_nodes [of k n cs] assms by simp
qed

lemma counted_boundary:
  "input_stage n = Some st \<Longrightarrow> set (counted_nodes (Plan n cs) k) =
     insert (Plan n cs, k) (\<Union>c \<in> set cs. set (counted_nodes c (stage_task_count st)))"
  by (rule counted_same) (rule length_child_tcs_boundary)

lemma counted_inner:
  "\<not> is_network_boundary n \<Longrightarrow> \<not> is_isolator_union n \<Longrightarrow> set (counted_nodes (Plan n cs) k) =
     insert (Plan n cs, k) (\<Union>c \<in> set cs. set (counted_nodes c k))"
  by (rule counted_same, rule child_tcs_other) (auto simp: isolator_union_eq)

lemma boundary_needs: "input_stage n = Some st \<Longrightarrow> \<not> needs_one_task bj (Plan n cs)"
  by (cases n) (simp_all add: needs_one_task_def single_task_join_def)

lemma boundary_placed:
  assumes "input_stage n = Some st" "0 < stage_task_count st" "stage_task_count st \<le> m"
    "\<forall>c \<in> set cs. \<forall>x \<in> set (counted_nodes (erase c) (stage_task_count st)). placed bj m x"
  shows "\<forall>x \<in> set (counted_nodes (Plan n (map erase cs)) k). placed bj m x"
  using assms boundary_needs [OF assms(1)] by (auto simp: counted_boundary placed_def simp del: counted_nodes.simps)

lemma propagate_boundary_placed:
  assumes "input_stage n = Some st" "0 < stage_task_count st" "stage_task_count st \<le> m"
    "\<forall>c \<in> set cs. \<forall>x \<in> set (counted_nodes (erase c) (stage_task_count st)). placed bj m x"
    "propagate_boundary env n cs tc = Inr q"
  shows "\<forall>x \<in> set (counted_nodes (erase q) k). placed bj m x"
    "is_network_coalesce (fst (node_of q)) \<Longrightarrow> is_network_coalesce n"
proof -
  note same = boundary_placed [OF _ assms(2-4)]
  consider "q = Plan (n, Some tc) cs"
    | sh exprs parts preserve where "n = ShuffleNode sh"
      "q = Plan (RepartitionNode (Hash exprs parts) preserve, Some tc) [Plan (ShuffleNode (to_two_phase_salted sh), Some tc) cs]"
    using assms(5) unfolding propagate_boundary_def
    by (auto simp: Let_def bind_res_eq_Inr split: node.splits shuffle_mode.splits partitioning.splits if_splits)
  then have "(\<forall>x \<in> set (counted_nodes (erase q) k). placed bj m x) \<and>
    (is_network_coalesce (fst (node_of q)) \<longrightarrow> is_network_coalesce n)"
  proof cases
    case 1
    then show ?thesis
      using same [OF assms(1), of k] by (simp del: counted_nodes.simps)
  next
    case (2 sh exprs parts preserve)
    have "input_stage (ShuffleNode (to_two_phase_salted sh)) = Some st"
      using assms(1) 2(1) by (simp add: to_two_phase_salted_def)
    note below = same [OF this, of k]
    show ?thesis
      using below 2(2)
      by (auto simp: counted_inner is_network_boundary_def is_isolator_union_def is_network_coalesce_def
          placed_def [of _ _ "(Plan (RepartitionNode _ _) _, _)"] needs_one_task_def single_task_join_def
          simp del: counted_nodes.simps)
  qed
  then show "\<forall>x \<in> set (counted_nodes (erase q) k). placed bj m x"
    "is_network_coalesce (fst (node_of q)) \<Longrightarrow> is_network_coalesce n"
    by blast+
qed

lemma propagate_leaf_placed:
  assumes "planner_ok env" "\<not> is_network_boundary n" "\<not> single_task_join bj n" "propagate_leaf env n tc = Inr q"
  shows "(\<forall>x \<in> set (counted_nodes (erase q) k). placed bj m x) \<and> \<not> is_network_coalesce (fst (node_of q))"
proof (cases "pl_scale_up env (Plan n []) (as_usize tc)")
  case None
  then have "q = Plan (n, Some tc) []"
    using assms(4) by (simp add: propagate_leaf_def)
  then show ?thesis
    using assms(2,3) by (cases n) (simp_all add: placed_def needs_one_task_def is_network_boundary_def is_network_coalesce_def)
next
  case (Some r)
  then obtain scaled where s: "r = Inr scaled" "q = map_tree (\<lambda>n. (n, Some tc)) scaled"
    using assms(4) by (auto simp: propagate_leaf_def split: sum.splits)
  then have plain: "\<forall>n \<in> nodes_of scaled. plain_node n"
    using Some assms(1) unfolding planner_ok_def by blast
  have "plain_node (fst (node_of q))"
    using plain s(2) by (cases scaled) simp
  then have "\<not> is_network_coalesce (fst (node_of q))"
    by (auto simp: plain_node_def is_network_coalesce_def split: node.splits)
  then show ?thesis
    using placed_plain [OF plain] s(2) by simp
qed

lemma propagate_inner_placed:
  assumes "\<not> is_network_boundary n" "\<not> is_isolator_union n" "single_task_join bj n \<Longrightarrow> k = 1"
    "list_all2 (\<lambda>c c'. (\<forall>x \<in> set (counted_nodes (erase c') k). placed bj m x) \<and>
       (is_network_coalesce (fst (node_of c')) \<longrightarrow> is_network_coalesce (fst (node_of c)))) cs new"
    "\<And>c. c \<in> set cs \<Longrightarrow> is_network_coalesce (fst (node_of c)) \<Longrightarrow> k = 1"
  shows "\<forall>x \<in> set (counted_nodes (erase (Plan (n, Some tc) new)) k). placed bj m x"
proof -
  have new: "\<exists>c \<in> set cs. (\<forall>x \<in> set (counted_nodes (erase c') k). placed bj m x) \<and>
      (is_network_coalesce (fst (node_of c')) \<longrightarrow> is_network_coalesce (fst (node_of c)))" if mem: "c' \<in> set new" for c'
  proof -
    obtain i where i: "i < length new" "c' = new ! i"
      using mem by (auto simp: in_set_conv_nth)
    then have "cs ! i \<in> set cs"
      using list_all2_lengthD [OF assms(4)] by simp
    then show ?thesis
      using list_all2_nthD2 [OF assms(4) i(1)] i(2) by blast
  qed
  have "needs_one_task bj (Plan n (map erase new)) \<Longrightarrow> k = 1"
    using assms(3,5) new by (cases n) (auto simp: needs_one_task_def single_task_join_def list_ex_iff)
  moreover have "input_stage n = None"
    using assms(1) by (simp add: is_network_boundary_def)
  ultimately show ?thesis
    using new assms(1,2) by (auto simp: counted_inner placed_def [of _ _ "(Plan n _, _)"] simp del: counted_nodes.simps)
qed

lemma propagate_union_placed:
  fixes env :: "('x, 'r, 'q, 'o, 'e) planner"
  assumes "propagate_union env (Plan (n, a) cs) (map (propagate env) cs) tc = Inr q"
    and wf: "\<And>c. c \<in> set cs \<Longrightarrow> \<exists>t. snd (node_of c) = Some t \<and> wf_restriction (restriction t)"
    and IH: "\<And>c tc q. c \<in> set cs \<Longrightarrow> admitted c (as_usize tc) \<Longrightarrow> propagate env c tc = Inr q \<Longrightarrow>
      \<forall>x \<in> set (counted_nodes (erase q) (as_usize tc)). placed bj m x"
  shows "(\<forall>x \<in> set (counted_nodes (erase q) k). placed bj m x) \<and> \<not> is_network_coalesce (fst (node_of q))"
proof -
  obtain anns u new u' where anns: "map_res task_count_of cs = (Inr anns :: ('e plan_error, _) res)"
    and u: "from_children_and_annotations (partitions_of env) (pl_union_new env) (map erase cs) anns (as_usize tc) = Inr u"
    and new: "map_res (\<lambda>(g, n). if n = 0 then Inl ZeroChildTasks else g (ann_exact n (soft tc)))
      (zip (map (propagate env) cs) (union_child_task_counts u)) = Inr new"
    and u': "with_new_children (partitions_of env) (pl_union_new env) u (map erase new) = Inr u'"
    and q: "q = Plan (union_node u', Some tc) new"
    using assms(1) unfolding propagate_union_def bind_res_eq_Inr union_res_Inr tree.sel by blast
  let ?ns = "union_child_task_counts u"
  have a: "list_all2 (\<lambda>c b. snd (node_of c) = Some b) cs anns"
    using anns by (auto simp: map_res_Inr_iff task_count_of_def elim!: list.rel_mono_strong split: option.splits)
  then have len: "length anns = length cs"
    by (simp add: list_all2_lengthD)
  have "\<forall>a \<in> set anns. wf_restriction (restriction a)"
    using a wf by (fastforce simp: list_all2_conv_all_nth in_set_conv_nth)
  note adm = union_counts_admitted [OF u this]
  have child: "propagate env (cs ! i) (ann_exact (?ns ! i) (soft tc)) = Inr (new ! i)" "length new = length cs"
    if "i < length cs" for i
    using new that adm(1) len by (auto simp: map_res_Inr_iff list_all2_conv_all_nth split: if_splits)
  note kept = with_new_children_counts [OF u u']
  have counts: "child_tcs k (Plan (union_node u') (map erase new)) = ?ns"
    using kept from_children_Inr(1) [OF u]
    by (simp add: union_node_def union_child_task_counts_def with_children_def)
  have "\<forall>x \<in> set (counted_nodes (erase (new ! i)) (?ns ! i)). placed bj m x" if "i < length cs" for i
  proof -
    have "admitted (cs ! i) (as_usize (ann_exact (?ns ! i) (soft tc)))"
      using adm(2) [of i] a that len by (auto simp: admitted_def list_all2_conv_all_nth)
    then show ?thesis
      using IH [OF nth_mem [OF that] _ child(1) [OF that]] by simp
  qed
  moreover have "length new = length cs" "length ?ns = length cs"
    using new adm(1) len map_res_length [OF new] by simp_all
  moreover have "placed bj m (Plan (union_node u') (map erase new), k)"
    by (simp add: placed_def union_node_def needs_one_task_def single_task_join_def)
  ultimately show ?thesis
    using q counts set_counted_nodes [of k "union_node u'" "map erase new"]
    by (auto simp: union_node_def is_network_coalesce_def simp del: counted_nodes.simps)
qed

lemma reconciled_coalesce:
  "reconciled bj m p \<Longrightarrow> is_network_coalesce (fst (node_of p)) \<Longrightarrow> admitted p k \<Longrightarrow> k = 1"
proof (induction rule: reconciled.induct)
  case (boundary n st t cs)
  then show ?case by (simp add: admitted_def)
next
  case (leaf n t)
  then show ?case by (cases n) (simp_all add: is_network_coalesce_def is_network_boundary_def)
next
  case (union cs t u)
  then show ?case by (simp add: is_network_coalesce_def)
next
  case (inner n cs t)
  then show ?case by (cases n) (simp_all add: is_network_coalesce_def is_network_boundary_def)
qed

lemma reconciled_boundary_placed:
  assumes "reconciled bj m (Plan (n, Some t) cs)" "is_network_boundary n"
  shows "\<forall>x \<in> set (counted_nodes (erase (Plan (n, Some t) cs)) k). placed bj m x"
  using assms(1)
proof cases
  case (boundary st)
  from boundary_placed [OF boundary(1-3,6)] show ?thesis
    by simp
qed (use assms(2) in auto)

lemma propagate_placed:
  assumes ok: "planner_ok env"
  shows "reconciled bj m p \<Longrightarrow> admitted p (as_usize tc) \<Longrightarrow> propagate env p tc = Inr q \<Longrightarrow>
    (\<forall>x \<in> set (counted_nodes (erase q) (as_usize tc)). placed bj m x) \<and>
    (is_network_coalesce (fst (node_of q)) \<longrightarrow> is_network_coalesce (fst (node_of p)))"
proof (induction arbitrary: tc q rule: reconciled.induct)
  case (boundary n st t cs)
  have "propagate_boundary env n cs tc = Inr q"
    using boundary by (simp add: is_network_boundary_def)
  from propagate_boundary_placed [OF boundary(1-3,6) this] show ?case
    by simp
next
  case (leaf n t)
  then show ?case
    using propagate_leaf_placed [OF ok leaf(1,2)] by (auto simp del: counted_nodes.simps)
next
  case (union cs t u)
  have "propagate_union env (Plan (IsolatorUnionNode u, Some t) cs) (map (propagate env) cs) tc = Inr q"
    using union.prems(2) union.hyps(1) by (simp add: is_isolator_union_def)
  then have "(\<forall>x \<in> set (counted_nodes (erase q) (as_usize tc)). placed bj m x) \<and> \<not> is_network_coalesce (fst (node_of q))"
  proof (rule propagate_union_placed)
    fix c tc q
    assume c: "c \<in> set cs"
    then show "\<exists>t. snd (node_of c) = Some t \<and> wf_restriction (restriction t)"
      using union.IH reconciled_wf by blast
    show "admitted c (as_usize tc) \<Longrightarrow> propagate env c tc = Inr q \<Longrightarrow>
        \<forall>x \<in> set (counted_nodes (erase q) (as_usize tc)). placed bj m x"
      using union.IH c by blast
  qed
  then show ?case by simp
next
  case (inner n cs t)
  obtain new n' where new: "map_res (\<lambda>g. g tc) (map (propagate env) cs) = Inr new"
    and n': "replace_children env n (map erase new) = Inr n'" and q: "q = Plan (n', Some tc) new"
    using inner.prems(2) inner.hyps(1-3) by (auto simp: Let_def bind_res_eq_Inr)
  have same: "n' = n"
    using replace_children_same [OF ok inner.hyps(1,2) n'] .
  have adm: "admits (restriction t) (as_usize tc)"
    using inner.prems(1) by (simp add: admitted_def)
  then have below: "\<forall>c \<in> set cs. admitted c (as_usize tc)"
    using inner.hyps(5) by (simp add: list_all_iff)
  have "list_all2 (\<lambda>c c'. propagate env c tc = Inr c') cs new"
    using new by (simp add: map_res_Inr_iff list.rel_map)
  then have "list_all2 (\<lambda>c c'. (\<forall>x \<in> set (counted_nodes (erase c') (as_usize tc)). placed bj m x) \<and>
       (is_network_coalesce (fst (node_of c')) \<longrightarrow> is_network_coalesce (fst (node_of c)))) cs new"
    using inner.IH below by (elim list.rel_mono_strong) blast
  moreover have "as_usize tc = 1" if "c \<in> set cs" "is_network_coalesce (fst (node_of c))" for c
    using inner.IH below reconciled_coalesce that by blast
  ultimately have "\<forall>x \<in> set (counted_nodes (erase (Plan (n, Some tc) new)) (as_usize tc)). placed bj m x"
    using adm inner.hyps(6) by (intro propagate_inner_placed inner.hyps(1,2)) blast+
  then show ?case
    using q same by simp
qed

text \<open>Climbing.\<close>

lemma merge_children_ok:
  assumes "merge_children a cs = (Inr t :: ('e plan_error, _) res)" "wf_restriction (restriction a)"
    "\<forall>c \<in> set cs. \<exists>b. snd (node_of c) = Some b \<and> wf_restriction (restriction b)"
  shows "wf_restriction (restriction t) \<and>
    (\<forall>k. admits (restriction t) k \<longrightarrow> admits (restriction a) k \<and> list_all (\<lambda>c. admitted c k) cs)"
  using assms
proof (induction cs arbitrary: a)
  case (Cons c cs)
  obtain b where b: "snd (node_of c) = Some b" "wf_restriction (restriction b)"
    using Cons.prems(3) by auto
  obtain a' where a': "ann_merge a b = Inr a'" "merge_children a' cs = (Inr t :: ('e plan_error, _) res)"
    using Cons.prems(1) b by (auto simp: task_count_of_def split: sum.splits)
  then have r: "restriction_merge (restriction a) (restriction b) = Inr (restriction a')"
    by (auto simp: ann_merge_def bind_res_eq_Inr)
  have "wf_restriction (restriction a')"
    by (rule restriction_merge_wf [OF r Cons.prems(2) b(2)])
  then show ?case
    using Cons.IH [OF a'(2)] Cons.prems(3) restriction_merge_admits [OF r] b by (auto simp: admitted_def)
qed simp

lemma get_min_pos: "wf_restriction (restriction a) \<Longrightarrow> get_min a = Some n \<Longrightarrow> 0 < n"
  by (auto simp: get_min_def split: task_count_restriction.splits)

lemma union_count_ok:
  assumes "union_count load mn cs = Inr t" "\<forall>n. mn = Some n \<longrightarrow> 0 < n"
    "\<forall>c \<in> set cs. \<exists>b. snd (node_of c) = Some b \<and> wf_restriction (restriction b)"
  shows "wf_restriction (restriction t)"
  using assms
proof (induction cs arbitrary: load mn)
  case Nil
  then show ?case by (auto simp: ann_min_def ann_soft_def split: option.splits)
next
  case (Cons c cs)
  obtain b where b: "snd (node_of c) = Some b" "wf_restriction (restriction b)"
    using Cons.prems(3) by auto
  show ?case
    using Cons.prems b get_min_pos [OF b(2)] Cons.IH
    by (fastforce simp: task_count_of_def split: option.splits)
qed

lemma desired_or_wf:
  "planner_ok env \<Longrightarrow> wf_restriction (restriction a) \<Longrightarrow> desired_or env p a = Inr t \<Longrightarrow> wf_restriction (restriction t)"
  by (auto simp: desired_or_def planner_ok_def split: option.splits)

lemma wf_node_join: "wf_node n 0 \<Longrightarrow> \<not> single_task_join bj n"
  by (cases n) (auto simp: wf_node_def single_task_join_def collects_left_def)

lemma reconcile_reconciled:
  fixes env :: "('x, 'r, 'q, 'o, 'e) planner"
  assumes ok: "planner_ok env" and n: "\<not> is_network_boundary n" "wf_node n (length cs)"
    and processed: "length processed = length cs" "\<forall>c \<in> set processed. reconciled (pl_broadcast_joins env) m c"
    and t: "reconcile env (Plan n cs) processed = Inr t" "restriction t' = restriction t"
    and n': "replace_children env n (map erase processed) = Inr n'"
  shows "reconciled (pl_broadcast_joins env) m (Plan (n', Some t') processed)"
proof -
  note wf = processed(2) [THEN bspec, THEN reconciled_wf]
  show ?thesis
  proof (cases "is_isolator_union n")
    case True
    then obtain u' where u': "n' = IsolatorUnionNode u'"
      using n' by (auto simp: isolator_union_eq replace_children_def bind_res_eq_Inr union_node_def)
    show ?thesis
    proof (cases "processed = []")
      case empty: True
      then have "wf_restriction (restriction t)"
        using t(1) processed(1) desired_or_wf [OF ok, of "ann_exact 1 (Fin 0)"] by (simp add: reconcile_def ann_exact_def)
      then show ?thesis
        using empty t(2) u' by (simp add: reconciled.leaf single_task_join_def)
    next
      case nonempty: False
      then have "union_count (Fin 0) None processed = (Inr t :: ('e plan_error, _) res)"
        using t(1) True processed(1) by (auto simp: reconcile_def split: if_splits)
      then have "wf_restriction (restriction t)"
        by (rule union_count_ok) (use wf in auto)
      then show ?thesis
        using nonempty t(2) u' processed(2) by (simp add: reconciled.union)
    qed
  next
    case False
    have same: "n' = n"
      by (rule replace_children_same [OF ok n(1) False n'])
    show ?thesis
    proof (cases "processed = []")
      case empty: True
      then have "wf_restriction (restriction t)"
        using t(1) processed(1) desired_or_wf [OF ok, of "ann_exact 1 (Fin 0)"] by (simp add: reconcile_def ann_exact_def)
      then show ?thesis
        using empty t(2) same n wf_node_join [of n] processed(1) by (simp add: reconciled.leaf)
    next
      case nonempty: False
      have "wf_restriction (restriction t) \<and> (\<forall>k. admits (restriction t) k \<longrightarrow>
          list_all (\<lambda>c. admitted c k) processed \<and> (single_task_join (pl_broadcast_joins env) n \<longrightarrow> k = 1))"
      proof (cases "single_task_join (pl_broadcast_joins env) n")
        case True
        then have "merge_children (ann_exact 1 (Fin 0)) processed = (Inr t :: ('e plan_error, _) res)"
          using t(1) nonempty False processed(1) by (auto simp: reconcile_def split: if_splits)
        from merge_children_ok [OF this] show ?thesis
          using wf by (simp add: ann_exact_def)
      next
        case no_join: False
        then obtain a where a: "desired_or env (Plan n cs) (ann_soft (Fin 0)) = Inr a"
          "merge_children a processed = (Inr t :: ('e plan_error, _) res)"
          using t(1) nonempty False processed(1) by (auto simp: reconcile_def bind_res_eq_Inr split: if_splits)
        have "wf_restriction (restriction a)"
          by (rule desired_or_wf [OF ok _ a(1)]) (simp add: ann_soft_def)
        then show ?thesis
          using merge_children_ok [OF a(2)] wf no_join by blast
      qed
      then show ?thesis
        using nonempty t(2) same n(1) False processed(2) by (auto intro!: reconciled.inner)
    qed
  qed
qed

lemma cap_Inr:
  assumes "cap env t = Inr t'" "max_tasks env = Inr m" "m < 2 ^ 53"
  shows "restriction t' = restriction t" "as_usize t' \<le> m"
proof -
  have "0 < m"
    using assms(2) by (auto simp: max_tasks_def split: if_splits sum.splits)
  then have "as_usize (t\<lparr>soft := f64_min (soft t) (f64_of_usize m)\<rparr>) \<le> m" if "\<And>mn. get_min t = Some mn \<Longrightarrow> mn \<le> m"
    using that assms(3) by (intro as_usize_capped)
  then show "restriction t' = restriction t" "as_usize t' \<le> m"
    using assms(1,2) by (auto simp: cap_def split: option.splits if_splits)
qed

lemma seq_res_Inr:
  "seq_res gs s = Inr (rs, s') \<Longrightarrow> list_all2 (\<lambda>g r. \<exists>s s'. g s = Inr (r, s')) gs rs"
  by (induction gs arbitrary: s rs) (auto simp: bind_res_eq_Inr)

lemma propagate_annotation: "propagate env (Plan (n, a) cs) tc = propagate env (Plan (n, b) cs) tc"
  by (simp add: propagate_union_def)

lemma propagate_root: "propagate env p tc = Inr q \<Longrightarrow> snd (node_of q) = Some tc"
proof (cases p)
  case (Plan na cs)
  assume q: "propagate env p tc = Inr q"
  have leaf: "propagate_leaf env n tc = Inr q \<Longrightarrow> snd (node_of q) = Some tc" for n
    by (auto simp: propagate_leaf_def tree.map_sel split: option.splits sum.splits)
  have boundary: "propagate_boundary env n cs tc = Inr q \<Longrightarrow> snd (node_of q) = Some tc" for n
    by (auto simp: propagate_boundary_def Let_def bind_res_eq_Inr
        split: node.splits shuffle_mode.splits partitioning.splits if_splits)
  show ?thesis
    using q Plan leaf boundary
    by (auto simp: Let_def bind_res_eq_Inr propagate_union_def split: if_splits)
qed

lemma close_stage:
  assumes ok: "planner_ok env" and p: "reconciled bj m (ls_plan st)"
    and tc: "snd (node_of (ls_plan st)) = Some tc" "ls_tasks st = as_usize tc" "as_usize tc \<le> m"
    and b: "cardinality_build env st kind = Inr b" "boundary_node env kind n b = Inr nb"
  shows "reconciled bj m (Plan (nb, Some (consumer_task_count b)) (stage_kids (built_stage b)))"
proof -
  have wf: "wf_restriction (restriction tc)"
    using reconciled_wf [OF p] tc(1) by auto
  note count = as_usize_admits [OF wf]
  obtain q where q: "propagate env (ls_plan st) tc = Inr q" "built_stage b = Local (st\<lparr>ls_plan := q\<rparr>)"
    "restriction (consumer_task_count b) = (if kind = CoalesceKind then Exact 1 else RNone)"
    using b(1) tc(1)
    by (auto simp: cardinality_build_def task_count_of_def bind_res_eq_Inr Let_def ann_exact_def ann_soft_def split: if_splits)
  have "admitted (ls_plan st) (as_usize tc)"
    using count tc(1) by (simp add: admitted_def)
  from propagate_placed [OF ok p this q(1)]
  have placed: "\<forall>x \<in> set (counted_nodes (erase q) (as_usize tc)). placed bj m x"
    by blast
  have nb: "input_stage nb = Some (stage_ref_of (built_stage b))" "is_network_coalesce nb \<Longrightarrow> kind = CoalesceKind"
    using b(2) by (auto simp: boundary_node_def Let_def is_network_coalesce_def shuffle_from_stage_def
        broadcast_from_stage_def coalesce_try_from_stage_def split: boundary_kind.splits if_splits)
  have stage: "stage_task_count (stage_ref_of (built_stage b)) = as_usize tc" "stage_kids (built_stage b) = [q]"
    using q(2) tc(2) by simp_all
  show ?thesis
    using nb q(3) stage count tc(3) placed by (intro reconciled.boundary [OF nb(1)]) auto
qed

lemma inject_stepE:
  assumes "inject_step env build (Plan n cs) parent processed sid = Inr (q, sid')"
  obtains t n' tc where "reconcile env (Plan n cs) processed = Inr t"
    "replace_children env n (map erase processed) = Inr n'" "cap env t = Inr tc"
    "(case boundary_above n' parent of
             Some kind \<Rightarrow>
               bind_res (build \<lparr>ls_query_id = pl_query_id env, ls_num = sid,
                                ls_plan = Plan (n', Some tc) processed, ls_tasks = as_usize tc,
                                ls_metrics_set = ()\<rparr> kind) (\<lambda>b.
               bind_res (boundary_node env kind n' b) (\<lambda>nb.
                 Inr (Plan (nb, Some (consumer_task_count b)) (stage_kids (built_stage b)), sid + 1)))
           | None \<Rightarrow>
               if parent = None then bind_res (propagate env (Plan (n', None) processed) tc) (\<lambda>q. Inr (q, sid))
               else Inr (Plan (n', Some tc) processed, sid)) = Inr (q, sid')"
  using assms unfolding inject_step_def Let_def bind_res_eq_Inr plan_with_task_count_def tree.sel fst_conv by blast

lemma inject_step_ok:
  assumes ok: "planner_ok env" "max_tasks env = Inr m" "m < 2 ^ 53"
    and n: "\<not> is_network_boundary n" "wf_node n (length cs)"
    and processed: "length processed = length cs" "\<forall>c \<in> set processed. reconciled (pl_broadcast_joins env) m c"
    and q: "inject_step env (cardinality_build env) (Plan n cs) parent processed sid = Inr (q, sid')"
  shows "(parent \<noteq> None \<longrightarrow> reconciled (pl_broadcast_joins env) m q) \<and>
    (parent = None \<longrightarrow> (\<exists>a. snd (node_of q) = Some a \<and>
       (\<forall>x \<in> set (counted_nodes (erase q) (as_usize a)). placed (pl_broadcast_joins env) m x)))"
proof -
  let ?bj = "pl_broadcast_joins env"
  from q show ?thesis
  proof (cases rule: inject_stepE)
  case (1 t n' tc)
  note t = 1(1) and n' = 1(2) and tc = 1(3) and rest = 1(4)
  note cap = cap_Inr [OF tc ok(2,3)]
  have rec: "reconciled ?bj m (Plan (n', Some tc) processed)"
    by (rule reconcile_reconciled [OF ok(1) n processed t cap(1) n'])
  show ?thesis
  proof (cases "boundary_above n' parent")
    case (Some kind)
    then obtain b nb where b: "cardinality_build env \<lparr>ls_query_id = pl_query_id env, ls_num = sid,
        ls_plan = Plan (n', Some tc) processed, ls_tasks = as_usize tc, ls_metrics_set = ()\<rparr> kind = Inr b"
      "boundary_node env kind n' b = Inr nb"
      and q': "q = Plan (nb, Some (consumer_task_count b)) (stage_kids (built_stage b))"
      using rest by (auto simp: bind_res_eq_Inr)
    have r: "reconciled ?bj m q"
      unfolding q' by (rule close_stage [OF ok(1) _ _ _ cap(2) b]) (simp_all add: rec)
    have "is_network_boundary nb"
      using b(2) by (auto simp: boundary_node_def Let_def is_network_boundary_def split: boundary_kind.splits if_splits)
    then show ?thesis
      using r q' reconciled_boundary_placed [of ?bj m nb] by (simp del: counted_nodes.simps)
  next
    case None
    show ?thesis
    proof (cases "parent = None")
      case True
      then have pushed: "propagate env (Plan (n', Some tc) processed) tc = Inr q"
        using None rest propagate_annotation [of env n' None processed tc "Some tc"] by (auto simp: bind_res_eq_Inr)
      have "admitted (Plan (n', Some tc) processed) (as_usize tc)"
        using reconciled_wf [OF rec] as_usize_admits [of tc] by (simp add: admitted_def)
      from propagate_placed [OF ok(1) rec this pushed] show ?thesis
        using propagate_root [OF pushed] True by blast
    next
      case False
      then show ?thesis
        using None rest rec by auto
    qed
  qed
  qed
qed

lemma inject_ok:
  assumes ok: "planner_ok env" "max_tasks env = Inr m" "m < 2 ^ 53"
  shows "wf_plan p \<Longrightarrow> \<forall>n \<in> nodes_of p. \<not> is_network_boundary n \<Longrightarrow>
    inject env (cardinality_build env) p parent sid = Inr (q, sid') \<Longrightarrow>
    (parent \<noteq> None \<longrightarrow> reconciled (pl_broadcast_joins env) m q) \<and>
    (parent = None \<longrightarrow> (\<exists>a. snd (node_of q) = Some a \<and>
       (\<forall>x \<in> set (counted_nodes (erase q) (as_usize a)). placed (pl_broadcast_joins env) m x)))"
proof (induction p arbitrary: parent sid q sid')
  case (Plan n cs)
  obtain processed sid1 where
    seq: "seq_res (map (\<lambda>g. g (Some n)) (map (inject env (cardinality_build env)) cs)) sid = Inr (processed, sid1)"
    and step: "inject_step env (cardinality_build env) (Plan n cs) parent processed sid1 = Inr (q, sid')"
    using Plan.prems(3) by (auto simp: bind_res_eq_Inr)
  have runs: "list_all2 (\<lambda>c r. \<exists>s s'. inject env (cardinality_build env) c (Some n) s = Inr (r, s')) cs processed"
    using seq_res_Inr [OF seq] by (simp add: list.rel_map)
  have "\<forall>c \<in> set processed. reconciled (pl_broadcast_joins env) m c"
    using runs Plan.IH Plan.prems(1,2) by (fastforce simp: list_all2_conv_all_nth in_set_conv_nth list_all_iff)
  then show ?case
    using list_all2_lengthD [OF runs] Plan.prems(1,2) by (intro inject_step_ok [OF ok _ _ _ _ step]) auto
qed

text \<open>Errors that would be a defect of the planner.\<close>

definition internal_error :: "'e plan_error \<Rightarrow> bool" where
  "internal_error e = (case e of MissingTaskCount \<Rightarrow> True | NotExactlyOne \<Rightarrow> True | ZeroChildTasks \<Rightarrow> True | _ \<Rightarrow> False)"

lemma internal_error_simps [simp]:
  "\<not> internal_error (EngineError e)" "\<not> internal_error (UnionFailed u)" "\<not> internal_error (BoundaryFailed b)"
  "\<not> internal_error (MergeError t)" "\<not> internal_error (RequiredAboveMax a c)" "\<not> internal_error (WrongChildCount k)"
  by (simp_all add: internal_error_def)

lemma engine_Inl: "engine r = Inl e \<Longrightarrow> \<not> internal_error e"
  by (auto simp: engine_def split: sum.splits)

lemma union_res_Inl: "union_res r = Inl e \<Longrightarrow> \<not> internal_error e"
  by (auto simp: union_res_def split: sum.splits)

lemma boundary_res_Inl: "boundary_res r = Inl e \<Longrightarrow> \<not> internal_error e"
  by (auto simp: boundary_res_def split: sum.splits)

lemmas Inl_external = engine_Inl union_res_Inl boundary_res_Inl

lemma replace_children_Inl: "replace_children env n cs = Inl e \<Longrightarrow> \<not> internal_error e"
  by (cases n) (auto simp: replace_children_def bind_res_eq_Inl dest!: Inl_external split: if_splits)

lemma task_count_of_Inl: "snd (node_of c) = Some t \<Longrightarrow> task_count_of c = Inr t"
  by (simp add: task_count_of_def)

lemma map_res_task_count:
  assumes "\<forall>c \<in> set cs. \<exists>t. snd (node_of c) = Some t \<and> wf_restriction (restriction t)"
  shows "\<exists>anns. map_res task_count_of cs = Inr anns \<and> (\<forall>a \<in> set anns. wf_restriction (restriction a))"
  using assms by (induction cs) (auto simp: task_count_of_def)

lemma propagate_union_Inl:
  fixes env :: "('x, 'r, 'q, 'o, 'e) planner"
  assumes "propagate_union env (Plan na cs) (map (propagate env) cs) tc = Inl e"
    and wf: "\<forall>c \<in> set cs. \<exists>t. snd (node_of c) = Some t \<and> wf_restriction (restriction t)"
    and IH: "\<And>c tc e. c \<in> set cs \<Longrightarrow> propagate env c tc = Inl e \<Longrightarrow> \<not> internal_error e"
  shows "\<not> internal_error e"
proof -
  obtain anns where anns: "map_res task_count_of cs = (Inr anns :: ('e plan_error, _) res)"
    "\<forall>a \<in> set anns. wf_restriction (restriction a)"
    using map_res_task_count [OF wf] by blast
  show ?thesis
  proof (cases "from_children_and_annotations (partitions_of env) (pl_union_new env) (map erase cs) anns (as_usize tc)")
    case (Inl u)
    then show ?thesis
      using assms(1) anns(1) by (auto simp: propagate_union_def union_res_def)
  next
    case (Inr u)
    have pos: "\<forall>n \<in> set (union_child_task_counts u). 0 < n"
      using union_counts_pos [OF Inr anns(2)] by simp
    let ?run = "\<lambda>(g, n). if n = 0 then Inl ZeroChildTasks else g (ann_exact n (soft tc))"
    have children: "\<not> internal_error e"
      if failed: "map_res ?run (zip (map (propagate env) cs) (union_child_task_counts u)) = Inl e" for e
    proof -
      obtain g n where x: "(g, n) \<in> set (zip (map (propagate env) cs) (union_child_task_counts u))" "?run (g, n) = Inl e"
        using map_res_Inl [OF failed] by auto
      then have "0 < n" "g \<in> set (map (propagate env) cs)"
        using pos set_zip_leftD [OF x(1)] set_zip_rightD [OF x(1)] by blast+
      then show ?thesis
        using x(2) IH by auto
    qed
    have "bind_res (map_res ?run (zip (map (propagate env) cs) (union_child_task_counts u))) (\<lambda>new_children.
        bind_res (union_res (with_new_children (partitions_of env) (pl_union_new env) u (map erase new_children)))
          (\<lambda>u. Inr (Plan (union_node u, Some tc) new_children))) = Inl e"
      using assms(1) anns(1) Inr by (simp add: propagate_union_def union_res_def)
    then show ?thesis
      unfolding bind_res_eq_Inl using children union_res_Inl by blast
  qed
qed

lemma propagate_Inl:
  "reconciled bj m p \<Longrightarrow> propagate env p tc = Inl e \<Longrightarrow> \<not> internal_error e"
proof (induction arbitrary: tc e rule: reconciled.induct)
  case (boundary n st t cs)
  then have "propagate_boundary env n cs tc = Inl e"
    by (simp add: is_network_boundary_def)
  then show ?case
    by (auto simp: propagate_boundary_def Let_def bind_res_eq_Inl dest!: Inl_external
        split: node.splits shuffle_mode.splits partitioning.splits if_splits)
next
  case (leaf n t)
  then show ?case
    by (auto simp: propagate_leaf_def split: option.splits sum.splits)
next
  case (union cs t u)
  have "propagate_union env (Plan (IsolatorUnionNode u, Some t) cs) (map (propagate env) cs) tc = Inl e"
    using union.prems union.hyps(1) by (simp add: is_isolator_union_def)
  then show ?case
    by (rule propagate_union_Inl) (use union.IH reconciled_wf in blast)+
next
  case (inner n cs t)
  have "bind_res (map_res (\<lambda>g. g tc) (map (propagate env) cs)) (\<lambda>new_children.
      bind_res (replace_children env n (map erase new_children)) (\<lambda>n. Inr (Plan (n, Some tc) new_children))) = Inl e"
    using inner.prems inner.hyps(1-3) by (simp add: Let_def)
  then consider "map_res (\<lambda>g. g tc) (map (propagate env) cs) = Inl e"
    | new where "replace_children env n (map erase new) = Inl e"
    unfolding bind_res_eq_Inl by blast
  then show ?case
  proof cases
    case 1
    then show ?thesis
      using map_res_Inl inner.IH by fastforce
  qed (rule replace_children_Inl)
qed

lemma merge_children_Inl:
  "merge_children a cs = Inl e \<Longrightarrow> \<forall>c \<in> set cs. \<exists>b. snd (node_of c) = Some b \<Longrightarrow> \<not> internal_error e"
  by (induction cs arbitrary: a) (auto simp: task_count_of_def split: sum.splits)

lemma union_count_Inl:
  "union_count load mn cs = Inl e \<Longrightarrow> \<forall>c \<in> set cs. \<exists>b. snd (node_of c) = Some b \<Longrightarrow> \<not> internal_error e"
  by (induction cs arbitrary: load mn) (auto simp: task_count_of_def)

lemma desired_or_Inl: "desired_or env p a = Inl e \<Longrightarrow> \<not> internal_error e"
  by (auto simp: desired_or_def dest: engine_Inl split: option.splits)

lemma reconcile_Inl:
  assumes "reconcile env p processed = Inl e" "\<forall>c \<in> set processed. \<exists>b. snd (node_of c) = Some b"
  shows "\<not> internal_error e"
  using assms(1) unfolding reconcile_def
  by (auto simp: bind_res_eq_Inl split: if_splits
      dest: merge_children_Inl [OF _ assms(2)] union_count_Inl [OF _ assms(2)] desired_or_Inl)

lemma cap_Inl: "cap env t = Inl e \<Longrightarrow> \<not> internal_error e"
  by (auto simp: cap_def bind_res_eq_Inl max_tasks_def split: if_splits sum.splits option.splits)

lemma cardinality_build_Inl:
  assumes "cardinality_build env st kind = Inl e" "reconciled bj m (ls_plan st)"
  shows "\<not> internal_error e"
  using assms reconciled_wf [OF assms(2)] propagate_Inl [OF assms(2)]
  by (auto simp: cardinality_build_def task_count_of_def bind_res_eq_Inl Let_def split: if_splits)

lemma boundary_node_Inl:
  assumes "cardinality_build env st kind = Inr b" "boundary_node env kind n b = Inl e"
  shows "\<not> internal_error e"
  using assms
  by (auto simp: cardinality_build_def boundary_node_def bind_res_eq_Inr Let_def ann_exact_def
      split: boundary_kind.splits if_splits)

lemma inject_step_Inl:
  assumes ok: "planner_ok env" "max_tasks env = Inr m" "m < 2 ^ 53"
    and n: "\<not> is_network_boundary n" "wf_node n (length cs)"
    and processed: "length processed = length cs" "\<forall>c \<in> set processed. reconciled (pl_broadcast_joins env) m c"
    and e: "inject_step env (cardinality_build env) (Plan n cs) parent processed sid = Inl e"
  shows "\<not> internal_error e"
proof -
  have ann: "\<forall>c \<in> set processed. \<exists>b. snd (node_of c) = Some b"
    using processed(2) reconciled_wf by blast
  consider "reconcile env (Plan n cs) processed = Inl e"
    | "replace_children env n (map erase processed) = Inl e" | t where "cap env t = Inl e"
    | t n' tc where "reconcile env (Plan n cs) processed = Inr t" "replace_children env n (map erase processed) = Inr n'"
      "cap env t = Inr tc"
    using e unfolding inject_step_def bind_res_eq_Inl tree.sel by blast
  then show ?thesis
  proof cases
    case (4 t n' tc)
    have rec: "reconciled (pl_broadcast_joins env) m (Plan (n', Some tc) processed)"
      by (rule reconcile_reconciled [OF ok(1) n processed 4(1) _ 4(2)]) (rule cap_Inr(1) [OF 4(3) ok(2,3)])
    show ?thesis
    proof (cases "boundary_above n' parent")
      case None
      then have "propagate env (Plan (n', None) processed) tc = Inl e"
        using e 4 by (simp add: inject_step_def Let_def bind_res_eq_Inl split: if_splits del: propagate.simps)
      then have "propagate env (Plan (n', Some tc) processed) tc = Inl e"
        by (simp only: propagate_annotation [of env n' None processed tc "Some tc"])
      then show ?thesis
        by (rule propagate_Inl [OF rec])
    next
      case (Some kind)
      let ?st = "\<lparr>ls_query_id = pl_query_id env, ls_num = sid, ls_plan = Plan (n', Some tc) processed,
          ls_tasks = as_usize tc, ls_metrics_set = ()\<rparr>"
      have "cardinality_build env ?st kind = Inl e \<or>
          (\<exists>b. cardinality_build env ?st kind = Inr b \<and> boundary_node env kind n' b = Inl e)"
        using e 4 Some by (auto simp: inject_step_def Let_def bind_res_eq_Inl plan_with_task_count_def)
      then show ?thesis
        using cardinality_build_Inl [of env ?st] boundary_node_Inl rec by fastforce
    qed
  qed (auto dest: reconcile_Inl [OF _ ann] replace_children_Inl cap_Inl)
qed

lemma seq_res_Inl: "seq_res gs s = Inl e \<Longrightarrow> \<exists>g \<in> set gs. \<exists>s. g s = Inl e"
  by (induction gs arbitrary: s) (auto simp: bind_res_eq_Inl)

lemma inject_Inl:
  assumes ok: "planner_ok env" "max_tasks env = Inr m" "m < 2 ^ 53"
  shows "wf_plan p \<Longrightarrow> \<forall>n \<in> nodes_of p. \<not> is_network_boundary n \<Longrightarrow>
    inject env (cardinality_build env) p parent sid = Inl e \<Longrightarrow> \<not> internal_error e"
proof (induction p arbitrary: parent sid e)
  case (Plan n cs)
  let ?runs = "seq_res (map (\<lambda>g. g (Some n)) (map (inject env (cardinality_build env)) cs)) sid"
  show ?case
  proof (cases ?runs)
    case (Inl e')
    then obtain c s where "c \<in> set cs" "inject env (cardinality_build env) c (Some n) s = Inl e"
      using seq_res_Inl [OF Inl] Plan.prems(3) by auto
    then show ?thesis
      using Plan.IH Plan.prems(1,2) by (fastforce simp: list_all_iff)
  next
    case (Inr r)
    obtain processed sid1 where r: "r = (processed, sid1)"
      by (cases r)
    have step: "inject_step env (cardinality_build env) (Plan n cs) parent processed sid1 = Inl e"
      using Plan.prems(3) Inr r by simp
    have runs: "list_all2 (\<lambda>c r. \<exists>s s'. inject env (cardinality_build env) c (Some n) s = Inr (r, s')) cs processed"
      using seq_res_Inr Inr r by (fastforce simp: list.rel_map)
    have "\<forall>c \<in> set processed. reconciled (pl_broadcast_joins env) m c"
      using runs inject_ok [OF ok] Plan.prems(1,2)
      by (fastforce simp: list_all2_conv_all_nth in_set_conv_nth list_all_iff)
    then show ?thesis
      using list_all2_lengthD [OF runs] Plan.prems(1,2) by (intro inject_step_Inl [OF ok _ _ _ _ step]) auto
  qed
qed

text \<open>Injection only adds to a plan.\<close>

lemma is_two_phase_boundary: "is_two_phase n \<Longrightarrow> is_network_boundary n"
  by (cases n) (simp_all add: is_two_phase_def is_network_boundary_def)

lemma above_two_phase_cong:
  assumes "map is_two_phase ns = map is_two_phase ns'"
  shows "above_two_phase n ns = above_two_phase n ns'"
proof -
  have "list_all is_two_phase ns = list_all (\<lambda>b. b) (map is_two_phase ns)"
    "list_all is_two_phase ns' = list_all (\<lambda>b. b) (map is_two_phase ns')"
    by (simp_all add: list.pred_map comp_def)
  then have "list_all is_two_phase ns = list_all is_two_phase ns'"
    by (simp only: assms)
  then show ?thesis
    using map_eq_imp_length_eq [OF assms] by (simp only: above_two_phase_def)
qed

lemma propagate_leaf_two_phase:
  assumes "planner_ok env" "\<not> is_network_boundary n" "propagate_leaf env n tc = Inr q"
  shows "\<not> is_two_phase (fst (node_of q))"
proof (cases "pl_scale_up env (Plan n []) (as_usize tc)")
  case None
  then show ?thesis
    using assms(2,3) by (auto simp: propagate_leaf_def dest: is_two_phase_boundary)
next
  case (Some r)
  then obtain scaled where s: "r = Inr scaled" "q = map_tree (\<lambda>n. (n, Some tc)) scaled"
    using assms(3) by (auto simp: propagate_leaf_def split: sum.splits)
  then have "plain_node (node_of scaled)"
    using Some assms(1) unfolding planner_ok_def by (cases scaled) fastforce
  then show ?thesis
    using s(2) by (cases scaled) (auto simp: plain_node_def is_two_phase_def split: node.splits)
qed

lemma propagate_boundary_strip:
  assumes "is_network_boundary n" "propagate_boundary env n cs tc = Inr q"
  shows "strip (erase q) = strip (erase (Plan (n, a) cs))" "is_two_phase (fst (node_of q)) = is_two_phase n"
proof -
  consider "q = Plan (n, Some tc) cs"
    | sh exprs parts preserve where "n = ShuffleNode sh" "sh_mode sh = Direct"
      "q = Plan (RepartitionNode (Hash exprs parts) preserve, Some tc) [Plan (ShuffleNode (to_two_phase_salted sh), Some tc) cs]"
    using assms(2) unfolding propagate_boundary_def
    by (auto simp: Let_def bind_res_eq_Inr split: node.splits shuffle_mode.splits partitioning.splits if_splits)
  then have "strip (erase q) = strip (erase (Plan (n, a) cs)) \<and> is_two_phase (fst (node_of q)) = is_two_phase n"
    using assms(1)
    by cases (auto simp: above_two_phase_def is_two_phase_def is_network_boundary_def to_two_phase_salted_def)
  then show "strip (erase q) = strip (erase (Plan (n, a) cs))" "is_two_phase (fst (node_of q)) = is_two_phase n"
    by blast+
qed

lemma propagate_union_children:
  assumes "propagate_union env (Plan na cs) recurse tc = Inr q"
  shows "\<exists>new u us. map_res (\<lambda>(g, n). if n = 0 then Inl ZeroChildTasks else g (ann_exact n (soft tc))) (zip recurse us) = Inr new \<and>
    length us = length cs \<and> q = Plan (union_node u, Some tc) new"
proof -
  obtain anns u new u' where
    u: "from_children_and_annotations (partitions_of env) (pl_union_new env) (map erase cs) anns (as_usize tc) = Inr u"
    and new: "map_res (\<lambda>(g, n). if n = 0 then Inl ZeroChildTasks else g (ann_exact n (soft tc)))
      (zip recurse (union_child_task_counts u)) = Inr new" and q: "q = Plan (union_node u', Some tc) new"
    using assms unfolding propagate_union_def bind_res_eq_Inr union_res_Inr tree.sel by blast
  have "length (union_child_task_counts u) = length cs"
    using from_children_Inr(1) [OF u] by simp
  then show ?thesis
    using new q by blast
qed

lemma propagate_strip:
  assumes ok: "planner_ok env" and scale: "\<forall>p k q. pl_scale_up env p k = Some (Inr q) \<longrightarrow> strip q = strip p"
  shows "propagate env p tc = Inr q \<Longrightarrow>
    strip (erase q) = strip (erase p) \<and> is_two_phase (fst (node_of q)) = is_two_phase (fst (node_of p))"
proof (induction p arbitrary: tc q)
  case (Plan na cs)
  obtain n a where na: "na = (n, a)"
    by (cases na)
  have children: "map (\<lambda>c. strip (erase c)) new = map (\<lambda>c. strip (erase c)) cs"
      "map (\<lambda>c. is_two_phase (fst (node_of c))) new = map (\<lambda>c. is_two_phase (fst (node_of c))) cs"
    if "list_all2 (\<lambda>c c'. \<exists>tc. propagate env c tc = Inr c') cs new" for new
  proof -
    have "list_all2 (\<lambda>c c'. strip (erase c') = strip (erase c) \<and>
        is_two_phase (fst (node_of c')) = is_two_phase (fst (node_of c))) cs new"
      using that Plan.IH by (elim list.rel_mono_strong) blast
    then show "map (\<lambda>c. strip (erase c)) new = map (\<lambda>c. strip (erase c)) cs"
      "map (\<lambda>c. is_two_phase (fst (node_of c))) new = map (\<lambda>c. is_two_phase (fst (node_of c))) cs"
      by (induction rule: list_all2_induct) simp_all
  qed
  consider "is_network_boundary n" | "\<not> is_network_boundary n" "cs = []"
    | "\<not> is_network_boundary n" "cs \<noteq> []" "is_isolator_union n"
    | "\<not> is_network_boundary n" "cs \<noteq> []" "\<not> is_isolator_union n"
    by blast
  then show ?case
  proof cases
    case 1
    then have "propagate_boundary env n cs tc = Inr q"
      using Plan.prems na by simp
    from propagate_boundary_strip [OF 1 this] show ?thesis
      using na by simp
  next
    case 2
    then have leaf: "propagate_leaf env n tc = Inr q"
      using Plan.prems na by simp
    have "is_two_phase (fst (node_of q)) = is_two_phase n"
      using propagate_leaf_two_phase [OF ok 2(1) leaf] 2(1) by (auto dest: is_two_phase_boundary)
    moreover have "strip (erase q) = strip (Plan n [])"
      using leaf scale by (auto simp: propagate_leaf_def split: option.splits sum.splits)
    ultimately show ?thesis
      using na 2 by simp
  next
    case 3
    then have "propagate_union env (Plan na cs) (map (propagate env) cs) tc = Inr q"
      using Plan.prems na by simp
    from propagate_union_children [OF this] obtain new u us where new: "map_res (\<lambda>(g, n). if n = 0 then Inl ZeroChildTasks else g (ann_exact n (soft tc)))
      (zip (map (propagate env) cs) us) = Inr new" "length us = length cs" and q: "q = Plan (union_node u, Some tc) new"
      by blast
    then have "list_all2 (\<lambda>c c'. \<exists>tc. propagate env c tc = Inr c') cs new"
      by (auto simp: map_res_Inr_iff list_all2_conv_all_nth split: if_splits)
    from children(1) [OF this] show ?thesis
      using 3 q na by (auto simp: union_node_def isolator_union_eq above_two_phase_def bare_node_def
          is_isolator_union_def is_two_phase_def comp_def)
  next
    case 4
    obtain new n' where new: "map_res (\<lambda>g. g tc) (map (propagate env) cs) = Inr new"
      and n': "replace_children env n (map erase new) = Inr n'" and q: "q = Plan (n', Some tc) new"
      using Plan.prems na 4 by (auto simp: Let_def bind_res_eq_Inr)
    have "n' = n"
      by (rule replace_children_same [OF ok 4(1,3) n'])
    moreover have "list_all2 (\<lambda>c c'. \<exists>tc. propagate env c tc = Inr c') cs new"
      using new by (auto simp: map_res_Inr_iff list.rel_map elim!: list.rel_mono_strong)
    note ch = children [OF this]
    moreover have "above_two_phase n (map (node_of \<circ> erase) new) = above_two_phase n (map (node_of \<circ> erase) cs)"
      by (rule above_two_phase_cong) (use ch(2) in \<open>simp add: comp_def\<close>)
    ultimately show ?thesis
      using q na by (simp add: comp_def)
  qed
qed

lemma replace_children_bare:
  assumes "planner_ok env" "\<not> is_network_boundary n" "replace_children env n cs = Inr n'"
  shows "bare_node n' = bare_node n" "\<not> is_network_boundary n'" "is_two_phase n' = is_two_phase n"
    "above_two_phase n' ns = above_two_phase n ns"
proof -
  have "is_isolator_union n \<Longrightarrow> is_isolator_union n'"
    using assms(3) by (auto simp: replace_children_def isolator_union_eq bind_res_eq_Inr union_node_def)
  then have "n' = n \<or> is_isolator_union n \<and> is_isolator_union n'"
    using replace_children_same [OF assms(1,2) _ assms(3)] by blast
  then show "bare_node n' = bare_node n" "\<not> is_network_boundary n'" "is_two_phase n' = is_two_phase n"
    "above_two_phase n' ns = above_two_phase n ns"
    using assms(2) by (auto simp: bare_node_def isolator_union_eq is_two_phase_def above_two_phase_def)
qed

lemma not_above_two_phase: "list_all (\<lambda>m. \<not> is_two_phase m) ns \<Longrightarrow> \<not> above_two_phase n ns"
  by (cases n; cases ns) (auto simp: above_two_phase_def)

lemma cardinality_build_plan:
  assumes "cardinality_build env st kind = Inr b" "snd (node_of (ls_plan st)) = Some tc"
  shows "\<exists>p. propagate env (ls_plan st) tc = Inr p \<and> stage_kids (built_stage b) = [p]"
  using assms by (auto simp: cardinality_build_def task_count_of_def bind_res_eq_Inr Let_def split: if_splits)

lemma inject_step_strip:
  assumes ok: "planner_ok env" and scale: "\<forall>p k q. pl_scale_up env p k = Some (Inr q) \<longrightarrow> strip q = strip p"
    and n: "\<not> is_network_boundary n"
    and processed: "map (\<lambda>c. strip (erase c)) processed = map strip cs"
      "list_all (\<lambda>c. \<not> is_two_phase (fst (node_of c))) processed"
    and q: "inject_step env (cardinality_build env) (Plan n cs) parent processed sid = Inr (q, sid')"
  shows "strip (erase q) = Plan (bare_node n) (map strip cs) \<and> (parent \<noteq> None \<longrightarrow> \<not> is_two_phase (fst (node_of q)))"
proof -
  from q show ?thesis
  proof (cases rule: inject_stepE)
  case (1 t n' tc)
  note t = 1(1) and n' = 1(2) and tc = 1(3) and rest = 1(4)
  note same = replace_children_bare [OF ok n n']
  have "\<not> above_two_phase n' (map (\<lambda>c. fst (node_of c)) processed)"
    using processed(2) by (intro not_above_two_phase) (simp add: list.pred_map comp_def)
  then have plan: "strip (erase (Plan (n', a) processed)) = Plan (bare_node n) (map strip cs)" for a
    using same(1,2) processed(1) by (simp add: comp_def)
  have two: "\<not> is_two_phase n'"
    using same(3) n by (auto dest: is_two_phase_boundary)
  show ?thesis
  proof (cases "boundary_above n' parent")
    case None
    then show ?thesis
      using rest plan two propagate_strip [OF ok scale, of "Plan (n', None) processed" tc q]
      by (auto simp: bind_res_eq_Inr simp del: strip.simps erase_Plan propagate.simps split: if_splits)
  next
    case (Some kind)
    then obtain b nb where b: "cardinality_build env \<lparr>ls_query_id = pl_query_id env, ls_num = sid,
        ls_plan = Plan (n', Some tc) processed, ls_tasks = as_usize tc, ls_metrics_set = ()\<rparr> kind = Inr b"
      "boundary_node env kind n' b = Inr nb"
      and q': "q = Plan (nb, Some (consumer_task_count b)) (stage_kids (built_stage b))"
      using rest by (auto simp: bind_res_eq_Inr)
    obtain p where p: "propagate env (Plan (n', Some tc) processed) tc = Inr p" "stage_kids (built_stage b) = [p]"
      using cardinality_build_plan [OF b(1)] by auto
    have "is_network_boundary nb" "\<not> is_two_phase nb"
      using b(2) by (auto simp: boundary_node_def Let_def is_network_boundary_def is_two_phase_def shuffle_from_stage_def
          split: boundary_kind.splits if_splits)
    then show ?thesis
      using q' p(2) propagate_strip [OF ok scale p(1)] plan by simp
  qed
  qed
qed

lemma inject_strip:
  assumes ok: "planner_ok env" and scale: "\<forall>p k q. pl_scale_up env p k = Some (Inr q) \<longrightarrow> strip q = strip p"
  shows "\<forall>n \<in> nodes_of p. \<not> is_network_boundary n \<Longrightarrow>
    inject env (cardinality_build env) p parent sid = Inr (q, sid') \<Longrightarrow>
    strip (erase q) = strip p \<and> (parent \<noteq> None \<longrightarrow> \<not> is_two_phase (fst (node_of q)))"
proof (induction p arbitrary: parent sid q sid')
  case (Plan n cs)
  obtain processed sid1 where
    seq: "seq_res (map (\<lambda>g. g (Some n)) (map (inject env (cardinality_build env)) cs)) sid = Inr (processed, sid1)"
    and step: "inject_step env (cardinality_build env) (Plan n cs) parent processed sid1 = Inr (q, sid')"
    using Plan.prems(2) by (auto simp: bind_res_eq_Inr)
  have "list_all2 (\<lambda>c r. \<exists>s s'. inject env (cardinality_build env) c (Some n) s = Inr (r, s')) cs processed"
    using seq_res_Inr [OF seq] by (simp add: list.rel_map)
  then have "list_all2 (\<lambda>c r. strip (erase r) = strip c \<and> \<not> is_two_phase (fst (node_of r))) cs processed"
    using Plan.IH Plan.prems(1) by (elim list.rel_mono_strong) fastforce
  then have processed: "map (\<lambda>c. strip (erase c)) processed = map strip cs"
      "list_all (\<lambda>c. \<not> is_two_phase (fst (node_of c))) processed"
    by (induction rule: list_all2_induct) simp_all
  have "\<not> is_two_phase (node_of c)" if "c \<in> set cs" for c
    using Plan.prems(1) that by (cases c) (auto dest!: is_two_phase_boundary)
  then have "\<not> above_two_phase n (map node_of cs)"
    by (intro not_above_two_phase) (simp add: list_all_iff)
  moreover have "\<not> is_network_boundary n"
    using Plan.prems(1) by simp
  ultimately show ?case
    using inject_step_strip [OF ok scale _ processed step] by simp
qed

section \<open>An example\<close>

text \<open>A join whose build side is collected, over a leaf and a repartitioned leaf of three tasks each.\<close>

definition example_planner :: "(unit, unit, unit, nat, unit) planner" where
  "example_planner =
     \<lparr>pl_broadcast_joins = False, pl_max_tasks_per_stage = 4, pl_fanout_threshold = 1000,
      pl_cardinality_factor = Fin (3 / 2), pl_urls = Inr [], pl_query_id = 7,
      pl_desired = (\<lambda>p. if kids p = [] then Some (Inr (ann_soft (Fin 3))) else None),
      pl_scale_up = (\<lambda>_ _. None),
      pl_props = (\<lambda>_. \<lparr>eq_properties = (), partitioning = UnknownPartitioning 2, emission_incremental = True, bounded = True\<rparr>),
      pl_replace = (\<lambda>n _. Inr n),
      pl_union_new = (\<lambda>_. Inr \<lparr>eq_properties = (), partitioning = UnknownPartitioning 2, emission_incremental = True, bounded = True\<rparr>),
      pl_repartition = (\<lambda>_ _. Inr False), pl_effect = (\<lambda>_. EffectEqual), pl_clear_constants = (\<lambda>q. q),
      pl_range_count = (\<lambda>_. 0), pl_range_scale = (\<lambda>r _. Inr r), pl_salt_lit = (\<lambda>_. ()), pl_ordering = (\<lambda>_. None)\<rparr>"

definition example_join :: "(unit, unit, unit, nat) plan" where
  "example_join =
     Plan (CoalescePartitionsNode None)
       [Plan (HashJoinNode CollectLeft LeftJoin False [])
          [Plan (OtherNode 1) [], Plan (RepartitionNode (Hash [()] 2) False) [Plan (OtherNode 2) []]]]"

definition stage_sizes :: "('x, 'r, 'q, 'o) plan \<Rightarrow> nat list" where
  "stage_sizes p = concat (map (\<lambda>(q, _). case input_stage (node_of q) of None \<Rightarrow> [] | Some st \<Rightarrow> [stage_task_count st])
     (counted_nodes p 1))"

lemma example_planner_ok: "planner_ok example_planner" "max_tasks example_planner = Inr 4"
  by (simp_all add: planner_ok_def example_planner_def max_tasks_def ann_soft_def)

lemma example_join_ok: "wf_plan example_join" "\<forall>n \<in> nodes_of example_join. \<not> is_network_boundary n"
  by (simp_all add: example_join_def wf_node_def collects_left_def is_network_boundary_def)

lemma example_join_injected:
  "\<exists>q. inject_network_boundaries example_planner (cardinality_build example_planner) example_join = Inr q \<and>
     stage_sizes (erase q) = [1, 3]"
proof -
  have "bind_res (inject_network_boundaries example_planner (cardinality_build example_planner) example_join)
      (\<lambda>q. Inr (stage_sizes (erase q))) = Inr [1, 3]"
    by code_simp
  then show ?thesis
    by (auto simp: bind_res_eq_Inr)
qed

section \<open>Properties\<close>

text \<open>C7. In a plan with injected boundaries, every join that collects its build side without a
  broadcast, and every operator that merges all partitions above a network coalesce, runs in a
  single task; every stage below a boundary has at least one task and at most the configured
  maximum.\<close>

theorem inject_places_nodes:
  assumes "planner_ok env" "max_tasks env = Inr m" "m < 2 ^ 53"
    "wf_plan p" "\<forall>n \<in> nodes_of p. \<not> is_network_boundary n"
    "inject_network_boundaries env (cardinality_build env) p = Inr q"
  shows "\<exists>a. snd (node_of q) = Some a \<and>
    (\<forall>x \<in> set (counted_nodes (erase q) (as_usize a)). placed (pl_broadcast_joins env) m x)"
  using inject_ok [OF assms(1-5), of None] assms(6)
  by (auto simp: inject_network_boundaries_def bind_res_eq_Inr simp del: counted_nodes.simps)

theorem inject_places_nodes_witness:
  "\<exists>q a. inject_network_boundaries example_planner (cardinality_build example_planner) example_join = Inr q \<and>
     stage_sizes (erase q) = [1, 3] \<and> snd (node_of q) = Some a \<and>
     list_all (placed False 4) (counted_nodes (erase q) (as_usize a))"
proof -
  obtain q where q: "inject_network_boundaries example_planner (cardinality_build example_planner) example_join = Inr q"
    "stage_sizes (erase q) = [1, 3]"
    using example_join_injected by blast
  from inject_places_nodes [OF example_planner_ok _ example_join_ok q(1)] show ?thesis
    using q by (auto simp: example_planner_def list_all_iff)
qed





end
