(* ===== verification/PrepareBoundaries.thy ===== *)
theory PrepareBoundaries
  imports InjectBoundaries
begin

text \<open>
  Preparation of the injected boundaries
  (\<open>src/src/distributed_planner/prepare_network_boundaries.rs\<close>) and the heads that boundaries demand
  of their producers (\<open>ProducerHead\<close> in \<open>src/src/distributed_planner/network_boundary.rs\<close>). A
  boundary between one producer and one consumer task is removed; the others get the head that
  their consumers read from and a stage number of their own.
\<close>

section \<open>Producer heads\<close>

definition producer_head ::
  "('x, 'r, 'q, 'o, 'e) planner \<Rightarrow> ('x, 'r, 'q, 'o) node \<Rightarrow> nat \<Rightarrow> ('e plan_error, ('x, 'r) producer_head) res" where
  "producer_head env n consumers =
     (case n of
        ShuffleNode sh \<Rightarrow>
          boundary_res (shuffle_producer_head (pl_range_scale env) (pl_salt_lit env) (pl_ordering env) sh consumers)
      | NetworkBroadcastNode br \<Rightarrow> Inr (broadcast_producer_head (pl_range_count env) br consumers)
      | _ \<Rightarrow> Inr coalesce_producer_head)"

text \<open>\<open>ProducerHead::insert\<close>: an existing head is replaced. A head over no partitions panics.\<close>

definition without_head :: "('x, 'r, 'q, 'o) plan \<Rightarrow> ('x, 'r, 'q, 'o) plan" where
  "without_head p =
     (case node_of p of
        RepartitionNode _ _ \<Rightarrow> hd (kids p)
      | BroadcastNode _ \<Rightarrow> hd (kids p)
      | _ \<Rightarrow> p)"

definition insert_head ::
  "('x, 'r, 'q, 'o, 'e) planner \<Rightarrow> ('x, 'r) producer_head \<Rightarrow> ('x, 'r, 'q, 'o) plan \<Rightarrow>
   ('e plan_error, ('x, 'r, 'q, 'o) plan) res" where
  "insert_head env head p =
     (let input = without_head p
      in case head of
           HeadNone \<Rightarrow> Inr input
         | HeadBroadcast output_partitions \<Rightarrow>
             if partitions_of env input = 0 then Inl Panic
             else Inr (Plan (BroadcastNode (broadcast_head_consumers output_partitions (partitions_of env input))) [input])
         | HeadRepartition pt preserve_order \<Rightarrow>
             bind_res (engine (pl_repartition env input pt)) (\<lambda>preserve.
               Inr (Plan (RepartitionNode pt (preserve_order \<and> preserve)) [input])))"

text \<open>\<open>ProducerHead::insert_sampler\<close>: a sampler right below the head.\<close>

definition insert_sampler ::
  "('x, 'r, 'q, 'o, 'e) planner \<Rightarrow> ('x, 'r, 'q, 'o) plan \<Rightarrow> ('e plan_error, ('x, 'r, 'q, 'o) plan) res" where
  "insert_sampler env p =
     (let sampled = (\<lambda>p. bind_res (replace_children env (node_of p) [Plan SamplerNode [hd (kids p)]]) (\<lambda>n.
                       Inr (Plan n [Plan SamplerNode [hd (kids p)]])))
      in case node_of p of
           RepartitionNode _ _ \<Rightarrow> sampled p
         | BroadcastNode _ \<Rightarrow> sampled p
         | _ \<Rightarrow> Inr p)"

section \<open>Preparation\<close>

definition with_input_stage ::
  "('x, 'r, 'q, 'o, 'e) planner \<Rightarrow> ('x, 'r, 'q, 'o) node \<Rightarrow> stage_ref \<Rightarrow> ('x, 'r, 'q, 'o) plan \<Rightarrow> ('x, 'r, 'q, 'o) node" where
  "with_input_stage env n st input =
     (case n of
        ShuffleNode sh \<Rightarrow> ShuffleNode (shuffle_with_input_stage (pl_clear_constants env) sh st)
      | NetworkCoalesceNode co \<Rightarrow>
          NetworkCoalesceNode (coalesce_with_input_stage (pl_range_count env) (\<lambda>_. pl_props env input) co st)
      | NetworkBroadcastNode br \<Rightarrow> NetworkBroadcastNode (broadcast_with_input_stage br st)
      | _ \<Rightarrow> n)"

text \<open>The closure, whose state is the next stage number; the new plan and whether it changed.\<close>

definition prepare_step ::
  "('x, 'r, 'q, 'o, 'e) planner \<Rightarrow> ('x, 'r, 'q, 'o) plan \<Rightarrow> nat \<Rightarrow> nat \<Rightarrow>
   ('e plan_error, (('x, 'r, 'q, 'o) plan \<times> bool) \<times> nat) res" where
  "prepare_step env p tc stage_id =
     (case input_stage (node_of p) of
        Some (Local l) \<Rightarrow>
          (let input = hd (kids p)
           in if tc = 1 \<and> ls_tasks l = 1 then Inr ((input, True), stage_id)
              else
                bind_res (producer_head env (node_of p) tc) (\<lambda>head.
                bind_res (insert_head env head input) (\<lambda>input_plan.
                  Inr ((Plan (with_input_stage env (node_of p)
                               (Local \<lparr>ls_query_id = pl_query_id env, ls_num = stage_id, ls_plan = (),
                                       ls_tasks = ls_tasks l, ls_metrics_set = ()\<rparr>) input_plan) [input_plan],
                        True), stage_id + 1))))
      | _ \<Rightarrow> Inr ((p, False), stage_id))"

definition prepare_network_boundaries where
  "prepare_network_boundaries env transform_down_up p =
     bind_res (transform_up_with_task_count transform_down_up Panic 1 (continuing (prepare_step env)) p 1)
       (\<lambda>(t, _). Inr (data t))"

text \<open>The engine rebuilds a node over new children with the node's own \<open>replace_children\<close>.\<close>

definition rebuild_plan ::
  "('x, 'r, 'q, 'o, 'e) planner \<Rightarrow> ('x, 'r, 'q, 'o) plan \<Rightarrow> ('x, 'r, 'q, 'o) plan list \<Rightarrow>
   ('e plan_error, ('x, 'r, 'q, 'o) plan) res" where
  "rebuild_plan env p cs = bind_res (replace_children env (node_of p) cs) (\<lambda>n. Inr (Plan n cs))"

section \<open>Prepared plans\<close>

text \<open>The local stages of a plan, the producers before their consumers.\<close>

primrec local_stages :: "('x, 'r, 'q, 'o) plan \<Rightarrow> (uuid \<times> nat) list" where
  "local_stages (Plan n cs) =
     concat (map local_stages cs) @
     (case input_stage n of Some (Local l) \<Rightarrow> [(ls_query_id l, ls_num l)] | _ \<Rightarrow> [])"

text \<open>The input has the head that the boundary asks for.\<close>

definition headed :: "('x, 'r, 'q, 'o, 'e) planner \<Rightarrow> ('x, 'r) producer_head \<Rightarrow> ('x, 'r, 'q, 'o) plan \<Rightarrow> bool" where
  "headed env head p =
     (case head of
        HeadNone \<Rightarrow> True
      | HeadBroadcast out \<Rightarrow>
          (case p of Plan (BroadcastNode c) [input] \<Rightarrow> c = out div partitions_of env input | _ \<Rightarrow> False)
      | HeadRepartition pt _ \<Rightarrow> (case p of Plan (RepartitionNode pt' _) [_] \<Rightarrow> pt' = pt | _ \<Rightarrow> False))"

definition ready :: "('x, 'r, 'q, 'o, 'e) planner \<Rightarrow> ('x, 'r, 'q, 'o) plan \<times> nat \<Rightarrow> bool" where
  "ready env x =
     (case input_stage (node_of (fst x)) of
        Some (Local l) \<Rightarrow>
          \<not> (snd x = 1 \<and> ls_tasks l = 1) \<and>
          (case (kids (fst x), producer_head env (node_of (fst x)) (snd x)) of
             ([input], Inr head) \<Rightarrow> headed env head input
           | _ \<Rightarrow> False)
      | _ \<Rightarrow> True)"

definition has_one_child :: "('x, 'r, 'q, 'o) plan \<Rightarrow> bool" where
  "has_one_child p =
     (case node_of p of RepartitionNode _ _ \<Rightarrow> length (kids p) = 1 | BroadcastNode _ \<Rightarrow> length (kids p) = 1 | _ \<Rightarrow> True)"

definition prepared :: "('x, 'r, 'q, 'o, 'e) planner \<Rightarrow> ('x, 'r, 'q, 'o) plan \<Rightarrow> nat \<Rightarrow> nat \<Rightarrow> nat \<Rightarrow> bool" where
  "prepared env p tc a b \<longleftrightarrow>
     (\<forall>x \<in> set (counted_nodes p tc). ready env x) \<and> has_one_child p \<and>
     a \<le> b \<and> local_stages p = map (\<lambda>i. (pl_query_id env, i)) [a..<b]"

text \<open>The unions of the plan keep their task map when they are rebuilt.\<close>

definition unions_ok :: "('x, 'r, 'q, 'o) plan \<Rightarrow> bool" where
  "unions_ok p \<longleftrightarrow> (\<forall>n \<in> nodes_of p. case n of IsolatorUnionNode u \<Rightarrow> task_map_inv u | _ \<Rightarrow> True)"

section \<open>Lemmas\<close>

lemma shuffle_new_children_stage:
  "shuffle_with_new_children sh (map (\<lambda>_. ()) cs) = Inr sh' \<Longrightarrow> sh' = sh"
  by (cases "sh_input_stage sh") (auto simp: shuffle_with_new_children_def split: list.splits if_splits)

lemma broadcast_new_children_stage:
  "broadcast_with_new_children br (map (\<lambda>_. ()) cs) = Inr br' \<Longrightarrow> br' = br"
  by (cases "br_input_stage br") (auto simp: broadcast_with_new_children_def split: list.splits if_splits)

lemma coalesce_new_children_stage:
  "coalesce_with_new_children rc pp co (map (\<lambda>_. ()) cs) = Inr co' \<Longrightarrow> co_input_stage co' = co_input_stage co"
  by (cases "co_input_stage co") (auto simp: coalesce_with_new_children_def split: list.splits if_splits)

lemma boundary_res_Inr [simp]: "boundary_res r = Inr a \<longleftrightarrow> r = Inr a"
  by (auto simp: boundary_res_def split: sum.splits)

lemma replace_union_counts:
  assumes "task_map_inv u" "replace_children env (IsolatorUnionNode u) cs = Inr n'"
  shows "\<exists>u'. n' = IsolatorUnionNode u' \<and> union_child_task_counts u' = union_child_task_counts u"
proof -
  let ?u = "with_children u (replicate (length (children u)) (Plan (IsolatorUnionNode u) []))"
  obtain u1 where u1: "with_new_children (partitions_of env) (pl_union_new env) ?u cs = Inr u1" "n' = union_node u1"
    using assms(2) by (auto simp: replace_children_def bind_res_eq_Inr)
  then have len: "length cs = length (children u)"
    and "from_children_and_annotations (partitions_of env) (pl_union_new env) cs (child_annotations u) (length (task_idx_map u)) = Inr u1"
    by (auto simp: with_new_children_def with_children_def split: if_splits)
  note f = from_children_Inr [OF this(2)]
  have "task_idx_map u1 = task_idx_map u"
    using f(3) assms(1) by (simp add: task_map_inv_def)
  then show ?thesis
    using u1(2) f(1) len by (simp add: union_node_def union_child_task_counts_def with_children_def)
qed

lemma replace_children_like:
  assumes "planner_ok env" "case n of IsolatorUnionNode u \<Rightarrow> task_map_inv u | _ \<Rightarrow> True"
    "replace_children env n qs = Inr n'" "length qs = length cs" "wf_node n (length cs)"
  shows "input_stage n' = input_stage n" "child_tcs tc (Plan n' qs) = child_tcs tc (Plan n cs)" "has_one_child (Plan n' qs)"
proof -
  consider u where "n = IsolatorUnionNode u" | "is_network_boundary n" | "\<not> is_network_boundary n" "\<not> is_isolator_union n"
    by (auto simp: isolator_union_eq)
  then have "input_stage n' = input_stage n \<and> child_tcs tc (Plan n' qs) = child_tcs tc (Plan n cs) \<and> has_one_child (Plan n' qs)"
  proof cases
    case (1 u)
    then show ?thesis
      using replace_union_counts [of u env qs n'] assms(2,3) by (auto simp: has_one_child_def)
  next
    case 2
    then have st: "input_stage n' = input_stage n" "has_one_child (Plan n' qs)"
      using assms(3) by (cases n; auto simp: is_network_boundary_def replace_children_def bind_res_eq_Inr has_one_child_def
          dest!: shuffle_new_children_stage broadcast_new_children_stage coalesce_new_children_stage)+
    then show ?thesis
      using 2 assms(4) length_child_tcs_boundary [of n' _ tc qs] length_child_tcs_boundary [of n _ tc cs]
      by (auto simp: is_network_boundary_def)
  next
    case 3
    then have same: "n' = n"
      using replace_children_same [OF assms(1)] assms(3) by blast
    then show ?thesis
      using 3 assms(4,5)
      by (cases n) (simp_all add: child_tcs_def has_one_child_def wf_node_def is_network_boundary_def is_isolator_union_def)
  qed
  then show "input_stage n' = input_stage n" "child_tcs tc (Plan n' qs) = child_tcs tc (Plan n cs)" "has_one_child (Plan n' qs)"
    by blast+
qed

text \<open>One child after the other.\<close>

lemma seq_prepared:
  assumes "length cs = length tcs"
    and "\<And>c tc s q ch s'. c \<in> set cs \<Longrightarrow> g c tc s = Inr ((q, ch), s') \<Longrightarrow> prepared env q tc s s' \<and> (\<not> ch \<longrightarrow> q = c)"
    and "seq_res (map (\<lambda>(g, tc). g tc) (zip (map g cs) tcs)) s = Inr (rs, s')"
  shows "list_all2 (\<lambda>r tc. (\<forall>x \<in> set (counted_nodes (fst r) tc). ready env x) \<and> has_one_child (fst r)) rs tcs \<and>
    s \<le> s' \<and> concat (map (\<lambda>r. local_stages (fst r)) rs) = map (\<lambda>i. (pl_query_id env, i)) [s..<s'] \<and>
    (\<not> list_ex snd rs \<longrightarrow> map fst rs = cs)"
  using assms
proof (induction cs tcs arbitrary: s rs rule: list_induct2)
  case Nil
  then show ?case by simp
next
  case (Cons c cs tc tcs)
  obtain q ch s1 rs1 where r: "g c tc s = Inr ((q, ch), s1)"
    and rest: "seq_res (map (\<lambda>(g, tc). g tc) (zip (map g cs) tcs)) s1 = Inr (rs1, s')" and rs: "rs = (q, ch) # rs1"
    using Cons.prems(2) by (auto simp: bind_res_eq_Inr)
  have hd: "prepared env q tc s s1" "\<not> ch \<longrightarrow> q = c"
    using Cons.prems(1) [OF _ r] by simp_all
  note tl = Cons.IH [OF Cons.prems(1) rest]
  have "list_all2 (\<lambda>r tc. (\<forall>x \<in> set (counted_nodes (fst r) tc). ready env x) \<and> has_one_child (fst r)) rs1 tcs \<and>
    s1 \<le> s' \<and> concat (map (\<lambda>r. local_stages (fst r)) rs1) = map (\<lambda>i. (pl_query_id env, i)) [s1..<s'] \<and>
    (\<not> list_ex snd rs1 \<longrightarrow> map fst rs1 = cs)"
    by (rule tl) simp_all
  moreover have "[s..<s'] = [s..<s1] @ [s1..<s']" if "s1 \<le> s'"
    using hd(1) that by (metis le_add_diff_inverse prepared_def upt_add_eq_append)
  ultimately show ?case
    using hd rs by (auto simp: prepared_def)
qed

lemma without_head_props:
  assumes "has_one_child p"
  shows "local_stages (without_head p) = local_stages p"
    "set (counted_nodes (without_head p) k) \<subseteq> set (counted_nodes p k)"
proof -
  obtain n cs where p: "p = Plan n cs"
    by (cases p)
  consider "without_head p = p" | c where "cs = [c]" "without_head p = c" "\<not> is_network_boundary n" "\<not> is_isolator_union n"
    using assms p by (cases n) (auto simp: without_head_def has_one_child_def is_network_boundary_def is_isolator_union_def length_Suc_conv)
  then have "local_stages (without_head p) = local_stages p \<and> set (counted_nodes (without_head p) k) \<subseteq> set (counted_nodes p k)"
    by cases (auto simp: p counted_inner is_network_boundary_def simp del: counted_nodes.simps)
  then show "local_stages (without_head p) = local_stages p"
    "set (counted_nodes (without_head p) k) \<subseteq> set (counted_nodes p k)"
    by blast+
qed

lemma insert_head_props:
  assumes "insert_head env head input = Inr p" "has_one_child input" "\<forall>x \<in> set (counted_nodes input k). ready env x"
  shows "headed env head p" "local_stages p = local_stages input" "\<forall>x \<in> set (counted_nodes p k). ready env x"
proof -
  note w = without_head_props [OF assms(2)]
  have plain: "\<not> is_network_boundary (BroadcastNode c)" "\<not> is_isolator_union (BroadcastNode c)"
    "\<not> is_network_boundary (RepartitionNode pt b)" "\<not> is_isolator_union (RepartitionNode pt b)" for c pt b
    by (simp_all add: is_network_boundary_def is_isolator_union_def)
  show "headed env head p"
    using assms(1) by (auto simp: insert_head_def headed_def Let_def bind_res_eq_Inr broadcast_head_consumers_def
        split: producer_head.splits if_splits)
  show "local_stages p = local_stages input"
    using assms(1) w(1) by (auto simp: insert_head_def Let_def bind_res_eq_Inr split: producer_head.splits if_splits)
  have "\<forall>x \<in> set (counted_nodes (without_head input) k). ready env x"
    using assms(3) w(2) [of k] by blast
  then show "\<forall>x \<in> set (counted_nodes p k). ready env x"
    using assms(1)
    by (auto simp: insert_head_def Let_def bind_res_eq_Inr counted_inner plain
        ready_def [of _ "(Plan (BroadcastNode _) _, _)"] ready_def [of _ "(Plan (RepartitionNode _ _) _, _)"]
        simp del: counted_nodes.simps split: producer_head.splits if_splits)
qed

lemma producer_head_with_stage:
  assumes "producer_head env n k = Inr head" "headed env head p"
  shows "\<exists>head'. producer_head env (with_input_stage env n st input) k = Inr head' \<and> headed env head' p"
  using assms
  by (cases n) (auto simp: producer_head_def with_input_stage_def shuffle_producer_head_def shuffle_with_input_stage_def
      broadcast_producer_head_def broadcast_with_input_stage_def bind_res_eq_Inr headed_def split: shuffle_mode.splits)

lemma input_stage_with_stage:
  "is_network_boundary n \<Longrightarrow> input_stage (with_input_stage env n st input) = Some st"
  by (cases n) (simp_all add: is_network_boundary_def with_input_stage_def shuffle_with_input_stage_def
      broadcast_with_input_stage_def coalesce_with_input_stage_def Let_def)

lemma prepare_local:
  assumes "input_stage n = Some (Local l)" "\<not> (tc = 1 \<and> ls_tasks l = 1)"
    and input: "\<forall>x \<in> set (counted_nodes input (ls_tasks l)). ready env x" "has_one_child input"
    and h: "producer_head env n tc = Inr head" "insert_head env head input = Inr p"
    and st: "st = Local \<lparr>ls_query_id = pl_query_id env, ls_num = i, ls_plan = (), ls_tasks = ls_tasks l, ls_metrics_set = ()\<rparr>"
  shows "\<forall>x \<in> set (counted_nodes (Plan (with_input_stage env n st p) [p]) tc). ready env x"
    "local_stages (Plan (with_input_stage env n st p) [p]) = local_stages input @ [(pl_query_id env, i)]"
    "has_one_child (Plan (with_input_stage env n st p) [p])"
proof -
  note ins = insert_head_props [OF h(2) input(2,1)]
  let ?n = "with_input_stage env n st p"
  have stage: "input_stage ?n = Some st"
    using assms(1) by (intro input_stage_with_stage) (simp add: is_network_boundary_def)
  obtain head' where "producer_head env ?n tc = Inr head'" "headed env head' p"
    using producer_head_with_stage [OF h(1) ins(1)] by blast
  then have "ready env (Plan ?n [p], tc)"
    using assms(2) stage st by (simp add: ready_def)
  then show "\<forall>x \<in> set (counted_nodes (Plan ?n [p]) tc). ready env x"
    using ins(3) counted_boundary [OF stage, of "[p]" tc] st by auto
  show "local_stages (Plan ?n [p]) = local_stages input @ [(pl_query_id env, i)]"
    using ins(2) stage st by simp
  show "has_one_child (Plan ?n [p])"
    using stage by (cases ?n) (simp_all add: has_one_child_def)
qed

lemma prepare_step_prepared:
  assumes qs: "list_all2 (\<lambda>q tc. (\<forall>x \<in> set (counted_nodes q tc). ready env x) \<and> has_one_child q) qs (child_tcs tc (Plan n qs))"
    "s \<le> s1" "concat (map local_stages qs) = map (\<lambda>i. (pl_query_id env, i)) [s..<s1]" "has_one_child (Plan n qs)"
    and one: "\<And>l. input_stage n = Some (Local l) \<Longrightarrow> length qs = 1"
    and step: "prepare_step env (Plan n qs) tc s1 = Inr ((q, ch), s')"
  shows "prepared env q tc s s' \<and> (\<not> ch \<longrightarrow> q = Plan n qs)"
proof (cases "\<exists>l. input_stage n = Some (Local l)")
  case True
  then obtain l input where l: "input_stage n = Some (Local l)" and input: "qs = [input]"
    using one by (auto simp: length_Suc_conv)
  have ready: "\<forall>x \<in> set (counted_nodes input (ls_tasks l)). ready env x" "has_one_child input"
    using qs(1) length_child_tcs_boundary [OF l, of tc qs] input by simp_all
  have stages: "local_stages input = map (\<lambda>i. (pl_query_id env, i)) [s..<s1]"
    using qs(3) input by simp
  show ?thesis
  proof (cases "tc = 1 \<and> ls_tasks l = 1")
    case True
    then have "q = input" "s' = s1" "ch"
      using step l input by (simp_all add: prepare_step_def)
    then show ?thesis
      using True ready stages qs(2) by (simp add: prepared_def)
  next
    case False
    let ?st = "Local \<lparr>ls_query_id = pl_query_id env, ls_num = s1, ls_plan = (), ls_tasks = ls_tasks l, ls_metrics_set = ()\<rparr> :: stage_ref"
    obtain head p where h: "producer_head env n tc = Inr head" "insert_head env head input = Inr p"
      and q: "q = Plan (with_input_stage env n ?st p) [p]" "s' = s1 + 1" "ch"
      using step l input False by (auto simp: prepare_step_def Let_def bind_res_eq_Inr)
    show ?thesis
      unfolding prepared_def q(1,2) using prepare_local [OF l False ready h refl] stages qs(2) q(3) by simp
  qed
next
  case False
  then have q: "q = Plan n qs" "s' = s1" "\<not> ch"
    using step by (auto simp: prepare_step_def split: option.splits stage.splits)
  have "ready env (Plan n qs, tc)"
    using False by (auto simp: ready_def split: option.splits stage.splits)
  moreover have "length (child_tcs tc (Plan n qs)) = length qs"
    using qs(1) by (simp add: list_all2_lengthD)
  ultimately have "\<forall>x \<in> set (counted_nodes (Plan n qs) tc). ready env x"
    using qs(1) by (auto simp: set_counted_nodes list_all2_conv_all_nth simp del: counted_nodes.simps)
  then show ?thesis
    using q qs(2-4) False by (auto simp: prepared_def simp del: counted_nodes.simps split: option.splits stage.splits)
qed

lemma up_prepared:
  assumes ok: "planner_ok env"
  shows "wf_plan p \<Longrightarrow> unions_ok p \<Longrightarrow> up_spec (rebuild_plan env) (prepare_step env) p tc s = Inr ((q, ch), s') \<Longrightarrow>
    prepared env q tc s s' \<and> (\<not> ch \<longrightarrow> q = p)"
proof (induction p arbitrary: tc s q ch s')
  case (Plan n cs)
  obtain rs s1 p1 ch1 ch2 where
    rs: "seq_res (map (\<lambda>(g, tc). g tc) (zip (map (up_spec (rebuild_plan env) (prepare_step env)) cs) (child_tcs tc (Plan n cs)))) s = Inr (rs, s1)"
    and p1: "rebuild_if (rebuild_plan env) (Plan n cs) rs = Inr (p1, ch1)"
    and step: "prepare_step env p1 tc s1 = Inr ((q, ch2), s')" and ch: "ch = (ch2 \<or> ch1)"
    using Plan.prems(3)
    unfolding up_spec.simps bind_res_eq_Inr split_paired_Ex prod.case sum.inject prod.inject by blast
  have wf: "wf_node n (length cs)" and union: "case n of IsolatorUnionNode u \<Rightarrow> task_map_inv u | _ \<Rightarrow> True"
    using Plan.prems(1,2) by (simp_all add: unions_ok_def)
  have "list_all2 (\<lambda>r tc. (\<forall>x \<in> set (counted_nodes (fst r) tc). ready env x) \<and> has_one_child (fst r)) rs (child_tcs tc (Plan n cs)) \<and>
    s \<le> s1 \<and> concat (map (\<lambda>r. local_stages (fst r)) rs) = map (\<lambda>i. (pl_query_id env, i)) [s..<s1] \<and>
    (\<not> list_ex snd rs \<longrightarrow> map fst rs = cs)"
    using _ _ rs
  proof (rule seq_prepared)
    show "length cs = length (child_tcs tc (Plan n cs))"
      using length_child_tcs [OF wf] by simp
    fix c tc s q ch s'
    assume "c \<in> set cs" "up_spec (rebuild_plan env) (prepare_step env) c tc s = Inr ((q, ch), s')"
    then show "prepared env q tc s s' \<and> (\<not> ch \<longrightarrow> q = c)"
      using Plan.prems(1,2) by (intro Plan.IH) (auto simp: list_all_iff unions_ok_def)
  qed
  note children = this
  let ?qs = "map fst rs"
  have len: "length ?qs = length cs"
    using children length_child_tcs [OF wf] by (auto dest: list_all2_lengthD)
  obtain n' where n': "p1 = Plan n' ?qs" "\<not> ch1 \<longrightarrow> n' = n \<and> ?qs = cs"
    "input_stage n' = input_stage n" "child_tcs tc (Plan n' ?qs) = child_tcs tc (Plan n cs)" "has_one_child (Plan n' ?qs)"
  proof (cases "list_ex snd rs")
    case True
    then obtain n' where "replace_children env n ?qs = Inr n'" "p1 = Plan n' ?qs" "ch1"
      using p1 by (auto simp: rebuild_if_def rebuild_plan_def bind_res_eq_Inr)
    then show ?thesis
      using that replace_children_like [OF ok union _ len wf] by blast
  next
    case False
    then have "p1 = Plan n cs" "\<not> ch1" "?qs = cs"
      using p1 children by (simp_all add: rebuild_if_def)
    moreover have "has_one_child (Plan n cs)"
      using wf by (cases n) (simp_all add: wf_node_def has_one_child_def)
    ultimately show ?thesis
      using that by blast
  qed
  have "prepared env q tc s s' \<and> (\<not> ch2 \<longrightarrow> q = Plan n' ?qs)"
  proof (rule prepare_step_prepared)
    show "list_all2 (\<lambda>q tc. (\<forall>x \<in> set (counted_nodes q tc). ready env x) \<and> has_one_child q) ?qs (child_tcs tc (Plan n' ?qs))"
      using children n'(4) by (simp add: list.rel_map)
    show "length ?qs = 1" if "input_stage n' = Some (Local l)" for l
      using that n'(3) wf len by (simp add: wf_node_def)
  qed (use children n' step in \<open>simp_all add: comp_def\<close>)
  then show ?case
    using n'(1,2) ch by auto
qed

section \<open>An example\<close>

text \<open>A shuffle from three to two tasks below a coalesce from two tasks to one.\<close>

definition example_stage :: "nat \<Rightarrow> stage_ref" where
  "example_stage k = Local \<lparr>ls_query_id = 0, ls_num = 0, ls_plan = (), ls_tasks = k, ls_metrics_set = ()\<rparr>"

definition example_props :: "(unit, unit) partitioning \<Rightarrow> (unit, unit, unit) plan_properties" where
  "example_props pt = \<lparr>eq_properties = (), partitioning = pt, emission_incremental = True, bounded = True\<rparr>"

definition example_stages :: "(unit, unit, unit, nat) plan" where
  "example_stages =
     Plan (CoalescePartitionsNode None)
       [Plan (NetworkCoalesceNode (coalesce_try_from_stage (\<lambda>_. 0) (example_stage 2) (example_props (Hash [()] 2)) 1))
          [Plan (OtherNode 1)
             [Plan (ShuffleNode (shuffle_from_stage (\<lambda>q. q) (example_stage 3) (example_props (Hash [()] 2))))
                [Plan (RepartitionNode (Hash [()] 2) False) [Plan (OtherNode 2) []]]]]]"

section \<open>Properties\<close>

text \<open>C8. After preparation, the local stages of the plan are numbered 1, 2, and so on, each with the
  query's identifier, producers before consumers; no boundary between a single producer and a
  single consumer task is left; and the input of every other boundary has the head that the boundary
  asks for when it runs in the number of tasks of its place in the plan.\<close>

theorem prepare_boundaries_ready:
  assumes "planner_ok env" "wf_plan p" "unions_ok p"
    "transform_down_up_law kids (rebuild_plan env) tdu (up_push Panic) (up_pop Panic (continuing (prepare_step env)))"
    "prepare_network_boundaries env tdu p = Inr q"
  shows "(\<forall>x \<in> set (counted_nodes q 1). ready env x) \<and>
    (\<exists>k. local_stages q = map (\<lambda>i. (pl_query_id env, i)) [1..<k + 1])"
proof -
  have "\<exists>ch s'. up_spec (rebuild_plan env) (prepare_step env) p 1 1 = Inr ((q, ch), s')"
    using assms(5) transform_up_with_stack [OF assms(4,2), of "[]" 1 1]
    by (auto simp: prepare_network_boundaries_def transform_up_with_task_count_def bind_res_eq_Inr)
  then obtain s' where q: "prepared env q 1 1 s'"
    using up_prepared [OF assms(1-3)] by blast
  then have "local_stages q = map (\<lambda>i. (pl_query_id env, i)) [1..<(s' - 1) + 1]"
    by (simp add: prepared_def)
  then show ?thesis
    using q unfolding prepared_def by blast
qed

theorem prepare_boundaries_ready_witness:
  "\<exists>q. prepare_network_boundaries example_planner (example_down_up (rebuild_plan example_planner)) example_stages = Inr q \<and>
     local_stages q = [(7, 1), (7, 2)] \<and> list_all (ready example_planner) (counted_nodes q 1)"
proof -
  let ?tdu = "example_down_up (rebuild_plan example_planner)"
  have law: "transform_down_up_law kids (rebuild_plan example_planner) ?tdu (up_push Panic)
      (up_pop Panic (continuing (prepare_step example_planner)))"
    by (rule example_down_up_law) (rule keeps_children_up_push)
  have wf: "wf_plan example_stages" "unions_ok example_stages"
    by (simp_all add: example_stages_def wf_node_def collects_left_def unions_ok_def example_stage_def
        coalesce_try_from_stage_def shuffle_from_stage_def)
  have "bind_res (prepare_network_boundaries example_planner ?tdu example_stages) (\<lambda>q. Inr (local_stages q)) = Inr [(7, 1), (7, 2)]"
    by code_simp
  then obtain q where q: "prepare_network_boundaries example_planner ?tdu example_stages = Inr q"
    "local_stages q = [(7, 1), (7, 2)]"
    by (auto simp: bind_res_eq_Inr)
  from prepare_boundaries_ready [OF example_planner_ok(1) wf law q(1)] show ?thesis
    using q by (simp add: list_all_iff)
qed

end
