(* ===== verification/PassRules.thy ===== *)
theory PassRules
  imports RewriteExamples
begin

text \<open>
  Rules for the planner's passes, which hand a stateless closure to one of the engine's rewriters. A
  top-down pass follows the children of the node it has just rewritten, so a fact about it is
  proved along a measure that the closure decreases; a bottom-up pass follows the plan.
\<close>

section \<open>Stateless closures\<close>

text \<open>The closure returns the new plan and whether it changed, and always continues.\<close>

definition stateless :: "('p \<Rightarrow> ('e, 'p \<times> bool) res) \<Rightarrow> ('e, unit, 'p) rewriter" where
  "stateless f p s = bind_res (f p) (\<lambda>(q, ch). Inr (\<lparr>data = q, changed = ch, tnr = Continue\<rparr>, s))"

definition honest :: "('p \<Rightarrow> ('e, 'p \<times> bool) res) \<Rightarrow> bool" where
  "honest f \<longleftrightarrow> (\<forall>p q. f p = Inr (q, False) \<longrightarrow> q = p)"

text \<open>A node over its rewritten children: rebuilt, or left as it is.\<close>

definition rebuilt :: "('p \<Rightarrow> 'p list) \<Rightarrow> ('p \<Rightarrow> 'p list \<Rightarrow> ('e, 'p) res) \<Rightarrow> 'p \<Rightarrow> 'p list \<Rightarrow> 'p \<Rightarrow> bool" where
  "rebuilt children_of rebuild p qs r \<longleftrightarrow> rebuild p qs = Inr r \<or> (qs = children_of p \<and> r = p)"

lemma stateless_Inr:
  "stateless f p s = Inr (t, s') \<longleftrightarrow> (\<exists>q ch. f p = Inr (q, ch) \<and> t = \<lparr>data = q, changed = ch, tnr = Continue\<rparr> \<and> s' = s)"
  by (auto simp: stateless_def bind_res_eq_Inr)

lemma rewrite_until_stop_run:
  assumes "\<And>p s t s'. p \<in> set ps \<Longrightarrow> g p s = Inr (t, s') \<Longrightarrow> tnr t = Continue \<and> R p (data t) \<and> (\<not> changed t \<longrightarrow> data t = p)"
    and "rewrite_until_stop g ps Continue s = Inr ((qs, ch, t), s')"
  shows "t = Continue \<and> list_all2 R ps qs \<and> (\<not> ch \<longrightarrow> qs = ps)"
  using assms
proof (induction ps arbitrary: s qs ch)
  case Nil
  then show ?case by simp
next
  case (Cons p ps)
  obtain r s1 qs1 ch1 where r: "g p s = Inr (r, s1)"
    and rest: "rewrite_until_stop g ps (tnr r) s1 = Inr ((qs1, ch1, t), s')"
    and out: "qs = data r # qs1" "ch = (changed r \<or> ch1)"
    using Cons.prems(2) by (auto simp: bind_res_eq_Inr)
  have hd: "tnr r = Continue" "R p (data r)" "\<not> changed r \<longrightarrow> data r = p"
    using Cons.prems(1) [OF _ r] by simp_all
  have "t = Continue \<and> list_all2 R ps qs1 \<and> (\<not> ch1 \<longrightarrow> qs1 = ps)"
    using Cons.prems(1) rest hd(1) by (intro Cons.IH [of s1 qs1 ch1]) auto
  then show ?case
    using hd out by simp
qed

lemma rewrite_children_run:
  assumes "\<And>p s t s'. p \<in> set (children_of q) \<Longrightarrow> g p s = Inr (t, s') \<Longrightarrow> tnr t = Continue \<and> R p (data t) \<and> (\<not> changed t \<longrightarrow> data t = p)"
    and "rewrite_children children_of rebuild g q s = Inr (t, s')"
  shows "tnr t = Continue \<and> (\<exists>qs. list_all2 R (children_of q) qs \<and> rebuilt children_of rebuild q qs (data t)) \<and>
    (\<not> changed t \<longrightarrow> data t = q)"
proof (cases "children_of q = []")
  case True
  then show ?thesis
    using assms(2) by (auto simp: rewrite_children_def rebuilt_def)
next
  case False
  then obtain qs ch r s1 where run: "rewrite_until_stop g (children_of q) Continue s = Inr ((qs, ch, r), s1)"
    and t: "if ch then \<exists>p. rebuild q qs = Inr p \<and> t = \<lparr>data = p, changed = True, tnr = r\<rparr>
        else t = \<lparr>data = q, changed = False, tnr = r\<rparr>"
    using assms(2) by (auto simp: rewrite_children_def bind_res_eq_Inr split: if_splits)
  have "r = Continue \<and> list_all2 R (children_of q) qs \<and> (\<not> ch \<longrightarrow> qs = children_of q)"
    by (rule rewrite_until_stop_run [OF assms(1) run])
  then show ?thesis
    using t by (auto simp: rebuilt_def split: if_splits)
qed

text \<open>Top-down: the measure \<open>w\<close> decreases from a plan to the children of what it is rewritten to.\<close>

lemma down_pass:
  fixes w :: "'p \<Rightarrow> nat"
  assumes law: "transform_down_law children_of rebuild td (stateless f)" and f: "honest f"
    and down: "\<And>p q ch c. I p \<Longrightarrow> f p = Inr (q, ch) \<Longrightarrow> c \<in> set (children_of q) \<Longrightarrow> I c \<and> w c < w p"
    and step: "\<And>p q ch qs r. I p \<Longrightarrow> f p = Inr (q, ch) \<Longrightarrow> list_all2 R (children_of q) qs \<Longrightarrow>
      rebuilt children_of rebuild q qs r \<Longrightarrow> R p r"
  shows "I p \<Longrightarrow> td (stateless f) p s = Inr (t, s') \<Longrightarrow> tnr t = Continue \<and> R p (data t) \<and> (\<not> changed t \<longrightarrow> data t = p)"
proof (induction p arbitrary: s t s' rule: measure_induct_rule [of w])
  case (less p)
  have eq: "td (stateless f) p s = bind_res (stateless f p s) (\<lambda>(t, s).
          case tnr t of
            Stop \<Rightarrow> Inr (t, s)
          | Jump \<Rightarrow> Inr (t\<lparr>tnr := Continue\<rparr>, s)
          | Continue \<Rightarrow>
              bind_res (rewrite_children children_of rebuild (td (stateless f)) (data t) s) (\<lambda>(t', s).
                Inr (t'\<lparr>changed := changed t' \<or> changed t\<rparr>, s)))"
    using law unfolding transform_down_law_def by blast
  then obtain q ch t1 s1 where q: "f p = Inr (q, ch)"
    and run: "rewrite_children children_of rebuild (td (stateless f)) q s1 = Inr (t1, s')"
    and t: "t = t1\<lparr>changed := changed t1 \<or> ch\<rparr>"
    using less.prems(2) by (auto simp: bind_res_eq_Inr stateless_Inr)
  have "tnr t1 = Continue \<and> (\<exists>qs. list_all2 R (children_of q) qs \<and> rebuilt children_of rebuild q qs (data t1)) \<and>
    (\<not> changed t1 \<longrightarrow> data t1 = q)"
  proof (rule rewrite_children_run [OF _ run])
    fix c s t s'
    assume "c \<in> set (children_of q)" "td (stateless f) c s = Inr (t, s')"
    then show "tnr t = Continue \<and> R c (data t) \<and> (\<not> changed t \<longrightarrow> data t = c)"
      using down [OF less.prems(1) q] by (intro less.IH) auto
  qed
  then show ?case
    using t step [OF less.prems(1) q] q f by (auto simp: honest_def)
qed

text \<open>Bottom-up.\<close>

lemma up_pass:
  assumes law: "transform_up_law kids rebuild tu (stateless f)" and f: "honest f"
    and down: "\<And>p c. I p \<Longrightarrow> c \<in> set (kids p) \<Longrightarrow> I c"
    and step: "\<And>p qs r q ch. I p \<Longrightarrow> list_all2 R (kids p) qs \<Longrightarrow> rebuilt kids rebuild p qs r \<Longrightarrow>
      f r = Inr (q, ch) \<Longrightarrow> R p q"
  shows "I p \<Longrightarrow> tu (stateless f) p s = Inr (t, s') \<Longrightarrow> tnr t = Continue \<and> R p (data t) \<and> (\<not> changed t \<longrightarrow> data t = p)"
proof (induction p arbitrary: s t s' rule: measure_induct_rule [of size])
  case (less p)
  have "tu (stateless f) p s = bind_res (rewrite_children kids rebuild (tu (stateless f)) p s) (\<lambda>(t, s). rewrite_parent (stateless f) t s)"
    using law unfolding transform_up_law_def by blast
  then obtain t1 s1 where run: "rewrite_children kids rebuild (tu (stateless f)) p s = Inr (t1, s1)"
    and up: "rewrite_parent (stateless f) t1 s1 = Inr (t, s')"
    using less.prems(2) by (auto simp: bind_res_eq_Inr)
  have children: "tnr t1 = Continue \<and> (\<exists>qs. list_all2 R (kids p) qs \<and> rebuilt kids rebuild p qs (data t1)) \<and>
    (\<not> changed t1 \<longrightarrow> data t1 = p)"
  proof (rule rewrite_children_run [OF _ run])
    fix c s t s'
    assume c: "c \<in> set (kids p)" and c_run: "tu (stateless f) c s = Inr (t, s')"
    then have "size c < size p"
      by (cases p) (simp add: less_Suc_eq_le size_list_estimation')
    then show "tnr t = Continue \<and> R c (data t) \<and> (\<not> changed t \<longrightarrow> data t = c)"
      using less.IH less.prems(1) c c_run down by blast
  qed
  then obtain q ch where "f (data t1) = Inr (q, ch)" "t = \<lparr>data = q, changed = ch \<or> changed t1, tnr = Continue\<rparr>"
    using up by (auto simp: rewrite_parent_def bind_res_eq_Inr stateless_Inr)
  then show ?case
    using children step [OF less.prems(1)] f by (auto simp: honest_def)
qed

lemma rewrite_children_cong:
  assumes "\<And>p. p \<in> set (children_of q) \<Longrightarrow> g p = g' p"
  shows "rewrite_children children_of rebuild g q s = rewrite_children children_of rebuild g' q s"
proof -
  have "rewrite_until_stop g ps t s = rewrite_until_stop g' ps t s" if "\<And>p. p \<in> set ps \<Longrightarrow> g p = g' p" for ps t s
    using that by (induction ps arbitrary: t s) simp_all
  then show ?thesis
    using assms by (simp add: rewrite_children_def)
qed

text \<open>The law leaves a rewriter no choice where the recursion terminates.\<close>

lemma transform_down_unique:
  fixes w :: "'p \<Rightarrow> nat"
  assumes "transform_down_law children_of rebuild td f" "transform_down_law children_of rebuild td' f"
    "\<And>p s t s' c. f p s = Inr (t, s') \<Longrightarrow> tnr t = Continue \<Longrightarrow> c \<in> set (children_of (data t)) \<Longrightarrow> w c < w p"
  shows "td f p s = td' f p s"
proof (induction p arbitrary: s rule: measure_induct_rule [of w])
  case (less p)
  have same: "rewrite_children children_of rebuild (td f) (data t) s' = rewrite_children children_of rebuild (td' f) (data t) s'"
    if "f p s = Inr (t, s')" "tnr t = Continue" for t s'
    using less.IH assms(3) [OF that] by (intro rewrite_children_cong) auto
  have td: "td f p s = bind_res (f p s) (\<lambda>(t, s).
          case tnr t of
            Stop \<Rightarrow> Inr (t, s)
          | Jump \<Rightarrow> Inr (t\<lparr>tnr := Continue\<rparr>, s)
          | Continue \<Rightarrow>
              bind_res (rewrite_children children_of rebuild (td f) (data t) s) (\<lambda>(t', s).
                Inr (t'\<lparr>changed := changed t' \<or> changed t\<rparr>, s)))"
    if "transform_down_law children_of rebuild td f" for td
    using that unfolding transform_down_law_def by blast
  show ?case
    unfolding td [OF assms(1)] td [OF assms(2)]
    by (auto intro!: bind_res_cong simp: same split: recursion.split)
qed

section \<open>A top-down rewriter for closures that change children\<close>

text \<open>
  For the examples: a rewriter that meets the law for every closure that decreases \<open>w\<close>. It does not
  go on into a child that is not smaller.
\<close>

function guarded_down ::
  "(('x, 'r, 'q, 'o) plan \<Rightarrow> nat) \<Rightarrow>
   (('x, 'r, 'q, 'o) plan \<Rightarrow> ('x, 'r, 'q, 'o) plan list \<Rightarrow> ('e, ('x, 'r, 'q, 'o) plan) res) \<Rightarrow>
   ('e, 's, ('x, 'r, 'q, 'o) plan) rewriter \<Rightarrow> ('e, 's, ('x, 'r, 'q, 'o) plan) rewriter" where
  "guarded_down w rebuild f p s =
     bind_res (f p s) (\<lambda>(t, s).
       case tnr t of
         Stop \<Rightarrow> Inr (t, s)
       | Jump \<Rightarrow> Inr (t\<lparr>tnr := Continue\<rparr>, s)
       | Continue \<Rightarrow>
           bind_res (rewrite_children kids rebuild (\<lambda>c s. if w c < w p then guarded_down w rebuild f c s else Inr (no c, s)) (data t) s)
             (\<lambda>(t', s). Inr (t'\<lparr>changed := changed t' \<or> changed t\<rparr>, s)))"
  by pat_completeness auto
termination
  by (relation "measure (\<lambda>(w, _, _, p, _). w p)") simp_all

declare guarded_down.simps [simp del]

lemma guarded_down_law:
  assumes "\<And>p s t s' c. f p s = Inr (t, s') \<Longrightarrow> tnr t = Continue \<Longrightarrow> c \<in> set (kids (data t)) \<Longrightarrow> w c < w p"
  shows "transform_down_law kids rebuild (guarded_down w rebuild) f"
  unfolding transform_down_law_def
proof (intro allI)
  fix p s
  have ch: "rewrite_children kids rebuild (\<lambda>c s. if w c < w p then guarded_down w rebuild f c s else Inr (no c, s)) (data t) s' =
      rewrite_children kids rebuild (guarded_down w rebuild f) (data t) s'"
    if "f p s = Inr (t, s')" "tnr t = Continue" for t s'
    using assms [OF that] by (intro rewrite_children_cong) auto
  show "guarded_down w rebuild f p s = bind_res (f p s) (\<lambda>(t, s).
          case tnr t of
            Stop \<Rightarrow> Inr (t, s)
          | Jump \<Rightarrow> Inr (t\<lparr>tnr := Continue\<rparr>, s)
          | Continue \<Rightarrow>
              bind_res (rewrite_children kids rebuild (guarded_down w rebuild f) (data t) s) (\<lambda>(t', s).
                Inr (t'\<lparr>changed := changed t' \<or> changed t\<rparr>, s)))"
    using ch by (subst guarded_down.simps) (auto intro!: bind_res_cong split: recursion.split)
qed

end
