(* ===== verification/PlannerPasses.thy ===== *)
theory PlannerPasses
  imports PrepareBoundaries PassRules
begin

text \<open>
  The passes of the distributed planner around the injection of boundaries:
  \<open>normalize_collect_joins.rs\<close>, \<open>insert_broadcast.rs\<close>, \<open>insert_children_isolator_union.rs\<close>,
  \<open>partial_reduce_below_network_shuffles.rs\<close> and \<open>push_fetch_into_network_coalesce.rs\<close> of
  \<open>src/src/distributed_planner\<close>. Every pass hands a closure to one of the engine's rewriters; the
  closure returns the new plan and whether it changed.
\<close>

section \<open>The session\<close>

text \<open>
  The planner's environment, the configuration that the passes read, and the engine's operations on
  operators: \<open>se_swap_inputs\<close> swaps the sides of a nested loop join, \<open>se_join\<close> and \<open>se_aggregate\<close> say
  whether a join or an aggregate can be built, \<open>se_fetch\<close> and \<open>se_with_fetch\<close> read and set the fetch
  limit of an operator that the program does not know, \<open>se_local_limit\<close> is the engine's limit
  operator, \<open>se_is_projection\<close> recognises a projection and \<open>se_column\<close> is a column expression.
\<close>

record ('x, 'r, 'q, 'o, 'e) session =
  se_planner :: "('x, 'r, 'q, 'o, 'e) planner"
  se_target_partitions :: nat
  se_isolator_unions :: bool
  se_partial_reduce :: bool
  se_dynamic_task_count :: bool
  se_collect_metrics :: bool
  se_collect_dynamic_filters :: bool
  se_swap_inputs :: "('x, 'r, 'q, 'o) plan \<Rightarrow> ('e, ('x, 'r, 'q, 'o) plan) res"
  se_join :: "('x, 'r, 'q, 'o) node \<Rightarrow> ('x, 'r, 'q, 'o) plan list \<Rightarrow> ('e, unit) res"
  se_aggregate :: "'x aggregate \<Rightarrow> ('x, 'r, 'q, 'o) plan \<Rightarrow> ('e, unit) res"
  se_column :: "string \<Rightarrow> nat \<Rightarrow> 'x"
  se_fetch :: "('x, 'r, 'q, 'o) plan \<Rightarrow> nat option"
  se_with_fetch :: "('x, 'r, 'q, 'o) plan \<Rightarrow> nat \<Rightarrow> ('x, 'r, 'q, 'o) plan option"
  se_local_limit :: "nat \<Rightarrow> 'o"
  se_is_projection :: "'o \<Rightarrow> bool"

section \<open>Joins that collect their build side\<close>

definition both_sides_use_single_partition ::
  "('x, 'r, 'q, 'o, 'e) planner \<Rightarrow> ('x, 'r, 'q, 'o) plan \<Rightarrow> ('x, 'r, 'q, 'o) plan \<Rightarrow> bool" where
  "both_sides_use_single_partition env l r \<longleftrightarrow> partitions_of env l = 1 \<and> partitions_of env r = 1"

text \<open>A coalesce without a fetch is stripped, any other build side is kept.\<close>

definition is_plain_coalesce :: "('x, 'r, 'q, 'o) plan \<Rightarrow> bool" where
  "is_plain_coalesce p \<longleftrightarrow> node_of p = CoalescePartitionsNode None \<and> length (kids p) = 1"

definition strip_coalesce :: "('x, 'r, 'q, 'o) plan \<Rightarrow> ('x, 'r, 'q, 'o) plan" where
  "strip_coalesce p = (if is_plain_coalesce p then hd (kids p) else p)"

definition hash_repartition ::
  "('x, 'r, 'q, 'o, 'e) planner \<Rightarrow> ('x, 'r, 'q, 'o) plan \<Rightarrow> 'x list \<Rightarrow> nat \<Rightarrow> ('e plan_error, ('x, 'r, 'q, 'o) plan) res" where
  "hash_repartition env p keys n =
     bind_res (engine (pl_repartition env p (Hash keys n))) (\<lambda>_. Inr (Plan (RepartitionNode (Hash keys n) False) [p]))"

definition collect_left_to_partitioned ::
  "('x, 'r, 'q, 'o, 'e) session \<Rightarrow> join_type \<Rightarrow> bool \<Rightarrow> ('x \<times> 'x) list \<Rightarrow> ('x, 'r, 'q, 'o) plan \<Rightarrow> ('x, 'r, 'q, 'o) plan \<Rightarrow>
   ('e plan_error, ('x, 'r, 'q, 'o) plan) res" where
  "collect_left_to_partitioned ses t null_aware on l r =
     (if partitions_of (se_planner ses) r \<le> 1 then Inl SinglePartitionJoin
      else
        bind_res (hash_repartition (se_planner ses) (strip_coalesce l) (map fst on) (se_target_partitions ses)) (\<lambda>left.
        bind_res (hash_repartition (se_planner ses) r (map snd on) (se_target_partitions ses)) (\<lambda>right.
        bind_res (engine (se_join ses (HashJoinNode Partitioned t null_aware on) [left, right])) (\<lambda>_.
          Inr (Plan (HashJoinNode Partitioned t null_aware on) [left, right])))))"

definition swap_nested_loop_join ::
  "('x, 'r, 'q, 'o, 'e) session \<Rightarrow> join_type \<Rightarrow> ('x, 'r, 'q, 'o) plan \<Rightarrow> ('x, 'r, 'q, 'o) plan \<Rightarrow>
   ('e plan_error, ('x, 'r, 'q, 'o) plan) res" where
  "swap_nested_loop_join ses t l r =
     (if is_plain_coalesce l then
        bind_res (replace_children (se_planner ses) (NestedLoopJoinNode t) [strip_coalesce l, r]) (\<lambda>n.
          engine (se_swap_inputs ses (Plan n [strip_coalesce l, r])))
      else engine (se_swap_inputs ses (Plan (NestedLoopJoinNode t) [l, r])))"

definition normalize_step ::
  "('x, 'r, 'q, 'o, 'e) session \<Rightarrow> ('x, 'r, 'q, 'o) plan \<Rightarrow> ('e plan_error, ('x, 'r, 'q, 'o) plan \<times> bool) res" where
  "normalize_step ses p =
     (case p of
        Plan (HashJoinNode mode t null_aware on) [l, r] \<Rightarrow>
          if mode = CollectLeft \<and> \<not> is_left_broadcast_safe t \<and> \<not> null_aware \<and>
             \<not> both_sides_use_single_partition (se_planner ses) l r then
            bind_res (collect_left_to_partitioned ses t null_aware on l r) (\<lambda>q. Inr (q, True))
          else Inr (p, False)
      | Plan (NestedLoopJoinNode t) [l, r] \<Rightarrow>
          if pl_broadcast_joins (se_planner ses) \<and> \<not> is_left_broadcast_safe t \<and> t \<noteq> FullJoin \<and>
             \<not> both_sides_use_single_partition (se_planner ses) l r then
            bind_res (swap_nested_loop_join ses t l r) (\<lambda>q. Inr (q, True))
          else Inr (p, False)
      | _ \<Rightarrow> Inr (p, False))"

definition normalize_collect_joins where
  "normalize_collect_joins ses transform_down p =
     bind_res (transform_down (stateless (normalize_step ses)) p ()) (\<lambda>(t, _). Inr (data t))"

section \<open>Broadcasts\<close>

definition can_broadcast_left_input :: "('x, 'r, 'q, 'o) node \<Rightarrow> bool" where
  "can_broadcast_left_input n =
     (case n of
        HashJoinNode mode t _ _ \<Rightarrow> mode = CollectLeft \<and> is_left_broadcast_safe t
      | NestedLoopJoinNode t \<Rightarrow> is_left_broadcast_safe t
      | CrossJoinNode \<Rightarrow> True
      | _ \<Rightarrow> False)"

definition coalesced_broadcast :: "('x, 'r, 'q, 'o) plan \<Rightarrow> ('x, 'r, 'q, 'o) plan" where
  "coalesced_broadcast input = Plan (CoalescePartitionsNode None) [Plan (BroadcastNode 1) [input]]"

text \<open>The new build side, unless it is a coalesced broadcast already.\<close>

definition broadcast_build :: "('x, 'r, 'q, 'o) plan \<Rightarrow> ('x, 'r, 'q, 'o) plan option" where
  "broadcast_build build =
     (if is_plain_coalesce build then
        (case node_of (hd (kids build)) of
           BroadcastNode _ \<Rightarrow> None
         | _ \<Rightarrow> Some (coalesced_broadcast (hd (kids build))))
      else case node_of build of
             BroadcastNode _ \<Rightarrow> Some (Plan (CoalescePartitionsNode None) [build])
           | _ \<Rightarrow> Some (coalesced_broadcast build))"

definition insert_broadcast_step ::
  "('x, 'r, 'q, 'o, 'e) session \<Rightarrow> ('x, 'r, 'q, 'o) plan \<Rightarrow> ('e plan_error, ('x, 'r, 'q, 'o) plan \<times> bool) res" where
  "insert_broadcast_step ses p =
     (if \<not> can_broadcast_left_input (node_of p) then Inr (p, False)
      else case kids p of
             [] \<Rightarrow> Inr (p, False)
           | build # rest \<Rightarrow>
               (case broadcast_build build of
                  None \<Rightarrow> Inr (p, False)
                | Some build' \<Rightarrow>
                    bind_res (rebuild_plan (se_planner ses) p (build' # rest)) (\<lambda>q. Inr (q, True))))"

definition insert_broadcast_execs where
  "insert_broadcast_execs ses transform_down p =
     (if \<not> pl_broadcast_joins (se_planner ses) then Inr p
      else bind_res (transform_down (stateless (insert_broadcast_step ses)) p ()) (\<lambda>(t, _). Inr (data t)))"

section \<open>Unions\<close>

definition insert_union_step ::
  "('x, 'r, 'q, 'o, 'e) session \<Rightarrow> ('x, 'r, 'q, 'o) plan \<Rightarrow> ('e plan_error, ('x, 'r, 'q, 'o) plan \<times> bool) res" where
  "insert_union_step ses p =
     (if node_of p \<noteq> UnionNode then Inr (p, False)
      else bind_res (union_res (new_single_task (partitions_of (se_planner ses)) (pl_union_new (se_planner ses)) (kids p))) (\<lambda>u.
             Inr (Plan (union_node u) (kids p), True)))"

definition insert_children_isolator_unions where
  "insert_children_isolator_unions ses transform_down p =
     (if \<not> se_isolator_unions ses then Inr p
      else bind_res (transform_down (stateless (insert_union_step ses)) p ()) (\<lambda>(t, _). Inr (data t)))"

section \<open>Partial aggregation below shuffles\<close>

definition require_one_child :: "'p list \<Rightarrow> ('e plan_error, 'p) res" where
  "require_one_child cs = (case cs of [c] \<Rightarrow> Inr c | _ \<Rightarrow> Inl (WrongChildCount (length cs)))"

text \<open>The group columns of a partial aggregate are the first columns of its output.\<close>

definition output_columns :: "(string \<Rightarrow> nat \<Rightarrow> 'x) \<Rightarrow> ('x \<times> string) list \<Rightarrow> ('x \<times> string) list" where
  "output_columns column es = map (\<lambda>(i, (_, name)). (column name i, name)) (enumerate 0 es)"

definition partial_reduce_of :: "(string \<Rightarrow> nat \<Rightarrow> 'x) \<Rightarrow> 'x aggregate \<Rightarrow> 'x aggregate" where
  "partial_reduce_of column agg =
     \<lparr>agg_mode = PartialReduce,
      agg_group_by =
        \<lparr>gb_expr = output_columns column (gb_expr (agg_group_by agg)),
         gb_null_expr = output_columns column (gb_null_expr (agg_group_by agg)),
         gb_groups = gb_groups (agg_group_by agg),
         gb_has_grouping_set = gb_has_grouping_set (agg_group_by agg)\<rparr>,
      agg_aggr_expr = agg_aggr_expr agg, agg_filter_expr = agg_filter_expr agg\<rparr>"

text \<open>The partial aggregate below a hash repartition.\<close>

definition partial_below :: "('x, 'r, 'q, 'o) plan \<Rightarrow> ('e plan_error, 'x aggregate option) res" where
  "partial_below child =
     (case node_of child of
        RepartitionNode (Hash _ _) _ \<Rightarrow>
          bind_res (require_one_child (kids child)) (\<lambda>grandchild.
            case node_of grandchild of
              AggregateNode agg \<Rightarrow> Inr (if agg_mode agg \<noteq> PartialAgg then None else Some agg)
            | _ \<Rightarrow> Inr None)
      | _ \<Rightarrow> Inr None)"

definition partial_reduce_step ::
  "('x, 'r, 'q, 'o, 'e) session \<Rightarrow> ('x, 'r, 'q, 'o) plan \<Rightarrow> ('e plan_error, ('x, 'r, 'q, 'o) plan \<times> bool) res" where
  "partial_reduce_step ses p =
     (if \<not> is_network_boundary (node_of p) then Inr (p, False)
      else
        bind_res (require_one_child (kids p)) (\<lambda>child.
        bind_res (partial_below child) (\<lambda>below.
          case below of
            None \<Rightarrow> Inr (p, False)
          | Some agg \<Rightarrow>
              (let reduce = partial_reduce_of (se_column ses) agg
               in bind_res (engine (se_aggregate ses reduce child)) (\<lambda>_.
                  bind_res (rebuild_plan (se_planner ses) p [Plan (AggregateNode reduce) [child]]) (\<lambda>q.
                    Inr (q, True)))))))"

definition partial_reduce_below_network_shuffles where
  "partial_reduce_below_network_shuffles ses transform_up p =
     (if \<not> se_partial_reduce ses then Inr p
      else bind_res (transform_up (stateless (partial_reduce_step ses)) p ()) (\<lambda>(t, _). Inr (data t)))"

section \<open>Fetch limits below a coalesce\<close>

text \<open>The fetch limit of an operator; the program's own operators have none.\<close>

definition plan_fetch :: "('x, 'r, 'q, 'o, 'e) session \<Rightarrow> ('x, 'r, 'q, 'o) plan \<Rightarrow> nat option" where
  "plan_fetch ses p =
     (case node_of p of
        CoalescePartitionsNode f \<Rightarrow> f
      | SortPreservingMergeNode f \<Rightarrow> f
      | GlobalLimitNode _ f \<Rightarrow> f
      | BroadcastNode _ \<Rightarrow> None
      | SamplerNode \<Rightarrow> None
      | IsolatorUnionNode _ \<Rightarrow> None
      | DistributedLeafNode _ _ \<Rightarrow> None
      | ShuffleNode _ \<Rightarrow> None
      | NetworkCoalesceNode _ \<Rightarrow> None
      | NetworkBroadcastNode _ \<Rightarrow> None
      | _ \<Rightarrow> se_fetch ses p)"

definition fetch_required_from_child :: "('x, 'r, 'q, 'o, 'e) session \<Rightarrow> ('x, 'r, 'q, 'o) plan \<Rightarrow> nat option" where
  "fetch_required_from_child ses p =
     (case node_of p of
        GlobalLimitNode skip limit \<Rightarrow>
          (case limit of None \<Rightarrow> None | Some f \<Rightarrow> checked_add f skip)
      | _ \<Rightarrow> plan_fetch ses p)"

definition projection_input :: "('x, 'r, 'q, 'o, 'e) session \<Rightarrow> ('x, 'r, 'q, 'o) plan \<Rightarrow> ('x, 'r, 'q, 'o) plan option" where
  "projection_input ses p =
     (case (node_of p, kids p) of (OtherNode o', [c]) \<Rightarrow> if se_is_projection ses o' then Some c else None | _ \<Rightarrow> None)"

definition fetch_input ::
  "('x, 'r, 'q, 'o, 'e) session \<Rightarrow> ('x, 'r, 'q, 'o) plan \<Rightarrow> nat \<Rightarrow> ('e plan_error, ('x, 'r, 'q, 'o) plan) res" where
  "fetch_input ses p limit =
     apply_fetch_through_projection (projection_input ses) (plan_fetch ses) (se_with_fetch ses)
       (\<lambda>p n. Plan (OtherNode (se_local_limit ses n)) [p]) (rebuild_plan (se_planner ses)) p limit"

text \<open>The child with the limit on its input stage if it is a network coalesce, and whether it is one.\<close>

definition push_fetch_child ::
  "('x, 'r, 'q, 'o, 'e) session \<Rightarrow> nat \<Rightarrow> ('x, 'r, 'q, 'o) plan \<Rightarrow> ('e plan_error, ('x, 'r, 'q, 'o) plan) res" where
  "push_fetch_child ses limit c =
     (case (node_of c, kids c) of
        (NetworkCoalesceNode co, [input]) \<Rightarrow>
          (case co_input_stage co of
             Remote _ \<Rightarrow> Inr c
           | Local l \<Rightarrow>
               bind_res (fetch_input ses input limit) (\<lambda>input.
                 Inr (Plan (NetworkCoalesceNode (co\<lparr>co_input_stage := Local (l\<lparr>ls_metrics_set := ()\<rparr>)\<rparr>)) [input])))
      | _ \<Rightarrow> Inr c)"

definition push_fetch_step ::
  "('x, 'r, 'q, 'o, 'e) session \<Rightarrow> ('x, 'r, 'q, 'o) plan \<Rightarrow> ('e plan_error, ('x, 'r, 'q, 'o) plan \<times> bool) res" where
  "push_fetch_step ses p =
     (case fetch_required_from_child ses p of
        None \<Rightarrow> Inr (p, False)
      | Some limit \<Rightarrow>
          bind_res (map_res (push_fetch_child ses limit) (kids p)) (\<lambda>cs.
            if list_ex (\<lambda>c. is_network_coalesce (node_of c)) (kids p) then
              bind_res (rebuild_plan (se_planner ses) p cs) (\<lambda>q. Inr (q, True))
            else Inr (p, False)))"

definition push_fetch_into_network_coalesce where
  "push_fetch_into_network_coalesce ses transform_down p =
     bind_res (transform_down (stateless (push_fetch_step ses)) p ()) (\<lambda>(t, _). Inr (data t))"

section \<open>What the passes rely on and establish\<close>

definition swapped_type :: "join_type \<Rightarrow> join_type" where
  "swapped_type t =
     (case t of
        LeftJoin \<Rightarrow> RightJoin | RightJoin \<Rightarrow> LeftJoin
      | LeftSemi \<Rightarrow> RightSemi | RightSemi \<Rightarrow> LeftSemi
      | LeftAnti \<Rightarrow> RightAnti | RightAnti \<Rightarrow> LeftAnti
      | LeftMark \<Rightarrow> RightMark | RightMark \<Rightarrow> LeftMark
      | _ \<Rightarrow> t)"

text \<open>
  Swapping the inputs of a nested loop join gives the join of the swapped type, possibly below a
  projection. Setting a fetch limit changes neither the operator nor its children, apart from the
  limit itself and operators that the program does not know.
\<close>

definition swap_ok :: "('x, 'r, 'q, 'o, 'e) session \<Rightarrow> bool" where
  "swap_ok ses \<longleftrightarrow>
     (\<forall>t l r q. se_swap_inputs ses (Plan (NestedLoopJoinNode t) [l, r]) = Inr q \<longrightarrow>
        q = Plan (NestedLoopJoinNode (swapped_type t)) [r, l] \<or>
        (\<exists>o'. q = Plan (OtherNode o') [Plan (NestedLoopJoinNode (swapped_type t)) [r, l]]))"

definition without_fetch :: "('x, 'r, 'q, 'o) node \<Rightarrow> ('x, 'r, 'q, unit) node" where
  "without_fetch n =
     (case n of
        CoalescePartitionsNode _ \<Rightarrow> CoalescePartitionsNode None
      | SortPreservingMergeNode _ \<Rightarrow> SortPreservingMergeNode None
      | GlobalLimitNode s _ \<Rightarrow> GlobalLimitNode s None
      | n \<Rightarrow> map_node (\<lambda>_. ()) n)"

definition fetch_ok :: "('x, 'r, 'q, 'o, 'e) session \<Rightarrow> bool" where
  "fetch_ok ses \<longleftrightarrow>
     (\<forall>p n q. se_with_fetch ses p n = Some q \<longrightarrow> kids q = kids p \<and> without_fetch (node_of q) = without_fetch (node_of p))"

text \<open>A well-formed plan without boundaries, as the engine's planner hands it over.\<close>

definition local_plan :: "('x, 'r, 'q, 'o) plan \<Rightarrow> bool" where
  "local_plan p \<longleftrightarrow> wf_plan p \<and> (\<forall>n \<in> nodes_of p. \<not> is_network_boundary n)"

primrec all_plans :: "(('x, 'r, 'q, 'o) plan \<Rightarrow> bool) \<Rightarrow> ('x, 'r, 'q, 'o) plan \<Rightarrow> bool" where
  "all_plans P (Plan n cs) \<longleftrightarrow> P (Plan n cs) \<and> list_all (all_plans P) cs"

definition is_broadcast :: "('x, 'r, 'q, 'o) node \<Rightarrow> bool" where
  "is_broadcast n = (case n of BroadcastNode _ \<Rightarrow> True | _ \<Rightarrow> False)"

definition is_network_broadcast :: "('x, 'r, 'q, 'o) node \<Rightarrow> bool" where
  "is_network_broadcast n = (case n of NetworkBroadcastNode _ \<Rightarrow> True | _ \<Rightarrow> False)"

text \<open>The first child is a coalesce without a fetch over a node with property \<open>P\<close>.\<close>

definition coalesced_over :: "(('x, 'r, 'q, 'o) node \<Rightarrow> bool) \<Rightarrow> ('x, 'r, 'q, 'o) plan list \<Rightarrow> bool" where
  "coalesced_over P cs =
     (case cs of
        [] \<Rightarrow> False
      | c # _ \<Rightarrow> node_of c = CoalescePartitionsNode None \<and> (case kids c of [d] \<Rightarrow> P (node_of d) | _ \<Rightarrow> False))"

definition broadcast_ready :: "(('x, 'r, 'q, 'o) node \<Rightarrow> bool) \<Rightarrow> ('x, 'r, 'q, 'o) plan \<Rightarrow> bool" where
  "broadcast_ready P = all_plans (\<lambda>p. can_broadcast_left_input (node_of p) \<longrightarrow> coalesced_over P (kids p))"

text \<open>
  The measure of the top-down passes. A join weighs more than what a pass puts below it, and a node
  weighs more the more network coalesces are below it, since fetch limits move down through them.
\<close>

definition node_weight :: "('x, 'r, 'q, 'o) node \<Rightarrow> nat" where
  "node_weight n =
     (if collects_left n then (case n of NestedLoopJoinNode t \<Rightarrow> if is_left_broadcast_safe t then 3 else 4 | _ \<Rightarrow> 3) else 1)"

primrec coalesces :: "('x, 'r, 'q, 'o) plan \<Rightarrow> nat" where
  "coalesces (Plan n cs) = (if is_network_coalesce n then 1 else 0) + sum_list (map coalesces cs)"

primrec weight :: "('x, 'r, 'q, 'o) plan \<Rightarrow> nat" where
  "weight (Plan n cs) =
     node_weight n * (1 + (if is_network_coalesce n then 0 else sum_list (map coalesces cs))) + sum_list (map weight cs)"

text \<open>Passes keep certain nodes where they are, below a coalesce in particular.\<close>

definition keeps :: "(('x, 'r, 'q, 'o) node \<Rightarrow> bool) \<Rightarrow> ('x, 'r, 'q, 'o) plan \<Rightarrow> ('x, 'r, 'q, 'o) plan \<Rightarrow> bool" where
  "keeps P p q \<longleftrightarrow> (P (node_of p) \<longrightarrow> P (node_of q)) \<and> (coalesced_over P [p] \<longrightarrow> coalesced_over P [q])"

definition stable :: "(('x, 'r, 'q, 'o) node \<Rightarrow> bool) \<Rightarrow> bool" where
  "stable P \<longleftrightarrow> (\<forall>n. P n \<longrightarrow> is_broadcast n \<or> is_network_broadcast n)"

text \<open>
  A closure of a top-down pass gives a well-formed node without boundaries, and goes on with children
  that are smaller than the node it was given.
\<close>

definition good_step :: "(('x, 'r, 'q, 'o) plan \<Rightarrow> ('e, ('x, 'r, 'q, 'o) plan \<times> bool) res) \<Rightarrow> bool" where
  "good_step f \<longleftrightarrow>
     (\<forall>p q ch. f p = Inr (q, ch) \<longrightarrow> local_plan p \<longrightarrow>
        wf_node (node_of q) (length (kids q)) \<and> \<not> is_network_boundary (node_of q) \<and>
        (\<forall>c \<in> set (kids q). local_plan c))"

definition shrinks :: "(('x, 'r, 'q, 'o) plan \<Rightarrow> ('e, ('x, 'r, 'q, 'o) plan \<times> bool) res) \<Rightarrow> bool" where
  "shrinks f \<longleftrightarrow> (\<forall>p q ch c. f p = Inr (q, ch) \<longrightarrow> c \<in> set (kids q) \<longrightarrow> weight c < weight p)"

section \<open>Rebuilt nodes\<close>

text \<open>What rebuilding over new children can change of a node.\<close>

lemma replace_children_cases:
  assumes "planner_ok env" "replace_children env n cs = Inr n'"
  obtains "n' = n" "\<not> is_isolator_union n"
  | u u' where "n = IsolatorUnionNode u" "n' = IsolatorUnionNode u'" "length (children u) = length cs"
      "length (children u') = length cs" "task_map_inv u'"
  | co co' where "n = NetworkCoalesceNode co" "n' = NetworkCoalesceNode co'" "co_input_stage co' = co_input_stage co"
proof (cases n)
  case (IsolatorUnionNode u)
  let ?u = "with_children u (replicate (length (children u)) (Plan n []))"
  obtain u1 where u1: "with_new_children (partitions_of env) (pl_union_new env) ?u cs = Inr u1" "n' = union_node u1"
    using assms(2) IsolatorUnionNode by (auto simp: replace_children_def bind_res_eq_Inr)
  then have len: "length cs = length (children u)"
    and f: "from_children_and_annotations (partitions_of env) (pl_union_new env) cs (child_annotations u) (length (task_idx_map u)) = Inr u1"
    by (auto simp: with_new_children_def with_children_def split: if_splits)
  have "task_map_inv u1" "children u1 = cs"
    using from_children_Inr [OF f] by (simp_all add: union_inv_def)
  then show ?thesis
    using that(2) [OF IsolatorUnionNode] u1(2) len by (simp add: union_node_def task_map_inv_def with_children_def)
next
  case (NetworkCoalesceNode co)
  then show ?thesis
    using assms(2) that(3) by (auto simp: replace_children_def bind_res_eq_Inr dest: coalesce_new_children_stage)
next
  case (ShuffleNode sh)
  then show ?thesis
    using assms(2) that(1) by (auto simp: replace_children_def bind_res_eq_Inr is_isolator_union_def dest!: shuffle_new_children_stage)
next
  case (NetworkBroadcastNode br)
  then show ?thesis
    using assms(2) that(1) by (auto simp: replace_children_def bind_res_eq_Inr is_isolator_union_def dest!: broadcast_new_children_stage)
qed (use assms that(1) in \<open>auto simp: replace_children_def planner_ok_def is_isolator_union_def split: if_splits\<close>)

lemma replace_children_stage:
  "planner_ok env \<Longrightarrow> replace_children env n cs = Inr n' \<Longrightarrow> input_stage n' = input_stage n"
  by (erule (1) replace_children_cases) auto

lemma replace_children_wf:
  "planner_ok env \<Longrightarrow> replace_children env n cs = Inr n' \<Longrightarrow> wf_node n (length cs) \<Longrightarrow> wf_node n' (length cs)"
  by (erule (1) replace_children_cases) (auto simp: wf_node_def split: option.splits)

lemma rebuilt_plan:
  assumes "rebuilt kids (rebuild_plan env) p qs r"
  obtains n' where "r = Plan n' qs" "replace_children env (node_of p) qs = Inr n' \<or> (n' = node_of p \<and> qs = kids p)"
  using assms by (cases p) (auto simp: rebuilt_def rebuild_plan_def bind_res_eq_Inr)

lemma stable_broadcast [simp]: "stable is_broadcast" "stable is_network_broadcast"
  by (simp_all add: stable_def)

lemma keeps_refl [simp]: "keeps P p p"
  by (simp add: keeps_def)

lemma keeps_trans: "keeps P p q \<Longrightarrow> keeps P q r \<Longrightarrow> keeps P p r"
  by (auto simp: keeps_def)

lemma coalesced_over_iff:
  "coalesced_over P cs \<longleftrightarrow> (\<exists>c rest. cs = Plan (CoalescePartitionsNode None) [c] # rest \<and> P (node_of c))"
proof (cases cs)
  case (Cons c rest)
  then show ?thesis
    by (cases c) (auto simp: coalesced_over_def split: list.splits)
qed (simp add: coalesced_over_def)

lemma coalesced_over_keeps:
  "coalesced_over P cs \<Longrightarrow> list_all2 (keeps P) cs qs \<Longrightarrow> coalesced_over P qs"
  by (cases cs; cases qs) (auto simp: coalesced_over_iff keeps_def)

lemma keeps_rebuilt:
  assumes "planner_ok env" "stable P" "rebuilt kids (rebuild_plan env) p qs r" "list_all2 (keeps P) (kids p) qs"
  shows "keeps P p r"
proof -
  obtain n' where r: "r = Plan n' qs" and n': "replace_children env (node_of p) qs = Inr n' \<or> (n' = node_of p \<and> qs = kids p)"
    by (rule rebuilt_plan [OF assms(3)])
  have same: "n' = node_of p" if "P (node_of p) \<or> node_of p = CoalescePartitionsNode None"
  proof -
    have "\<not> is_isolator_union (node_of p)" "\<not> is_network_coalesce (node_of p)"
      using that assms(2) by (cases "node_of p"; auto simp: stable_def is_broadcast_def is_network_broadcast_def is_isolator_union_def is_network_coalesce_def)+
    then show ?thesis
      using n' by (auto elim!: replace_children_cases [OF assms(1)] simp: is_isolator_union_def is_network_coalesce_def)
  qed
  moreover have "coalesced_over P [r]" if over: "coalesced_over P [p]"
  proof -
    obtain c where p: "p = Plan (CoalescePartitionsNode None) [c]" "P (node_of c)"
      using over by (auto simp: coalesced_over_iff)
    then obtain d where "qs = [d]" "keeps P c d"
      using assms(4) by (auto simp: list_all2_Cons1)
    then show ?thesis
      using same p r by (auto simp: coalesced_over_iff keeps_def)
  qed
  ultimately show ?thesis
    using r by (auto simp: keeps_def)
qed

section \<open>The passes before injection\<close>

lemma local_plan_Plan:
  "local_plan (Plan n cs) \<longleftrightarrow> wf_node n (length cs) \<and> \<not> is_network_boundary n \<and> (\<forall>c \<in> set cs. local_plan c)"
  by (auto simp: local_plan_def list_all_iff)

lemma coalesces_child: "c \<in> set cs \<Longrightarrow> coalesces c \<le> sum_list (map coalesces cs)"
  by (auto intro: member_le_sum_list)

lemma weight_child: "c \<in> set cs \<Longrightarrow> weight c \<le> sum_list (map weight cs)"
  by (auto intro: member_le_sum_list)

lemma node_weight_pos [simp]: "0 < node_weight n"
  by (simp add: node_weight_def split: node.splits)

lemma weight_kids: "c \<in> set (kids p) \<Longrightarrow> weight c < weight p"
  by (cases p) (use weight_child node_weight_pos in \<open>fastforce intro: le_less_trans\<close>)

lemma broadcast_ready_Plan:
  "broadcast_ready P (Plan n cs) \<longleftrightarrow>
     (can_broadcast_left_input n \<longrightarrow> coalesced_over P cs) \<and> (\<forall>c \<in> set cs. broadcast_ready P c)"
  by (simp add: broadcast_ready_def list_all_iff)

lemma list_all2_right: "list_all2 R xs ys \<Longrightarrow> (\<And>x y. R x y \<Longrightarrow> P y) \<Longrightarrow> \<forall>y \<in> set ys. P y"
  by (induction rule: list_all2_induct) auto

text \<open>A rewritten node over rewritten children.\<close>

lemma local_rebuilt:
  assumes "planner_ok env" "rebuilt kids (rebuild_plan env) q qs r" "list_all2 R (kids q) qs"
    "\<And>c d. R c d \<Longrightarrow> local_plan d" "wf_node (node_of q) (length (kids q))" "\<not> is_network_boundary (node_of q)"
  shows "local_plan r"
proof -
  obtain n' where r: "r = Plan n' qs" and n': "replace_children env (node_of q) qs = Inr n' \<or> (n' = node_of q \<and> qs = kids q)"
    by (rule rebuilt_plan [OF assms(2)])
  have len: "length qs = length (kids q)"
    using assms(3) by (simp add: list_all2_lengthD)
  have "wf_node n' (length qs)" "\<not> is_network_boundary n'"
    using n' assms(5,6) len replace_children_wf [OF assms(1), of "node_of q" qs n']
      replace_children_stage [OF assms(1), of "node_of q" qs n']
    by (auto simp: is_network_boundary_def)
  moreover have "\<forall>c \<in> set qs. local_plan c"
    by (rule list_all2_right [OF assms(3,4)])
  ultimately show ?thesis
    using r by (simp add: local_plan_Plan)
qed

lemma ready_rebuilt:
  assumes "planner_ok env" "stable P" "rebuilt kids (rebuild_plan env) q qs r"
    "list_all2 (\<lambda>c d. keeps P c d \<and> broadcast_ready P d) (kids q) qs"
    "can_broadcast_left_input (node_of q) \<longrightarrow> coalesced_over P (kids q)"
  shows "broadcast_ready P r"
proof -
  obtain n' where r: "r = Plan n' qs" and n': "replace_children env (node_of q) qs = Inr n' \<or> (n' = node_of q \<and> qs = kids q)"
    by (rule rebuilt_plan [OF assms(3)])
  have children: "list_all2 (keeps P) (kids q) qs" "\<forall>d \<in> set qs. broadcast_ready P d"
    using assms(4) by (auto simp: list_all2_conv_all_nth in_set_conv_nth)
  have "can_broadcast_left_input n' \<Longrightarrow> can_broadcast_left_input (node_of q)"
    using n' by (auto simp: can_broadcast_left_input_def elim!: replace_children_cases [OF assms(1)])
  then show ?thesis
    using r children assms(5) coalesced_over_keeps by (auto simp: broadcast_ready_Plan)
qed

lemma strip_coalesce_cases: "strip_coalesce p = p \<or> strip_coalesce p \<in> set (kids p)"
  by (auto simp: strip_coalesce_def is_plain_coalesce_def length_Suc_conv)

lemma strip_coalesce_local: "local_plan p \<Longrightarrow> local_plan (strip_coalesce p)"
  using strip_coalesce_cases [of p] by (cases p) (auto simp: local_plan_Plan)

lemma swapped_safe: "\<not> is_left_broadcast_safe t \<Longrightarrow> t \<noteq> FullJoin \<Longrightarrow> is_left_broadcast_safe (swapped_type t)"
  by (cases t) (simp_all add: is_left_broadcast_safe_def swapped_type_def)

lemma normalize_step_cases:
  assumes "normalize_step ses p = Inr (q, ch)"
  obtains "q = p" "\<not> ch"
  | t na on l r where "p = Plan (HashJoinNode CollectLeft t na on) [l, r]" "ch"
      "q = Plan (HashJoinNode Partitioned t na on)
         [Plan (RepartitionNode (Hash (map fst on) (se_target_partitions ses)) False) [strip_coalesce l],
          Plan (RepartitionNode (Hash (map snd on) (se_target_partitions ses)) False) [r]]"
  | t l r n where "p = Plan (NestedLoopJoinNode t) [l, r]" "ch" "\<not> is_left_broadcast_safe t" "t \<noteq> FullJoin"
      "is_plain_coalesce l \<Longrightarrow> replace_children (se_planner ses) (NestedLoopJoinNode t) [strip_coalesce l, r] = Inr n"
      "\<not> is_plain_coalesce l \<Longrightarrow> n = NestedLoopJoinNode t"
      "se_swap_inputs ses (Plan n [strip_coalesce l, r]) = Inr q"
  using assms
  by (auto simp: normalize_step_def collect_left_to_partitioned_def hash_repartition_def swap_nested_loop_join_def
      strip_coalesce_def bind_res_eq_Inr split: tree.splits node.splits list.splits if_splits)

lemma good_step_same:
  assumes "local_plan p"
  shows "wf_node (node_of p) (length (kids p)) \<and> \<not> is_network_boundary (node_of p) \<and>
    (\<forall>c \<in> set (kids p). local_plan c)"
  using assms by (cases p) (auto simp: local_plan_Plan)

lemma wf_other [simp]: "wf_node (OtherNode o') k" "wf_node (CoalescePartitionsNode f) k" "wf_node (HashJoinNode m t na on) 2"
  "wf_node (NestedLoopJoinNode t) 2" "wf_node (RepartitionNode pt b) (Suc 0)" "wf_node (BroadcastNode k') (Suc 0)"
  by (simp_all add: wf_node_def collects_left_def)

lemma plain_not_boundary [simp]: "\<not> is_network_boundary (OtherNode o')" "\<not> is_network_boundary (CoalescePartitionsNode f)"
  "\<not> is_network_boundary (HashJoinNode m t na on)" "\<not> is_network_boundary (NestedLoopJoinNode t)"
  "\<not> is_network_boundary (RepartitionNode pt b)" "\<not> is_network_boundary (BroadcastNode k')"
  by (simp_all add: is_network_boundary_def)

lemma normalize_good:
  assumes ok: "planner_ok (se_planner ses)" "swap_ok ses"
  shows "good_step (normalize_step ses)"
  unfolding good_step_def
proof (intro allI impI)
  fix p q ch
  assume step: "normalize_step ses p = Inr (q, ch)" and p: "local_plan p"
  show "wf_node (node_of q) (length (kids q)) \<and> \<not> is_network_boundary (node_of q) \<and>
      (\<forall>c \<in> set (kids q). local_plan c)"
    using step
  proof (cases rule: normalize_step_cases)
    case 1
    then show ?thesis
      using good_step_same p by simp
  next
    case (2 t na on l r)
    then have "local_plan (strip_coalesce l)" "local_plan r"
      using p strip_coalesce_local by (auto simp: local_plan_Plan)
    moreover have "wf_node (HashJoinNode Partitioned t na on) (Suc (Suc 0))"
      by (metis numeral_2_eq_2 wf_other(3))
    ultimately show ?thesis
      using 2 by (simp add: local_plan_Plan)
  next
    case (3 t l r n)
    have n: "n = NestedLoopJoinNode t"
      using 3 ok(1) by (cases "is_plain_coalesce l") (auto simp: replace_children_def planner_ok_def)
    have sides: "local_plan (strip_coalesce l)" "local_plan r"
      using p 3(1) strip_coalesce_local by (auto simp: local_plan_Plan)
    have two: "wf_node (NestedLoopJoinNode (swapped_type t)) (Suc (Suc 0))"
      by (metis numeral_2_eq_2 wf_other(4))
    from 3(7) ok(2) n consider "q = Plan (NestedLoopJoinNode (swapped_type t)) [r, strip_coalesce l]"
      | o' where "q = Plan (OtherNode o') [Plan (NestedLoopJoinNode (swapped_type t)) [r, strip_coalesce l]]"
      unfolding swap_ok_def by blast
    then show ?thesis
      by cases (use sides two in \<open>simp_all add: local_plan_Plan\<close>)
  qed
qed

lemma broadcast_build_Some:
  assumes "broadcast_build build = Some b"
  shows "b = coalesced_broadcast (strip_coalesce build) \<or> (b = Plan (CoalescePartitionsNode None) [build] \<and> is_broadcast (node_of build))"
  using assms by (auto simp: broadcast_build_def strip_coalesce_def is_broadcast_def split: if_splits node.splits)

lemma broadcast_build_props:
  assumes "broadcast_build build = Some b"
  shows "local_plan build \<Longrightarrow> local_plan b" "coalesced_over is_broadcast (b # rest)"
  using broadcast_build_Some [OF assms] strip_coalesce_local [of build]
  by (auto simp: coalesced_broadcast_def local_plan_Plan coalesced_over_iff is_broadcast_def)

lemma broadcast_build_None:
  assumes "broadcast_build build = None"
  shows "coalesced_over is_broadcast (build # rest)"
proof -
  have plain: "is_plain_coalesce build" and "is_broadcast (node_of (hd (kids build)))"
    using assms by (auto simp: broadcast_build_def is_broadcast_def split: if_splits node.splits)
  then show ?thesis
    by (auto simp: coalesced_over_def is_plain_coalesce_def length_Suc_conv)
qed

lemma insert_broadcast_cases:
  assumes "insert_broadcast_step ses p = Inr (q, ch)"
  obtains "q = p" "\<not> ch" "can_broadcast_left_input (node_of p) \<longrightarrow> kids p = [] \<or> broadcast_build (hd (kids p)) = None"
  | n build rest b where "p = Plan n (build # rest)" "ch" "can_broadcast_left_input n" "broadcast_build build = Some b"
      "rebuild_plan (se_planner ses) p (b # rest) = Inr q"
  using assms
  by (cases p) (auto simp: insert_broadcast_step_def bind_res_eq_Inr split: if_splits list.splits option.splits)

lemma can_broadcast_collects: "can_broadcast_left_input n \<Longrightarrow> collects_left n \<and> \<not> is_isolator_union n \<and> \<not> is_network_coalesce n"
  by (cases n) (simp_all add: can_broadcast_left_input_def collects_left_def is_isolator_union_def is_network_coalesce_def)

lemma can_broadcast_joins: "can_broadcast_left_input n \<Longrightarrow> wf_node n k \<longleftrightarrow> k = 2"
  by (cases n) (simp_all add: can_broadcast_left_input_def wf_node_def collects_left_def)

lemma keeps_join: "can_broadcast_left_input (node_of c) \<Longrightarrow> keeps is_broadcast c d"
  by (cases "node_of c") (simp_all add: keeps_def coalesced_over_def can_broadcast_left_input_def is_broadcast_def)

lemma insert_broadcast_rebuilt:
  assumes "planner_ok (se_planner ses)" "can_broadcast_left_input n" "rebuild_plan (se_planner ses) (Plan n cs) bs = Inr q"
  shows "q = Plan n bs"
  using assms can_broadcast_collects [OF assms(2)]
  by (auto simp: rebuild_plan_def bind_res_eq_Inr is_isolator_union_def is_network_coalesce_def elim!: replace_children_cases [OF assms(1)])

lemma insert_broadcast_good:
  assumes ok: "planner_ok (se_planner ses)"
  shows "good_step (insert_broadcast_step ses)"
  unfolding good_step_def
proof (intro allI impI)
  fix p q ch
  assume step: "insert_broadcast_step ses p = Inr (q, ch)" and p: "local_plan p"
  show "wf_node (node_of q) (length (kids q)) \<and> \<not> is_network_boundary (node_of q) \<and>
      (\<forall>c \<in> set (kids q). local_plan c)"
    using step
  proof (cases rule: insert_broadcast_cases)
    case 1
    then show ?thesis
      using good_step_same p by simp
  next
    case (2 n build rest b)
    then have q: "q = Plan n (b # rest)"
      using insert_broadcast_rebuilt [OF ok] by blast
    have "local_plan build"
      using p 2(1) by (simp add: local_plan_Plan)
    then have "local_plan b"
      using broadcast_build_props(1) [OF 2(4)] by blast
    then show ?thesis
      using p 2(1) q by (auto simp: local_plan_Plan)
  qed
qed

lemma insert_union_good: "good_step (insert_union_step ses)"
  unfolding good_step_def
proof (intro allI impI)
  fix p q ch
  assume step: "insert_union_step ses p = Inr (q, ch)" and p: "local_plan p"
  show "wf_node (node_of q) (length (kids q)) \<and> \<not> is_network_boundary (node_of q) \<and>
      (\<forall>c \<in> set (kids q). local_plan c)"
  proof (cases "node_of p = UnionNode")
    case True
    then obtain u where "new_single_task (partitions_of (se_planner ses)) (pl_union_new (se_planner ses)) (kids p) = Inr u"
      and q: "q = Plan (union_node u) (kids p)"
      using step by (auto simp: insert_union_step_def bind_res_eq_Inr)
    then have "children u = kids p"
      unfolding new_single_task_def by (blast dest: from_children_Inr(1))
    then show ?thesis
      using q good_step_same [OF p] by (simp add: union_node_def with_children_def wf_node_def)
  next
    case False
    then show ?thesis
      using step good_step_same p by (simp add: insert_union_step_def)
  qed
qed

lemma honest_steps: "honest (normalize_step ses)" "honest (insert_broadcast_step ses)" "honest (insert_union_step ses)"
proof -
  show "honest (normalize_step ses)"
    unfolding honest_def by (blast elim: normalize_step_cases)
  show "honest (insert_broadcast_step ses)"
    unfolding honest_def by (blast elim: insert_broadcast_cases)
  show "honest (insert_union_step ses)"
    by (auto simp: honest_def insert_union_step_def bind_res_eq_Inr)
qed

section \<open>The top-down passes terminate\<close>

lemma strip_coalesce_weight: "weight (strip_coalesce p) \<le> weight p" "coalesces (strip_coalesce p) \<le> coalesces p"
proof -
  show "weight (strip_coalesce p) \<le> weight p"
    using strip_coalesce_cases [of p] weight_kids [of "strip_coalesce p" p] by auto
  have "coalesces c \<le> coalesces p" if "c \<in> set (kids p)" for c
    using that coalesces_child [of c "kids p"] by (cases p) auto
  then show "coalesces (strip_coalesce p) \<le> coalesces p"
    using strip_coalesce_cases [of p] by auto
qed

lemma join_weight: "collects_left n \<Longrightarrow> 3 \<le> node_weight n \<and> \<not> is_network_coalesce n"
  by (cases n) (simp_all add: node_weight_def collects_left_def is_network_coalesce_def)

lemma normalize_shrinks:
  assumes ok: "planner_ok (se_planner ses)" "swap_ok ses"
  shows "shrinks (normalize_step ses)"
  unfolding shrinks_def
proof (intro allI impI)
  fix p q ch c
  assume step: "normalize_step ses p = Inr (q, ch)" and c: "c \<in> set (kids q)"
  show "weight c < weight p"
    using step
  proof (cases rule: normalize_step_cases)
    case 1
    then show ?thesis
      using weight_kids c by simp
  next
    case (2 t na on l r)
    have "collects_left (HashJoinNode CollectLeft t na on)"
      by (simp add: collects_left_def)
    then show ?thesis
      using c 2 strip_coalesce_weight [of l] join_weight
      by (auto simp: node_weight_def collects_left_def is_network_coalesce_def)
  next
    case (3 t l r n)
    have n: "n = NestedLoopJoinNode t"
      using 3 ok(1) by (cases "is_plain_coalesce l") (auto simp: replace_children_def planner_ok_def)
    have safe: "is_left_broadcast_safe (swapped_type t)"
      using 3(3,4) by (rule swapped_safe)
    from 3(7) ok(2) n consider "q = Plan (NestedLoopJoinNode (swapped_type t)) [r, strip_coalesce l]"
      | o' where "q = Plan (OtherNode o') [Plan (NestedLoopJoinNode (swapped_type t)) [r, strip_coalesce l]]"
      unfolding swap_ok_def by blast
    then show ?thesis
      by cases (use c 3(1,3) safe strip_coalesce_weight [of l] in
        \<open>auto simp: node_weight_def collects_left_def is_network_coalesce_def\<close>)
  qed
qed

lemma insert_broadcast_shrinks:
  assumes ok: "planner_ok (se_planner ses)"
  shows "shrinks (insert_broadcast_step ses)"
  unfolding shrinks_def
proof (intro allI impI)
  fix p q ch c
  assume step: "insert_broadcast_step ses p = Inr (q, ch)" and c: "c \<in> set (kids q)"
  show "weight c < weight p"
    using step
  proof (cases rule: insert_broadcast_cases)
    case 1
    then show ?thesis
      using weight_kids c by simp
  next
    case (2 n build rest b)
    then have "q = Plan n (b # rest)"
      using insert_broadcast_rebuilt [OF ok] by blast
    then consider "c = b" | "c \<in> set (kids p)"
      using c 2(1) by auto
    then show ?thesis
    proof cases
      case 1
      have n: "3 \<le> node_weight n" "\<not> is_network_coalesce n"
        using join_weight can_broadcast_collects [OF 2(3)] by blast+
      have "weight b \<le> 2 * (1 + coalesces build) + weight build"
        using broadcast_build_Some [OF 2(4)] strip_coalesce_weight [of build]
        by (auto simp: coalesced_broadcast_def node_weight_def collects_left_def is_network_coalesce_def)
      also have "\<dots> < 3 * (1 + coalesces build + sum_list (map coalesces rest)) + weight build"
        by simp
      also have "\<dots> \<le> weight p"
        using n mult_le_mono1 [OF n(1), of "1 + coalesces build + sum_list (map coalesces rest)"] 2(1) by simp
      finally show ?thesis
        using 1 by simp
    qed (rule weight_kids)
  qed
qed

lemma insert_union_shrinks: "shrinks (insert_union_step ses)"
  using weight_kids by (fastforce simp: shrinks_def insert_union_step_def bind_res_eq_Inr split: if_splits)

text \<open>What pushing a limit into the input of a boundary changes.\<close>

lemma fetch_input_cases:
  assumes "fetch_input ses input limit = Inr input'"
  obtains "input' = input"
  | o' c c' where "input = Plan (OtherNode o') [c]" "rebuild_plan (se_planner ses) input [c'] = Inr input'"
      "se_with_fetch ses c limit = Some c' \<or> c' = Plan (OtherNode (se_local_limit ses limit)) [c]"
  | "se_with_fetch ses input limit = Some input' \<or> input' = Plan (OtherNode (se_local_limit ses limit)) [input]"
proof (cases "projection_input ses input")
  case None
  then have "input' = input \<or> input' = (case se_with_fetch ses input limit of Some q \<Rightarrow> q | None \<Rightarrow> Plan (OtherNode (se_local_limit ses limit)) [input])"
    using assms unfolding fetch_input_def apply_fetch_through_projection_def by (simp split: if_splits)
  then show ?thesis
    using that(1,3) by (cases "se_with_fetch ses input limit") auto
next
  case (Some c)
  let ?c = "case se_with_fetch ses c limit of Some q \<Rightarrow> q | None \<Rightarrow> Plan (OtherNode (se_local_limit ses limit)) [c]"
  have run: "input' = input \<or> rebuild_plan (se_planner ses) input [?c] = Inr input'"
    using assms Some unfolding fetch_input_def apply_fetch_through_projection_def by (simp split: if_splits)
  have c': "se_with_fetch ses c limit = Some ?c \<or> ?c = Plan (OtherNode (se_local_limit ses limit)) [c]"
    by (simp split: option.splits)
  obtain n cs where input: "input = Plan n cs"
    by (cases input)
  then obtain o' where c: "input = Plan (OtherNode o') [c]"
    using Some by (cases n) (auto simp: projection_input_def split: list.splits if_splits)
  show ?thesis
    using run that(1) that(2) [OF c _ c'] by blast
qed

lemma without_fetch_cases:
  assumes "without_fetch n' = without_fetch n"
  obtains "n' = n" | f g where "n' = CoalescePartitionsNode f" "n = CoalescePartitionsNode g"
    | f g where "n' = SortPreservingMergeNode f" "n = SortPreservingMergeNode g"
    | s f g where "n' = GlobalLimitNode s f" "n = GlobalLimitNode s g"
    | f g where "n' = OtherNode f" "n = OtherNode g"
    | f g fs gs where "n' = DistributedLeafNode f fs" "n = DistributedLeafNode g gs"
  using assms by (cases n; cases n') (simp_all add: without_fetch_def)

lemma limit_weight:
  assumes "fetch_ok ses" "se_with_fetch ses p n = Some q \<or> q = Plan (OtherNode (se_local_limit ses n)) [p]"
  shows "coalesces q = coalesces p \<and> weight q \<le> weight p + 1 + coalesces p"
proof -
  consider n n' cs where "p = Plan n cs" "q = Plan n' cs" "without_fetch n' = without_fetch n"
    | "q = Plan (OtherNode (se_local_limit ses n)) [p]"
    using assms unfolding fetch_ok_def by (metis tree.collapse)
  then show ?thesis
  proof cases
    case (1 n n' cs)
    have "is_network_coalesce n' = is_network_coalesce n" "node_weight n' = node_weight n"
      using 1(3) by (cases rule: without_fetch_cases; simp add: is_network_coalesce_def node_weight_def collects_left_def)+
    then show ?thesis
      using 1(1,2) by simp
  qed (simp add: is_network_coalesce_def node_weight_def collects_left_def)
qed

lemma fetch_input_weight:
  assumes ok: "planner_ok (se_planner ses)" "fetch_ok ses" and step: "fetch_input ses input limit = Inr input'"
  shows "coalesces input' = coalesces input \<and> weight input' \<le> weight input + 1 + coalesces input"
  using step
proof (cases rule: fetch_input_cases)
  case (2 o' c c')
  have "input' = Plan (OtherNode o') [c']"
    using 2(1,2) ok(1) by (auto simp: rebuild_plan_def bind_res_eq_Inr replace_children_def planner_ok_def)
  then show ?thesis
    using limit_weight [OF ok(2) 2(3)] 2(1) by (simp add: is_network_coalesce_def node_weight_def collects_left_def)
qed (use limit_weight [OF ok(2)] in auto)

lemma push_fetch_child_cases:
  assumes "push_fetch_child ses limit c = Inr c'"
  obtains "c' = c"
  | co input input' where "c = Plan (NetworkCoalesceNode co) [input]" "fetch_input ses input limit = Inr input'"
      "c' = Plan (NetworkCoalesceNode co) [input']"
proof (cases "\<exists>co l input. c = Plan (NetworkCoalesceNode co) [input] \<and> co_input_stage co = Local l")
  case True
  then show ?thesis
    using assms that(2) by (auto simp: push_fetch_child_def bind_res_eq_Inr)
next
  case False
  obtain n cs where c: "c = Plan n cs"
    by (cases c)
  have "c' = c"
    using assms False c by (cases n) (auto simp: push_fetch_child_def split: list.splits stage.splits)
  then show ?thesis
    by (rule that(1))
qed

lemma push_fetch_step_cases:
  assumes "push_fetch_step ses p = Inr (q, ch)"
  obtains "q = p" "\<not> ch"
  | limit n cs cs' n' where "p = Plan n cs" "ch" "fetch_required_from_child ses p = Some limit"
      "list_all2 (\<lambda>c c'. push_fetch_child ses limit c = Inr c') cs cs'"
      "replace_children (se_planner ses) n cs' = Inr n'" "q = Plan n' cs'"
proof (cases p)
  case (Plan n cs)
  show ?thesis
    using assms that(1) that(2) [OF Plan]
    by (auto simp: push_fetch_step_def Plan rebuild_plan_def bind_res_eq_Inr map_res_Inr_iff split: option.splits if_splits)
qed

lemma push_fetch_shrinks:
  assumes ok: "planner_ok (se_planner ses)" "fetch_ok ses"
  shows "shrinks (push_fetch_step ses)"
  unfolding shrinks_def
proof (intro allI impI)
  fix p q ch d
  assume step: "push_fetch_step ses p = Inr (q, ch)" and d: "d \<in> set (kids q)"
  show "weight d < weight p"
    using step
  proof (cases rule: push_fetch_step_cases)
    case 1
    then show ?thesis
      using weight_kids d by simp
  next
    case (2 limit n cs cs' n')
    have plain: "\<not> is_network_coalesce n"
      using 2(3) by (cases n) (auto simp: 2(1) fetch_required_from_child_def plan_fetch_def is_network_coalesce_def)
    obtain c where c: "c \<in> set cs" "push_fetch_child ses limit c = Inr d"
      using d 2(4,6)
      by (auto simp: list_all2_conv_all_nth in_set_conv_nth) (metis nth_mem)
    have "weight d \<le> weight c + coalesces c"
      using c(2)
    proof (cases rule: push_fetch_child_cases)
      case (2 co input input')
      then show ?thesis
        using fetch_input_weight [OF ok 2(2)] by (simp add: is_network_coalesce_def node_weight_def collects_left_def)
    qed simp
    also have "\<dots> < 1 + sum_list (map coalesces cs) + sum_list (map weight cs)"
      using coalesces_child [OF c(1)] weight_child [OF c(1)] by simp
    also have "\<dots> \<le> weight p"
      using plain mult_le_mono1 [OF Suc_leI [OF node_weight_pos], of "1 + sum_list (map coalesces cs)" n] by (simp add: 2(1))
    finally show ?thesis .
  qed
qed

lemma honest_push_fetch: "honest (push_fetch_step ses)"
  unfolding honest_def by (blast elim: push_fetch_step_cases)

section \<open>The passes before injection establish their shape\<close>

lemma good_pass:
  assumes "planner_ok env" "transform_down_law kids (rebuild_plan env) td (stateless f)" "honest f" "good_step f" "shrinks f"
    and step: "\<And>p q ch qs r. local_plan p \<Longrightarrow> f p = Inr (q, ch) \<Longrightarrow>
      list_all2 (\<lambda>c d. local_plan d \<and> R c d) (kids q) qs \<Longrightarrow> rebuilt kids (rebuild_plan env) q qs r \<Longrightarrow> R p r"
    and p: "local_plan p" "td (stateless f) p s = Inr (t, s')"
  shows "local_plan (data t) \<and> R p (data t)"
proof -
  have "tnr t = Continue \<and> (local_plan (data t) \<and> R p (data t)) \<and> (\<not> changed t \<longrightarrow> data t = p)"
  proof (rule down_pass [where w = weight and I = local_plan, OF assms(2,3) _ _ p])
    show "local_plan c \<and> weight c < weight p" if "local_plan p" "f p = Inr (q, ch)" "c \<in> set (kids q)" for p q ch c
      using that assms(4,5) unfolding good_step_def shrinks_def by blast
    show "local_plan r \<and> R p r" if p: "local_plan p" "f p = Inr (q, ch)"
      and children: "list_all2 (\<lambda>c d. local_plan d \<and> R c d) (kids q) qs" "rebuilt kids (rebuild_plan env) q qs r" for p q ch qs r
    proof -
      have "wf_node (node_of q) (length (kids q))" "\<not> is_network_boundary (node_of q)"
        using assms(4) p unfolding good_step_def by blast+
      then have "local_plan r"
        by (intro local_rebuilt [OF assms(1) children(2,1)]) auto
      then show ?thesis
        using step [OF p children] by blast
    qed
  qed
  then show ?thesis by blast
qed

lemma normalize_local:
  assumes "planner_ok (se_planner ses)" "swap_ok ses"
    "transform_down_law kids (rebuild_plan (se_planner ses)) td (stateless (normalize_step ses))"
    "local_plan p" "normalize_collect_joins ses td p = Inr q"
  shows "local_plan q"
proof -
  obtain t s' where t: "td (stateless (normalize_step ses)) p () = Inr (t, s')" "q = data t"
    using assms(5) by (auto simp: normalize_collect_joins_def bind_res_eq_Inr)
  have "local_plan (data t) \<and> True"
    by (rule good_pass [OF assms(1,3) honest_steps(1) normalize_good [OF assms(1,2)] normalize_shrinks [OF assms(1,2)] _ assms(4) t(1)]) simp
  then show ?thesis
    using t(2) by simp
qed

lemma insert_broadcast_ready:
  assumes "planner_ok (se_planner ses)"
    "transform_down_law kids (rebuild_plan (se_planner ses)) td (stateless (insert_broadcast_step ses))"
    "local_plan p" "insert_broadcast_execs ses td p = Inr q"
  shows "local_plan q \<and> (pl_broadcast_joins (se_planner ses) \<longrightarrow> broadcast_ready is_broadcast q)"
proof (cases "pl_broadcast_joins (se_planner ses)")
  case True
  then obtain t s' where t: "td (stateless (insert_broadcast_step ses)) p () = Inr (t, s')" "q = data t"
    using assms(4) by (auto simp: insert_broadcast_execs_def bind_res_eq_Inr)
  have "local_plan (data t) \<and> (\<not> can_broadcast_left_input (node_of p) \<longrightarrow> keeps is_broadcast p (data t)) \<and> broadcast_ready is_broadcast (data t)"
  proof (rule good_pass [OF assms(1,2) honest_steps(2) insert_broadcast_good [OF assms(1)] insert_broadcast_shrinks [OF assms(1)] _ assms(3) t(1)])
    fix p q ch qs r
    assume p: "local_plan p" and step: "insert_broadcast_step ses p = Inr (q, ch)"
      and children: "list_all2 (\<lambda>c d. local_plan d \<and> (\<not> can_broadcast_left_input (node_of c) \<longrightarrow> keeps is_broadcast c d) \<and>
        broadcast_ready is_broadcast d) (kids q) qs" and r: "rebuilt kids (rebuild_plan (se_planner ses)) q qs r"
    have keeps: "list_all2 (\<lambda>c d. keeps is_broadcast c d \<and> broadcast_ready is_broadcast d) (kids q) qs"
      using children
    proof (rule list_all2_mono)
      fix c d
      assume "local_plan d \<and> (\<not> can_broadcast_left_input (node_of c) \<longrightarrow> keeps is_broadcast c d) \<and> broadcast_ready is_broadcast d"
      moreover have "can_broadcast_left_input (node_of c) \<Longrightarrow> keeps is_broadcast c d"
        by (rule keeps_join)
      ultimately show "keeps is_broadcast c d \<and> broadcast_ready is_broadcast d"
        by blast
    qed
    have fed: "can_broadcast_left_input (node_of q) \<longrightarrow> coalesced_over is_broadcast (kids q)"
      using step
    proof (cases rule: insert_broadcast_cases)
      case 1
      show ?thesis
      proof
        assume can: "can_broadcast_left_input (node_of q)"
        have "length (kids p) = 2"
          using 1(1) p can_broadcast_joins [OF can] by (cases p) (auto simp: local_plan_Plan)
        then show "coalesced_over is_broadcast (kids q)"
          using 1 can broadcast_build_None by (cases "kids p") auto
      qed
    next
      case (2 n build rest b)
      then show ?thesis
        using insert_broadcast_rebuilt [OF assms(1), of n "build # rest" "b # rest" q] broadcast_build_props(2) [OF 2(4)] p
        by (auto simp: local_plan_Plan)
    qed
    have "keeps is_broadcast p r" if "\<not> can_broadcast_left_input (node_of p)"
    proof -
      have "q = p"
        using step that by (auto elim: insert_broadcast_cases)
      then show ?thesis
        using keeps_rebuilt [OF assms(1) _ r] keeps by (simp add: list_all2_mono)
    qed
    then show "(\<not> can_broadcast_left_input (node_of p) \<longrightarrow> keeps is_broadcast p r) \<and> broadcast_ready is_broadcast r"
      using ready_rebuilt [OF assms(1) _ r keeps fed] by simp
  qed
  then show ?thesis
    using t(2) by blast
next
  case False
  then show ?thesis
    using assms(3,4) by (simp add: insert_broadcast_execs_def)
qed

lemma insert_unions_ready:
  assumes "planner_ok (se_planner ses)"
    "transform_down_law kids (rebuild_plan (se_planner ses)) td (stateless (insert_union_step ses))"
    "local_plan p" "insert_children_isolator_unions ses td p = Inr q"
  shows "local_plan q \<and> (broadcast_ready is_broadcast p \<longrightarrow> broadcast_ready is_broadcast q)"
proof (cases "se_isolator_unions ses")
  case True
  then obtain t s' where t: "td (stateless (insert_union_step ses)) p () = Inr (t, s')" "q = data t"
    using assms(4) by (auto simp: insert_children_isolator_unions_def bind_res_eq_Inr)
  have "local_plan (data t) \<and> keeps is_broadcast p (data t) \<and> (broadcast_ready is_broadcast p \<longrightarrow> broadcast_ready is_broadcast (data t))"
  proof (rule good_pass [OF assms(1,2) honest_steps(3) insert_union_good insert_union_shrinks _ assms(3) t(1)])
    fix p q ch qs r
    assume p: "local_plan p" and step: "insert_union_step ses p = Inr (q, ch)"
      and children: "list_all2 (\<lambda>c d. local_plan d \<and> keeps is_broadcast c d \<and>
        (broadcast_ready is_broadcast c \<longrightarrow> broadcast_ready is_broadcast d)) (kids q) qs"
      and r: "rebuilt kids (rebuild_plan (se_planner ses)) q qs r"
    have same: "kids q = kids p" "can_broadcast_left_input (node_of q) \<longleftrightarrow> can_broadcast_left_input (node_of p)" "keeps is_broadcast p q"
      using step by (auto simp: insert_union_step_def bind_res_eq_Inr union_node_def can_broadcast_left_input_def keeps_def
          is_broadcast_def coalesced_over_def split: if_splits)
    have keeps: "list_all2 (keeps is_broadcast) (kids q) qs"
      using children by (rule list_all2_mono) blast
    moreover have "broadcast_ready is_broadcast r" if ready: "broadcast_ready is_broadcast p"
    proof (rule ready_rebuilt [OF assms(1) _ r])
      have "\<forall>c \<in> set (kids q). broadcast_ready is_broadcast c"
        using ready same(1) by (cases p) (simp add: broadcast_ready_Plan)
      then show "list_all2 (\<lambda>c d. keeps is_broadcast c d \<and> broadcast_ready is_broadcast d) (kids q) qs"
        using children by (auto simp: list_all2_conv_all_nth)
      show "can_broadcast_left_input (node_of q) \<longrightarrow> coalesced_over is_broadcast (kids q)"
        using ready same by (cases p) (simp add: broadcast_ready_Plan)
    qed simp
    ultimately show "keeps is_broadcast p r \<and> (broadcast_ready is_broadcast p \<longrightarrow> broadcast_ready is_broadcast r)"
      using keeps_trans [OF same(3) keeps_rebuilt [OF assms(1) _ r keeps]] by simp
  qed
  then show ?thesis
    using t(2) by blast
next
  case False
  then show ?thesis
    using assms(3,4) by (simp add: insert_children_isolator_unions_def)
qed

end
