(* ===== verification/QueryPlanner.thy ===== *)
theory QueryPlanner
  imports PlannerPasses
begin

text \<open>
  The distributed query planner (\<open>src/src/distributed_planner/distributed_query_planner.rs\<close>), which
  runs the passes in order, and what their composition guarantees for joins: a join that collects
  its build side runs in a single task, or its build side is broadcast to all of its tasks and the
  join emits no unmatched rows of that side.
\<close>

section \<open>The planner\<close>

text \<open>
  The engine's tree operations, the plans that the planner is given and the plans that it returns.
  \<open>DistributedExec\<close> has a plan and says whether metrics and dynamic filters are collected; the
  contents of \<open>AnalyzeExec\<close> beside its input belong to the engine.
\<close>

record ('x, 'r, 'q, 'o, 'e) rewriters =
  rw_down :: "('e plan_error, unit, ('x, 'r, 'q, 'o) plan) rewriter \<Rightarrow> ('e plan_error, unit, ('x, 'r, 'q, 'o) plan) rewriter"
  rw_up :: "('e plan_error, unit, ('x, 'r, 'q, 'o) plan) rewriter \<Rightarrow> ('e plan_error, unit, ('x, 'r, 'q, 'o) plan) rewriter"
  rw_down_up :: "('e plan_error, nat list \<times> nat, ('x, 'r, 'q, 'o) plan) rewriter \<Rightarrow>
    ('e plan_error, nat list \<times> nat, ('x, 'r, 'q, 'o) plan) rewriter \<Rightarrow>
    ('e plan_error, nat list \<times> nat, ('x, 'r, 'q, 'o) plan) rewriter"
  rw_exists :: "(('x, 'r, 'q, 'o) plan \<Rightarrow> bool) \<Rightarrow> ('x, 'r, 'q, 'o) plan \<Rightarrow> bool"

datatype ('p, 'a) original = EnginePlan 'p | AnalyzeExec 'a "('p, 'a) original" | PlannedExec 'p bool bool

datatype ('p, 'a) physical =
    NativePlan 'p
  | NativeAnalyze 'a "('p, 'a) physical"
  | DistributedExec 'p bool bool
  | DistributedAnalyze 'a "('p, 'a) physical"

definition create_distributed_exec :: "('x, 'r, 'q, 'o, 'e) session \<Rightarrow> 'p \<Rightarrow> ('p, 'a) physical" where
  "create_distributed_exec ses p = DistributedExec p (se_collect_metrics ses) (se_collect_dynamic_filters ses)"

definition has_boundary :: "('x, 'r, 'q, 'o, 'e) rewriters \<Rightarrow> ('x, 'r, 'q, 'o) plan \<Rightarrow> bool" where
  "has_boundary rw p = rw_exists rw (\<lambda>p. is_network_boundary (node_of p)) p"

text \<open>The leaves of a plan with boundaries set by the user are scaled to their task counts.\<close>

definition scale_leaf_step ::
  "('x, 'r, 'q, 'o, 'e) session \<Rightarrow> ('x, 'r, 'q, 'o) plan \<Rightarrow> nat \<Rightarrow> nat \<Rightarrow>
   ('e plan_error, (('x, 'r, 'q, 'o) plan \<times> bool) \<times> nat) res" where
  "scale_leaf_step ses p tc s =
     (if kids p \<noteq> [] then Inr ((p, False), s)
      else case pl_scale_up (se_planner ses) p tc of
             None \<Rightarrow> Inr ((p, False), s)
           | Some r \<Rightarrow> bind_res (engine r) (\<lambda>q. Inr ((q, True), s)))"

definition distribute_user_plan ::
  "('x, 'r, 'q, 'o, 'e) session \<Rightarrow> ('x, 'r, 'q, 'o, 'e) rewriters \<Rightarrow> ('x, 'r, 'q, 'o) plan \<Rightarrow>
   ('e plan_error, (('x, 'r, 'q, 'o) plan, 'a) physical) res" where
  "distribute_user_plan ses rw p =
     bind_res (transform_down_with_task_count (rw_down_up rw) Panic 1 (continuing (scale_leaf_step ses)) p 0) (\<lambda>(scaled, _).
     bind_res (prepare_network_boundaries (se_planner ses) (rw_down_up rw) (data scaled)) (\<lambda>plan.
       if \<not> has_boundary rw plan then Inr (NativePlan plan)
       else bind_res (push_fetch_into_network_coalesce ses (rw_down rw) plan) (\<lambda>plan.
              Inr (create_distributed_exec ses plan))))"

text \<open>The shape that injection starts from.\<close>

definition shape_plan ::
  "('x, 'r, 'q, 'o, 'e) session \<Rightarrow> ('x, 'r, 'q, 'o, 'e) rewriters \<Rightarrow> ('x, 'r, 'q, 'o) plan \<Rightarrow>
   ('e plan_error, ('x, 'r, 'q, 'o) plan) res" where
  "shape_plan ses rw p =
     bind_res (normalize_collect_joins ses (rw_down rw) p) (\<lambda>plan.
       (let plan = (if 1 < partitions_of (se_planner ses) plan then Plan (CoalescePartitionsNode None) [plan] else plan)
        in bind_res (insert_broadcast_execs ses (rw_down rw) plan) (\<lambda>plan.
           insert_children_isolator_unions ses (rw_down rw) plan)))"

definition distribute_plan ::
  "('x, 'r, 'q, 'o, 'e) session \<Rightarrow> ('x, 'r, 'q, 'o, 'e) rewriters \<Rightarrow> ('x, 'r, 'q, 'o) plan \<Rightarrow>
   ('e plan_error, (('x, 'r, 'q, 'o) plan, 'a) physical) res" where
  "distribute_plan ses rw original_plan =
     (if has_boundary rw original_plan then distribute_user_plan ses rw original_plan
      else
        bind_res (shape_plan ses rw original_plan) (\<lambda>plan.
          if se_dynamic_task_count ses then Inr (create_distributed_exec ses plan)
          else
            bind_res (inject_network_boundaries (se_planner ses) (cardinality_build (se_planner ses)) plan) (\<lambda>plan.
            bind_res (prepare_network_boundaries (se_planner ses) (rw_down_up rw) (erase plan)) (\<lambda>plan.
              if \<not> has_boundary rw plan then Inr (NativePlan original_plan)
              else
                bind_res (partial_reduce_below_network_shuffles ses (rw_up rw) plan) (\<lambda>plan.
                bind_res (push_fetch_into_network_coalesce ses (rw_down rw) plan) (\<lambda>plan.
                  Inr (create_distributed_exec ses plan)))))))"

primrec create_distributed_plan ::
  "('x, 'r, 'q, 'o, 'e) session \<Rightarrow> ('x, 'r, 'q, 'o, 'e) rewriters \<Rightarrow>
   ('a \<Rightarrow> (('x, 'r, 'q, 'o) plan, 'a) physical \<Rightarrow> ('e plan_error, 'a) res) \<Rightarrow>
   (('x, 'r, 'q, 'o) plan, 'a) original \<Rightarrow> ('e plan_error, (('x, 'r, 'q, 'o) plan, 'a) physical) res" where
  "create_distributed_plan ses rw replace_analyze (PlannedExec p m f) = Inr (DistributedExec p m f)"
| "create_distributed_plan ses rw replace_analyze (AnalyzeExec a input) =
     bind_res (create_distributed_plan ses rw replace_analyze input) (\<lambda>input.
       case input of
         DistributedExec _ _ _ \<Rightarrow> Inr (DistributedAnalyze a input)
       | _ \<Rightarrow> bind_res (replace_analyze a input) (\<lambda>a. Inr (NativeAnalyze a input)))"
| "create_distributed_plan ses rw replace_analyze (EnginePlan p) = distribute_plan ses rw p"

text \<open>The laws of the rewriters for the planner's closures.\<close>

definition rewriters_ok :: "('x, 'r, 'q, 'o, 'e) session \<Rightarrow> ('x, 'r, 'q, 'o, 'e) rewriters \<Rightarrow> bool" where
  "rewriters_ok ses rw \<longleftrightarrow>
     list_all (\<lambda>f. transform_down_law kids (rebuild_plan (se_planner ses)) (rw_down rw) (stateless f))
       [normalize_step ses, insert_broadcast_step ses, insert_union_step ses, push_fetch_step ses] \<and>
     transform_up_law kids (rebuild_plan (se_planner ses)) (rw_up rw) (stateless (partial_reduce_step ses)) \<and>
     transform_down_up_law kids (rebuild_plan (se_planner ses)) (rw_down_up rw) (up_push Panic)
       (up_pop Panic (continuing (prepare_step (se_planner ses)))) \<and>
     (\<forall>P p. rw_exists rw P p \<longleftrightarrow> \<not> all_plans (\<lambda>q. \<not> P q) p)"

section \<open>Where joins may run\<close>

definition collecting_join :: "('x, 'r, 'q, 'o) node \<Rightarrow> bool" where
  "collecting_join n =
     (case n of
        HashJoinNode mode _ _ _ \<Rightarrow> mode = CollectLeft
      | NestedLoopJoinNode _ \<Rightarrow> True
      | CrossJoinNode \<Rightarrow> True
      | _ \<Rightarrow> False)"

definition join_safe :: "('x, 'r, 'q, 'o) plan \<times> nat \<Rightarrow> bool" where
  "join_safe x \<longleftrightarrow>
     (collecting_join (node_of (fst x)) \<longrightarrow>
        snd x = 1 \<or>
        can_broadcast_left_input (node_of (fst x)) \<and> coalesced_over is_network_broadcast (kids (fst x)))"

definition joins_safe :: "('x, 'r, 'q, 'o) plan \<Rightarrow> nat \<Rightarrow> bool" where
  "joins_safe p k \<longleftrightarrow> list_all join_safe (counted_nodes p k)"

text \<open>A well-formed plan whose unions keep their task map, and one whose build sides are broadcast.\<close>

definition sound_plan :: "('x, 'r, 'q, 'o) plan \<Rightarrow> bool" where
  "sound_plan p \<longleftrightarrow> wf_plan p \<and> unions_ok p"

definition fed :: "bool \<Rightarrow> ('x, 'r, 'q, 'o) plan \<Rightarrow> bool" where
  "fed broadcast_joins p \<longleftrightarrow> sound_plan p \<and> (broadcast_joins \<longrightarrow> broadcast_ready is_network_broadcast p)"

definition merging :: "('x, 'r, 'q, 'o) node option \<Rightarrow> bool" where
  "merging parent =
     (case parent of Some (CoalescePartitionsNode _) \<Rightarrow> True | Some (SortPreservingMergeNode _) \<Rightarrow> True | _ \<Rightarrow> False)"

text \<open>
  What every pass after injection does to a plan that runs in \<open>k\<close> tasks: joins stay safe, and with
  more than one task network broadcasts stay in place.
\<close>

definition improves :: "nat \<Rightarrow> ('x, 'r, 'q, 'o) plan \<Rightarrow> ('x, 'r, 'q, 'o) plan \<Rightarrow> bool" where
  "improves k p q \<longleftrightarrow>
     sound_plan q \<and> (joins_safe p k \<longrightarrow> joins_safe q k) \<and> (k \<noteq> 1 \<longrightarrow> keeps is_network_broadcast p q)"

section \<open>Injection\<close>

lemma sound_plan_Plan:
  "sound_plan (Plan n cs) \<longleftrightarrow>
     wf_node n (length cs) \<and> (case n of IsolatorUnionNode u \<Rightarrow> task_map_inv u | _ \<Rightarrow> True) \<and> (\<forall>c \<in> set cs. sound_plan c)"
  by (auto simp: sound_plan_def unions_ok_def list_all_iff)

lemma fed_Plan:
  "fed bj (Plan n cs) \<longleftrightarrow>
     wf_node n (length cs) \<and> (case n of IsolatorUnionNode u \<Rightarrow> task_map_inv u | _ \<Rightarrow> True) \<and>
     (bj \<longrightarrow> can_broadcast_left_input n \<longrightarrow> coalesced_over is_network_broadcast cs) \<and> (\<forall>c \<in> set cs. fed bj c)"
  by (auto simp: fed_def sound_plan_Plan broadcast_ready_Plan)

text \<open>A node rebuilt over children that keep their broadcasts.\<close>

lemma fed_rebuilt:
  assumes "planner_ok env" "replace_children env n qs = Inr n'" "wf_node n (length qs)" "\<forall>c \<in> set qs. fed bj c"
    "bj \<longrightarrow> can_broadcast_left_input n \<longrightarrow> coalesced_over is_network_broadcast qs"
  shows "fed bj (Plan n' qs)"
proof -
  have "wf_node n' (length qs)"
    by (rule replace_children_wf [OF assms(1-3)])
  moreover have "(can_broadcast_left_input n' \<longrightarrow> can_broadcast_left_input n) \<and>
      (case n' of IsolatorUnionNode u \<Rightarrow> task_map_inv u | _ \<Rightarrow> True)"
    by (rule replace_children_cases [OF assms(1,2)])
      (auto simp: can_broadcast_left_input_def is_isolator_union_def split: node.splits)
  ultimately show ?thesis
    using assms(4,5) by (auto simp: fed_Plan)
qed

lemma fed_plain:
  assumes "\<forall>n \<in> nodes_of p. plain_node n"
  shows "fed bj p"
  using assms
proof (induction p)
  case (Plan n cs)
  have "wf_node n (length cs)" "case n of IsolatorUnionNode u \<Rightarrow> task_map_inv u | _ \<Rightarrow> True" "\<not> can_broadcast_left_input n"
    using Plan.prems by (cases n; simp add: plain_node_def wf_node_def collects_left_def can_broadcast_left_input_def)+
  then show ?case
    using Plan by (simp add: fed_Plan)
qed

lemma not_network_broadcast: "\<not> is_network_boundary n \<Longrightarrow> \<not> is_network_broadcast n"
  by (cases n) (simp_all add: is_network_boundary_def is_network_broadcast_def)

lemma coalesced_over_Plan: "coalesced_over P (Plan n cs # rest) \<longleftrightarrow> n = CoalescePartitionsNode None \<and> (\<exists>c. cs = [c] \<and> P (node_of c))"
  by (auto simp: coalesced_over_iff)

lemma propagate_boundary_fed:
  assumes "fed bj (Plan n (map erase cs))" "is_network_boundary n" "propagate_boundary env n cs tc = Inr b"
  shows "fed bj (erase b) \<and> keeps is_network_broadcast (Plan n (map erase cs)) (erase b)"
proof (cases "\<exists>sh. n = ShuffleNode sh")
  case True
  then obtain sh where n: "n = ShuffleNode sh" by blast
  have two: "wf_node (ShuffleNode (to_two_phase_salted sh)) k = wf_node (ShuffleNode sh) k" for k
    by (simp add: wf_node_def to_two_phase_salted_def)
  consider "b = Plan (n, Some tc) cs"
    | exprs k pr where "b = Plan (RepartitionNode (Hash exprs k) pr, Some tc) [Plan (ShuffleNode (to_two_phase_salted sh), Some tc) cs]"
    using assms(3) n by (auto simp: propagate_boundary_def Let_def bind_res_eq_Inr split: shuffle_mode.splits partitioning.splits if_splits)
  then show ?thesis
    by cases (use assms(1) n two in
      \<open>auto simp: fed_Plan can_broadcast_left_input_def keeps_def is_network_broadcast_def coalesced_over_Plan\<close>)
next
  case False
  then have "b = Plan (n, Some tc) cs"
    using assms(3) by (auto simp: propagate_boundary_def split: node.splits)
  then show ?thesis
    using assms(1) by simp
qed

lemma propagate_union_shape:
  assumes "propagate_union env (Plan na cs) (map (propagate env) cs) tc = Inr b"
  shows "\<exists>u ds. b = Plan (union_node u, Some tc) ds \<and> list_all2 (\<lambda>c d. \<exists>tc. propagate env c tc = Inr d) cs ds \<and>
    task_map_inv u \<and> length (children u) = length ds"
proof -
  obtain anns u ds u' where u: "from_children_and_annotations (partitions_of env) (pl_union_new env) (map erase cs) anns (as_usize tc) = Inr u"
    and ds: "map_res (\<lambda>(g, n). if n = 0 then Inl ZeroChildTasks else g (ann_exact n (soft tc)))
      (zip (map (propagate env) cs) (union_child_task_counts u)) = Inr ds"
    and u': "with_new_children (partitions_of env) (pl_union_new env) u (map erase ds) = Inr u'"
    and b: "b = Plan (union_node u', Some tc) ds"
    using assms by (auto simp: propagate_union_def bind_res_eq_Inr)
  have len: "length (union_child_task_counts u) = length cs"
    using from_children_Inr(1) [OF u] by simp
  have "list_all2 (\<lambda>c d. \<exists>tc. propagate env c tc = Inr d) cs ds"
    using ds len by (auto simp: map_res_Inr_iff list_all2_conv_all_nth split: if_splits)
  moreover have "task_map_inv u'" "length (children u') = length ds"
    using u' from_children_Inr [of "partitions_of env" "pl_union_new env" "map erase ds" "child_annotations u" "length (task_idx_map u)" u']
    by (auto simp: with_new_children_def union_inv_def split: if_splits)
  ultimately show ?thesis
    using b by blast
qed

lemma propagate_fed:
  assumes ok: "planner_ok env"
  shows "fed bj (erase a) \<Longrightarrow> propagate env a tc = Inr b \<Longrightarrow>
    fed bj (erase b) \<and> keeps is_network_broadcast (erase a) (erase b)"
proof (induction a arbitrary: tc b)
  case (Plan na cs)
  let ?n = "fst na"
  have children: "\<forall>c \<in> set cs. fed bj (erase c)" and wf: "wf_node ?n (length cs)"
    using Plan.prems(1) by (simp_all add: fed_Plan)
  have run: "list_all2 (\<lambda>c d. fed bj (erase d) \<and> keeps is_network_broadcast (erase c) (erase d)) cs ds"
    if "list_all2 (\<lambda>c d. \<exists>tc. propagate env c tc = Inr d) cs ds" for ds
    using that by (rule list.rel_mono_strong) (use Plan.IH children in blast)
  consider (leaf) "cs = []" "\<not> is_network_boundary ?n" | (boundary) "is_network_boundary ?n"
    | (union) "cs \<noteq> []" "\<not> is_network_boundary ?n" "is_isolator_union ?n"
    | (inner) "cs \<noteq> []" "\<not> is_network_boundary ?n" "\<not> is_isolator_union ?n"
    by blast
  then show ?case
  proof cases
    case leaf
    then have "keeps is_network_broadcast (Plan ?n []) q" for q
      using not_network_broadcast [OF leaf(2)] by (simp add: keeps_def coalesced_over_Plan)
    moreover have "fed bj (erase b)"
    proof (cases "pl_scale_up env (Plan ?n []) (as_usize tc)")
      case None
      then show ?thesis
        using Plan.prems leaf by (auto simp: propagate_leaf_def Let_def)
    next
      case (Some r)
      then obtain scaled where "r = Inr scaled" "erase b = scaled"
        using Plan.prems(2) leaf by (auto simp: propagate_leaf_def Let_def split: sum.splits)
      then show ?thesis
        using Some ok fed_plain unfolding planner_ok_def by blast
    qed
    ultimately show ?thesis
      using leaf by simp
  next
    case boundary
    then show ?thesis
      using Plan.prems propagate_boundary_fed [of bj ?n cs env tc b] by (simp add: Let_def)
  next
    case union
    then obtain u' ds where b: "b = Plan (union_node u', Some tc) ds"
      and ds: "list_all2 (\<lambda>c d. \<exists>tc. propagate env c tc = Inr d) cs ds"
      and u': "task_map_inv u'" "length (children u') = length ds"
      using propagate_union_shape [of env na cs tc b] Plan.prems(2) by auto
    have "fed bj (erase b)"
      using b u' list_all2_right [OF run [OF ds], of "\<lambda>d. fed bj (erase d)"]
      by (auto simp: fed_Plan union_node_def with_children_def wf_node_def task_map_inv_def can_broadcast_left_input_def)
    moreover have "keeps is_network_broadcast (erase (Plan na cs)) (erase b)"
      using union by (cases ?n) (simp_all add: keeps_def is_isolator_union_def is_network_broadcast_def coalesced_over_Plan)
    ultimately show ?thesis by blast
  next
    case inner
    then obtain ds n' where ds: "list_all2 (\<lambda>c d. propagate env c tc = Inr d) cs ds"
      and n': "replace_children env ?n (map erase ds) = Inr n'" and b: "b = Plan (n', Some tc) ds"
      using Plan.prems(2) by (auto simp: Let_def bind_res_eq_Inr map_res_Inr_iff list.rel_map)
    have same: "n' = ?n"
      by (rule replace_children_same [OF ok inner(2,3) n'])
    have rel: "list_all2 (\<lambda>c d. fed bj (erase d) \<and> keeps is_network_broadcast (erase c) (erase d)) cs ds"
      by (rule run) (use ds in \<open>auto intro: list_all2_mono\<close>)
    then have keeps: "list_all2 (keeps is_network_broadcast) (map erase cs) (map erase ds)"
      by (auto simp: list.rel_map intro: list_all2_mono)
    have "fed bj (Plan n' (map erase ds))"
    proof (rule fed_rebuilt [OF ok n'])
      show "wf_node ?n (length (map erase ds))"
        using wf list_all2_lengthD [OF ds] by simp
      show "\<forall>c \<in> set (map erase ds). fed bj c"
        using list_all2_right [OF rel, of "\<lambda>d. fed bj (erase d)"] by simp
      show "bj \<longrightarrow> can_broadcast_left_input ?n \<longrightarrow> coalesced_over is_network_broadcast (map erase ds)"
        using Plan.prems(1) keeps coalesced_over_keeps by (auto simp: fed_Plan)
    qed
    moreover have "keeps is_network_broadcast (Plan ?n (map erase cs)) (Plan n' (map erase ds))"
      by (rule keeps_rebuilt [OF ok, of _ _ "map erase ds"])
        (use n' keeps in \<open>simp_all add: rebuilt_def rebuild_plan_def\<close>)
    ultimately show ?thesis
      using b by simp
  qed
qed

lemma boundary_node_fed:
  assumes "boundary_node env kind n b = Inr nb" "built_stage b = Local st" "fed bj (erase (ls_plan st))"
  shows "fed bj (Plan nb (map erase (stage_kids (built_stage b))))" "kind = BroadcastKind \<Longrightarrow> is_network_broadcast nb"
proof -
  obtain st' where "input_stage nb = Some (Local st')"
    using assms(1,2) by (cases kind) (auto simp: boundary_node_def Let_def shuffle_from_stage_def broadcast_from_stage_def
        coalesce_try_from_stage_def split: if_splits node.splits)
  then have "wf_node nb (Suc 0)" "case nb of IsolatorUnionNode u \<Rightarrow> task_map_inv u | _ \<Rightarrow> True" "\<not> can_broadcast_left_input nb"
    by (cases nb; simp add: wf_node_def can_broadcast_left_input_def)+
  then show "fed bj (Plan nb (map erase (stage_kids (built_stage b))))"
    using assms(2,3) by (simp add: fed_Plan)
  show "kind = BroadcastKind \<Longrightarrow> is_network_broadcast nb"
    using assms(1) by (auto simp: boundary_node_def Let_def is_network_broadcast_def)
qed

lemma cardinality_build_stage:
  assumes "cardinality_build env l kind = Inr b"
  shows "\<exists>st tc. built_stage b = Local st \<and> snd (node_of (ls_plan l)) = Some tc \<and> propagate env (ls_plan l) tc = Inr (ls_plan st)"
  using assms
  by (auto simp: cardinality_build_def task_count_of_def Let_def bind_res_eq_Inr simp del: propagate.simps
      split: if_splits option.splits)

text \<open>One step of injection over children whose broadcasts are in place.\<close>

lemma inject_step_fed:
  assumes ok: "planner_ok env" and step: "inject_step env (cardinality_build env) (Plan n cs) parent processed sid = Inr (q, sid')"
    and n: "wf_node n (length processed)"
    and processed: "\<forall>c \<in> set processed. fed bj (erase c)"
      "bj \<longrightarrow> can_broadcast_left_input n \<longrightarrow> coalesced_over is_network_broadcast (map erase processed)"
  shows "fed bj (erase q) \<and> (is_broadcast n \<longrightarrow> is_network_broadcast (fst (node_of q))) \<and>
    (\<not> merging parent \<and> n = CoalescePartitionsNode None \<longrightarrow> keeps is_network_broadcast (Plan n (map erase processed)) (erase q))"
proof -
  from step show ?thesis
  proof (cases rule: inject_stepE)
  case (1 t n' tc)
  note t = 1(1) and n' = 1(2) and tc = 1(3) and rest = 1(4)
  have fed: "fed bj (Plan n' (map erase processed))"
    by (rule fed_rebuilt [OF ok n']) (use n processed in simp_all)
  have same: "n' = n" if "is_broadcast n \<or> n = CoalescePartitionsNode None"
    using that n' replace_children_same [OF ok, of n] by (auto simp: is_broadcast_def is_network_boundary_def is_isolator_union_def split: node.splits)
  show ?thesis
  proof (cases "boundary_above n' parent")
    case None
    have plain: "\<not> is_broadcast n"
      using None same by (auto simp: boundary_above_def is_broadcast_def split: node.splits)
    have "fed bj (erase q) \<and> keeps is_network_broadcast (Plan n' (map erase processed)) (erase q)"
      using rest None propagate_fed [OF ok, of bj "Plan (n', None) processed" tc q] fed
      by (auto simp: bind_res_eq_Inr split: if_splits)
    then show ?thesis
      using plain same by auto
  next
    case (Some kind)
    then obtain b nb where b: "cardinality_build env \<lparr>ls_query_id = pl_query_id env, ls_num = sid,
          ls_plan = Plan (n', Some tc) processed, ls_tasks = as_usize tc, ls_metrics_set = ()\<rparr> kind = Inr b"
      and nb: "boundary_node env kind n' b = Inr nb"
      and q: "q = Plan (nb, Some (consumer_task_count b)) (stage_kids (built_stage b))"
      using rest by (auto simp: bind_res_eq_Inr)
    obtain st where st: "built_stage b = Local st" "propagate env (Plan (n', Some tc) processed) tc = Inr (ls_plan st)"
      using cardinality_build_stage [OF b] by auto
    have "fed bj (erase (ls_plan st))"
      using propagate_fed [OF ok _ st(2)] fed by simp
    note nb_fed = boundary_node_fed [OF nb st(1) this]
    have "\<not> (\<not> merging parent \<and> n = CoalescePartitionsNode None)"
      using Some same by (auto simp: boundary_above_def merging_def split: option.splits node.splits)
    moreover have "is_broadcast n \<longrightarrow> kind = BroadcastKind"
      using Some same by (auto simp: boundary_above_def is_broadcast_def split: node.splits)
    ultimately show ?thesis
      using nb_fed q by auto
  qed
  qed
qed

lemma inject_fed:
  assumes ok: "planner_ok env"
  shows "local_plan p \<Longrightarrow> (bj \<longrightarrow> broadcast_ready is_broadcast p) \<Longrightarrow>
    inject env (cardinality_build env) p parent sid = Inr (q, sid') \<Longrightarrow>
    fed bj (erase q) \<and> (is_broadcast (node_of p) \<longrightarrow> is_network_broadcast (fst (node_of q))) \<and>
    (\<not> merging parent \<and> coalesced_over is_broadcast [p] \<longrightarrow> coalesced_over is_network_broadcast [erase q])"
proof (induction p arbitrary: parent sid q sid')
  case (Plan n cs)
  obtain processed sid1 where
    seq: "seq_res (map (\<lambda>g. g (Some n)) (map (inject env (cardinality_build env)) cs)) sid = Inr (processed, sid1)"
    and step: "inject_step env (cardinality_build env) (Plan n cs) parent processed sid1 = Inr (q, sid')"
    using Plan.prems(3) by (auto simp: bind_res_eq_Inr)
  have "list_all2 (\<lambda>c r. \<exists>s s'. inject env (cardinality_build env) c (Some n) s = Inr (r, s')) cs processed"
    using seq_res_Inr [OF seq] by (simp add: list.rel_map)
  then have runs: "list_all2 (\<lambda>c r. fed bj (erase r) \<and> (is_broadcast (node_of c) \<longrightarrow> is_network_broadcast (fst (node_of r))) \<and>
      (\<not> merging (Some n) \<and> coalesced_over is_broadcast [c] \<longrightarrow> coalesced_over is_network_broadcast [erase r])) cs processed"
    by (rule list.rel_mono_strong) (use Plan.IH Plan.prems(1,2) in \<open>auto simp: local_plan_Plan broadcast_ready_Plan\<close>)
  have all: "\<forall>c \<in> set processed. fed bj (erase c)"
    by (rule list_all2_right [OF runs]) blast
  have join: "coalesced_over is_network_broadcast (map erase processed)" if join: "bj" "can_broadcast_left_input n"
  proof -
    obtain c rest where cs: "cs = c # rest" "coalesced_over is_broadcast [c]"
      using Plan.prems(2) join by (auto simp: broadcast_ready_Plan coalesced_over_iff)
    moreover have "\<not> merging (Some n)"
      using join(2) by (cases n) (simp_all add: merging_def can_broadcast_left_input_def)
    ultimately show ?thesis
      using runs by (auto simp: list_all2_Cons1 coalesced_over_def split: list.splits)
  qed
  have len: "length processed = length cs"
    using runs by (simp add: list_all2_lengthD)
  note s = inject_step_fed [OF ok step _ all]
  have s: "fed bj (erase q) \<and> (is_broadcast n \<longrightarrow> is_network_broadcast (fst (node_of q))) \<and>
    (\<not> merging parent \<and> n = CoalescePartitionsNode None \<longrightarrow> keeps is_network_broadcast (Plan n (map erase processed)) (erase q))"
    by (rule s) (use Plan.prems(1) len join in \<open>auto simp: local_plan_Plan\<close>)
  moreover have "coalesced_over is_network_broadcast [erase q]" if "\<not> merging parent" and over: "coalesced_over is_broadcast [Plan n cs]"
  proof -
    obtain c where c: "n = CoalescePartitionsNode None" "cs = [c]" "is_broadcast (node_of c)"
      using over by (auto simp: coalesced_over_Plan)
    then have "coalesced_over is_network_broadcast [Plan n (map erase processed)]"
      using runs by (auto simp: list_all2_Cons1 coalesced_over_Plan)
    then show ?thesis
      using s that(1) c(1) by (auto simp: keeps_def)
  qed
  ultimately show ?case by auto
qed

section \<open>Passes over plans with boundaries\<close>

lemma improves_refl: "sound_plan p \<Longrightarrow> improves k p p"
  by (simp add: improves_def)

lemma improves_trans: "improves k p q \<Longrightarrow> improves k q r \<Longrightarrow> improves k p r"
  unfolding improves_def by (blast intro: keeps_trans)

lemma joins_safe_Plan:
  assumes "wf_node n (length cs)"
  shows "joins_safe (Plan n cs) k \<longleftrightarrow> join_safe (Plan n cs, k) \<and> list_all2 joins_safe cs (child_tcs k (Plan n cs))"
proof -
  have "length (child_tcs k (Plan n cs)) = length cs"
    by (rule length_child_tcs [OF assms])
  then show ?thesis
    by (auto simp: joins_safe_def list_all_iff set_counted_nodes list_all2_conv_all_nth simp del: counted_nodes.simps)
qed

lemma child_tcs_join: "collecting_join n \<Longrightarrow> child_tcs k (Plan n cs) = replicate (length cs) k"
  by (cases n) (simp_all add: collecting_join_def child_tcs_def)

lemma join_safe_other: "\<not> collecting_join (node_of p) \<Longrightarrow> join_safe (p, k)"
  by (simp add: join_safe_def)

lemma improves_node:
  assumes ok: "planner_ok env" and p: "sound_plan (Plan n cs)"
    and n': "replace_children env n qs = Inr n' \<or> (n' = n \<and> qs = cs)"
    and len: "length qs = length cs"
    and children: "\<And>i. i < length cs \<Longrightarrow> improves (child_tcs k (Plan n cs) ! i) (cs ! i) (qs ! i)"
  shows "improves k (Plan n cs) (Plan n' qs)"
proof -
  have wf: "wf_node n (length cs)" and union: "case n of IsolatorUnionNode u \<Rightarrow> task_map_inv u | _ \<Rightarrow> True"
    using p by (simp_all add: sound_plan_Plan)
  have wf': "wf_node n' (length qs)"
    using n' wf len replace_children_wf [OF ok, of n qs n'] by auto
  have tcs: "child_tcs k (Plan n' qs) = child_tcs k (Plan n cs)"
    using n' replace_children_like(2) [OF ok union _ len wf] by auto
  have sound_qs: "\<forall>q \<in> set qs. sound_plan q"
    using children len by (auto simp: in_set_conv_nth improves_def)
  have union': "case n' of IsolatorUnionNode u \<Rightarrow> task_map_inv u | _ \<Rightarrow> True"
    using n' union by (auto elim!: replace_children_cases [OF ok] simp: is_isolator_union_def split: node.splits)
  have keep: "keeps is_network_broadcast (Plan n cs) (Plan n' qs)" if k: "list_all2 (keeps is_network_broadcast) cs qs"
    using n' k by (intro keeps_rebuilt [OF ok, of _ "Plan n cs" qs]) (auto simp: rebuilt_def rebuild_plan_def)
  have same: "n' = n" if "collecting_join n' \<or> collecting_join n"
    using n' that by (auto elim!: replace_children_cases [OF ok] simp: collecting_join_def)
  have keeps_children: "list_all2 (keeps is_network_broadcast) cs qs"
    if "k \<noteq> 1" "child_tcs k (Plan n cs) = replicate (length cs) k"
    using children that len by (auto simp: list_all2_conv_all_nth improves_def)
  have "joins_safe (Plan n' qs) k" if safe: "joins_safe (Plan n cs) k"
  proof -
    have "join_safe (Plan n' qs, k)"
      using safe same child_tcs_join [of n k cs] keeps_children coalesced_over_keeps [of is_network_broadcast cs qs]
      by (auto simp: joins_safe_Plan [OF wf] join_safe_def)
    moreover have "list_all2 joins_safe qs (child_tcs k (Plan n' qs))"
      using safe children len tcs by (auto simp: joins_safe_Plan [OF wf] list_all2_conv_all_nth improves_def)
    ultimately show ?thesis
      by (simp add: joins_safe_Plan [OF wf'])
  qed
  moreover have "keeps is_network_broadcast (Plan n cs) (Plan n' qs)" if "k \<noteq> 1"
  proof (cases "n = CoalescePartitionsNode None")
    case True
    then show ?thesis
      using keep keeps_children that by (simp add: child_tcs_def)
  next
    case False
    then have "is_network_broadcast n \<Longrightarrow> n' = n"
      using n' by (auto elim!: replace_children_cases [OF ok] simp: is_network_broadcast_def)
    then show ?thesis
      using False by (auto simp: keeps_def coalesced_over_Plan)
  qed
  ultimately show ?thesis
    using wf' union' sound_qs by (simp add: improves_def sound_plan_Plan)
qed

subsection \<open>Preparation\<close>

lemma list_all2_replicate_right: "list_all2 R xs (replicate (length xs) k) \<longleftrightarrow> (\<forall>x \<in> set xs. R x k)"
  by (induction xs) auto

lemma joins_safe_inner:
  assumes "wf_node n (length cs)" "\<not> is_network_boundary n" "\<not> is_isolator_union n" "\<not> collecting_join n"
  shows "joins_safe (Plan n cs) k \<longleftrightarrow> (\<forall>c \<in> set cs. joins_safe c k)"
proof -
  have "child_tcs k (Plan n cs) = replicate (length cs) k"
    using assms(2,3) by (intro child_tcs_other) (auto simp: isolator_union_eq)
  then show ?thesis
    using assms(4) by (auto simp: joins_safe_Plan [OF assms(1)] join_safe_other list_all2_replicate_right)
qed

lemma joins_safe_boundary:
  assumes "wf_node n (length cs)" "input_stage n = Some st"
  shows "joins_safe (Plan n cs) k \<longleftrightarrow> (\<forall>c \<in> set cs. joins_safe c (stage_task_count st))"
proof -
  have "\<not> collecting_join n"
    using assms(2) by (cases n) (simp_all add: collecting_join_def)
  then show ?thesis
    using length_child_tcs_boundary [OF assms(2), of k cs]
    by (auto simp: joins_safe_Plan [OF assms(1)] join_safe_other list_all2_replicate_right)
qed

lemma plain_heads [simp]:
  "\<not> is_isolator_union (RepartitionNode pt b)" "\<not> collecting_join (RepartitionNode pt b)"
  "\<not> is_isolator_union (BroadcastNode c)" "\<not> collecting_join (BroadcastNode c)"
  "\<not> is_isolator_union (OtherNode o')" "\<not> collecting_join (OtherNode o')"
  "\<not> is_isolator_union (AggregateNode a)" "\<not> collecting_join (AggregateNode a)"
  "\<not> is_network_boundary (AggregateNode a)" "wf_node (AggregateNode a) k"
  by (simp_all add: is_isolator_union_def collecting_join_def is_network_boundary_def wf_node_def collects_left_def)

lemma insert_head_safe:
  assumes "insert_head env head input = Inr p" "sound_plan input"
  shows "sound_plan p" "joins_safe input k \<Longrightarrow> joins_safe p k"
proof -
  obtain n cs where input: "input = Plan n cs"
    by (cases input)
  have sub: "sound_plan (without_head input) \<and> (joins_safe input k \<longrightarrow> joins_safe (without_head input) k)"
    using assms(2) input
    by (cases n) (auto simp: without_head_def sound_plan_Plan wf_node_def joins_safe_inner length_Suc_conv)
  then show "sound_plan p" "joins_safe input k \<Longrightarrow> joins_safe p k"
    using assms(1) by (auto simp: insert_head_def Let_def bind_res_eq_Inr sound_plan_Plan joins_safe_inner
        split: producer_head.splits if_splits)
qed

lemma with_input_stage_kind: "is_network_broadcast n \<Longrightarrow> is_network_broadcast (with_input_stage env n st input)"
  by (cases n) (simp_all add: is_network_broadcast_def with_input_stage_def)

lemma with_input_stage_wf: "input_stage n = Some st0 \<Longrightarrow> wf_node (with_input_stage env n (Local l) input) (Suc 0)"
  using input_stage_with_stage [of n env "Local l" input] by (simp add: is_network_boundary_def wf_node_def)

lemma prepare_step_improves:
  assumes p: "sound_plan p" and step: "prepare_step env p tc s = Inr ((q, ch), s')"
  shows "improves tc p q"
proof (cases "\<exists>l. input_stage (node_of p) = Some (Local l)")
  case True
  then obtain n cs l where p_eq: "p = Plan n cs" and l: "input_stage n = Some (Local l)"
    by (cases p) auto
  then obtain input where cs: "cs = [input]" and input: "sound_plan input" and wf: "wf_node n (length [input])"
    using p by (auto simp: sound_plan_Plan wf_node_def length_Suc_conv)
  note safe_p = joins_safe_boundary [OF wf l, of tc]
  show ?thesis
  proof (cases "tc = 1 \<and> ls_tasks l = 1")
    case True
    then have "q = input"
      using step l p_eq cs by (simp add: prepare_step_def)
    then show ?thesis
      using True input safe_p p_eq cs by (simp add: improves_def)
  next
    case False
    let ?st = "Local \<lparr>ls_query_id = pl_query_id env, ls_num = s, ls_plan = (), ls_tasks = ls_tasks l, ls_metrics_set = ()\<rparr> :: stage_ref"
    obtain head p' where h: "insert_head env head input = Inr p'"
      and q: "q = Plan (with_input_stage env n ?st p') [p']"
      using step l p_eq cs False by (auto simp: prepare_step_def Let_def bind_res_eq_Inr)
    let ?n = "with_input_stage env n ?st p'"
    have stage: "input_stage ?n = Some ?st"
      using l by (intro input_stage_with_stage) (simp add: is_network_boundary_def)
    have wf': "wf_node ?n (length [p'])"
      using with_input_stage_wf [OF l] by simp
    have "sound_plan q"
      using q wf' insert_head_safe(1) [OF h input] stage by (cases ?n) (simp_all add: sound_plan_Plan)
    moreover have "joins_safe p tc \<longrightarrow> joins_safe q tc"
      using q p_eq cs safe_p joins_safe_boundary [OF wf' stage, of tc] insert_head_safe(2) [OF h input] by simp
    moreover have "keeps is_network_broadcast p q"
      using q p_eq l with_input_stage_kind [of n env ?st p'] by (auto simp: keeps_def coalesced_over_Plan)
    ultimately show ?thesis
      by (simp add: improves_def)
  qed
next
  case False
  then have "q = p"
    using step by (auto simp: prepare_step_def split: option.splits stage.splits)
  then show ?thesis
    using improves_refl [OF p] by simp
qed

lemma prepare_step_honest: "prepare_step env p tc s = Inr ((q, False), s') \<Longrightarrow> q = p"
  by (auto simp: prepare_step_def Let_def bind_res_eq_Inr split: option.splits stage.splits if_splits)

lemma seq_res_zip:
  assumes "length cs = length tcs" "seq_res (map (\<lambda>(g, tc). g tc) (zip (map g cs) tcs)) s = Inr (rs, s')"
  shows "length rs = length cs \<and> (\<forall>i < length cs. \<exists>s s'. g (cs ! i) (tcs ! i) s = Inr (rs ! i, s'))"
  using seq_res_Inr [OF assms(2)] assms(1) by (auto simp: list_all2_conv_all_nth)

lemma up_improves:
  assumes ok: "planner_ok env"
  shows "sound_plan p \<Longrightarrow> up_spec (rebuild_plan env) (prepare_step env) p tc s = Inr ((q, ch), s') \<Longrightarrow>
    improves tc p q \<and> (\<not> ch \<longrightarrow> q = p)"
proof (induction p arbitrary: tc s q ch s')
  case (Plan n cs)
  obtain rs s1 p1 ch1 ch2 where
    rs: "seq_res (map (\<lambda>(g, tc). g tc) (zip (map (up_spec (rebuild_plan env) (prepare_step env)) cs) (child_tcs tc (Plan n cs)))) s = Inr (rs, s1)"
    and p1: "rebuild_if (rebuild_plan env) (Plan n cs) rs = Inr (p1, ch1)"
    and step: "prepare_step env p1 tc s1 = Inr ((q, ch2), s')" and ch: "ch = (ch2 \<or> ch1)"
    using Plan.prems(2)
    unfolding up_spec.simps bind_res_eq_Inr split_paired_Ex prod.case sum.inject prod.inject by blast
  have "length (child_tcs tc (Plan n cs)) = length cs"
    using Plan.prems(1) by (intro length_child_tcs) (simp add: sound_plan_Plan)
  from seq_res_zip [OF this [symmetric] rs]
  have len: "length rs = length cs" and runs: "\<And>i. i < length cs \<Longrightarrow>
      improves (child_tcs tc (Plan n cs) ! i) (cs ! i) (fst (rs ! i)) \<and> (\<not> snd (rs ! i) \<longrightarrow> fst (rs ! i) = cs ! i)"
    using Plan.IH Plan.prems(1) by (auto simp: sound_plan_Plan) (metis Plan.IH nth_mem prod.collapse)+
  have unchanged: "map fst rs = cs" if "\<not> list_ex snd rs"
    using that runs len by (auto simp: list_ex_iff list_eq_iff_nth_eq)
  obtain n' where p1_eq: "p1 = Plan n' (map fst rs)"
    and n': "replace_children env n (map fst rs) = Inr n' \<or> (n' = n \<and> map fst rs = cs)" and "\<not> ch1 \<longrightarrow> p1 = Plan n cs"
    using p1 unchanged by (auto simp: rebuild_if_def rebuild_plan_def bind_res_eq_Inr split: if_splits)
  have up: "improves tc (Plan n cs) p1"
    unfolding p1_eq by (rule improves_node [OF ok Plan.prems(1) n']) (simp_all add: len runs)
  then have "improves tc p1 q"
    by (intro prepare_step_improves [OF _ step]) (simp add: improves_def)
  with up have "improves tc (Plan n cs) q"
    by (rule improves_trans)
  moreover have "q = Plan n cs" if "\<not> ch"
    using that ch step \<open>\<not> ch1 \<longrightarrow> p1 = Plan n cs\<close> prepare_step_honest by auto
  ultimately show ?case by blast
qed

lemma prepare_safe:
  assumes "planner_ok env" "sound_plan p" "joins_safe p 1"
    "transform_down_up_law kids (rebuild_plan env) tdu (up_push Panic) (up_pop Panic (continuing (prepare_step env)))"
    "prepare_network_boundaries env tdu p = Inr q"
  shows "sound_plan q \<and> joins_safe q 1"
proof -
  have "wf_plan p"
    using assms(2) by (simp add: sound_plan_def)
  then have "\<exists>ch s'. up_spec (rebuild_plan env) (prepare_step env) p 1 1 = Inr ((q, ch), s')"
    using assms(5) transform_up_with_stack [OF assms(4), of p "[]" 1 1]
    by (auto simp: prepare_network_boundaries_def transform_up_with_task_count_def bind_res_eq_Inr)
  then show ?thesis
    using up_improves [OF assms(1,2)] assms(3) by (auto simp: improves_def)
qed

subsection \<open>Partial aggregation and fetch limits\<close>

lemma honest_partial_reduce: "honest (partial_reduce_step ses)"
  by (auto simp: honest_def partial_reduce_step_def Let_def bind_res_eq_Inr split: if_splits option.splits)

text \<open>A boundary over another input.\<close>

lemma improves_boundary:
  assumes p: "sound_plan (Plan n [child])" "is_network_boundary n"
    and n': "input_stage n' = input_stage n" "is_network_broadcast n \<longrightarrow> is_network_broadcast n'"
    and child': "sound_plan child'" "\<And>k. joins_safe child k \<Longrightarrow> joins_safe child' k"
  shows "improves k (Plan n [child]) (Plan n' [child'])"
proof -
  obtain st where st: "input_stage n = Some st"
    using p(2) by (auto simp: is_network_boundary_def)
  then have st': "input_stage n' = Some st"
    using n'(1) by simp
  have wf: "wf_node n (length [child])" "wf_node n' (length [child'])"
    using p(1) st st' by (simp_all add: sound_plan_Plan wf_node_def)
  have "case n' of IsolatorUnionNode u \<Rightarrow> task_map_inv u | _ \<Rightarrow> True"
    using st' by (cases n') simp_all
  then have "sound_plan (Plan n' [child'])"
    using wf child'(1) by (simp add: sound_plan_Plan)
  moreover have "joins_safe (Plan n [child]) k \<longrightarrow> joins_safe (Plan n' [child']) k"
    using joins_safe_boundary [OF wf(1) st] joins_safe_boundary [OF wf(2) st'] child'(2) by simp
  moreover have "keeps is_network_broadcast (Plan n [child]) (Plan n' [child'])"
    using st n'(2) by (auto simp: keeps_def coalesced_over_Plan)
  ultimately show ?thesis
    by (simp add: improves_def)
qed

lemma partial_reduce_improves:
  assumes ok: "planner_ok (se_planner ses)" and p: "sound_plan p" and step: "partial_reduce_step ses p = Inr (q, ch)"
  shows "improves k p q"
proof (cases ch)
  case False
  then show ?thesis
    using step honest_partial_reduce improves_refl [OF p] by (auto simp: honest_def)
next
  case True
  then obtain child agg n cs where p_eq: "p = Plan n cs" "is_network_boundary n" "cs = [child]"
    and q: "rebuild_plan (se_planner ses) p [Plan (AggregateNode agg) [child]] = Inr q"
    using step by (cases p) (auto simp: partial_reduce_step_def require_one_child_def Let_def bind_res_eq_Inr
        split: if_splits option.splits list.splits)
  then obtain n' where n': "replace_children (se_planner ses) n [Plan (AggregateNode agg) [child]] = Inr n'"
    and q_eq: "q = Plan n' [Plan (AggregateNode agg) [child]]"
    by (auto simp: rebuild_plan_def bind_res_eq_Inr)
  have child: "sound_plan child"
    using p p_eq by (simp add: sound_plan_Plan)
  have "improves k (Plan n [child]) (Plan n' [Plan (AggregateNode agg) [child]])"
  proof (rule improves_boundary)
    show "sound_plan (Plan n [child])" "is_network_boundary n"
      using p p_eq by simp_all
    show "input_stage n' = input_stage n" "is_network_broadcast n \<longrightarrow> is_network_broadcast n'"
      using n' by (auto elim!: replace_children_cases [OF ok] simp: is_network_broadcast_def)
    show "sound_plan (Plan (AggregateNode agg) [child])"
      using child by (simp add: sound_plan_Plan)
    show "joins_safe child k \<Longrightarrow> joins_safe (Plan (AggregateNode agg) [child]) k" for k
      by (simp add: joins_safe_inner)
  qed
  then show ?thesis
    using q_eq p_eq by simp
qed

lemma improves_rebuilt:
  assumes ok: "planner_ok env" and p: "sound_plan p" and qs: "list_all2 (\<lambda>p q. \<forall>k. improves k p q) (kids p) qs"
    and r: "rebuilt kids (rebuild_plan env) p qs r"
  shows "improves k p r"
proof -
  obtain n cs where p_eq: "p = Plan n cs"
    by (cases p)
  obtain n' where r_eq: "r = Plan n' qs" and n': "replace_children env n qs = Inr n' \<or> (n' = n \<and> qs = cs)"
    using rebuilt_plan [OF r] p_eq by auto
  show ?thesis
    unfolding p_eq r_eq using p qs by (intro improves_node [OF ok _ n']) (simp_all add: p_eq list_all2_conv_all_nth)
qed

lemma partial_reduce_safe:
  assumes ok: "planner_ok (se_planner ses)"
    and law: "transform_up_law kids (rebuild_plan (se_planner ses)) tu (stateless (partial_reduce_step ses))"
    and p: "sound_plan p" "partial_reduce_below_network_shuffles ses tu p = Inr q"
  shows "improves k p q"
proof (cases "se_partial_reduce ses")
  case True
  then obtain t s' where t: "tu (stateless (partial_reduce_step ses)) p () = Inr (t, s')" "q = data t"
    using p(2) by (auto simp: partial_reduce_below_network_shuffles_def bind_res_eq_Inr)
  have "tnr t = Continue \<and> (\<forall>k. improves k p (data t)) \<and> (\<not> changed t \<longrightarrow> data t = p)"
  proof (rule up_pass [where I = sound_plan, OF law honest_partial_reduce _ _ p(1) t(1)])
    show "sound_plan c" if "sound_plan p" "c \<in> set (kids p)" for p c
      using that by (cases p) (simp add: sound_plan_Plan)
    show "\<forall>k. improves k p q" if "sound_plan p" "list_all2 (\<lambda>p q. \<forall>k. improves k p q) (kids p) qs"
      "rebuilt kids (rebuild_plan (se_planner ses)) p qs r" "partial_reduce_step ses r = Inr (q, ch)" for p qs r q ch
      using improves_rebuilt [OF ok that(1-3)] partial_reduce_improves [OF ok _ that(4)] improves_trans
      by (meson improves_def)
  qed
  then show ?thesis
    using t(2) by blast
next
  case False
  then show ?thesis
    using p improves_refl by (auto simp: partial_reduce_below_network_shuffles_def)
qed

text \<open>An operator with another fetch limit.\<close>

lemma without_fetch_same:
  assumes "without_fetch n' = without_fetch n"
  shows "wf_node n' k = wf_node n k" "child_tcs tc (Plan n' cs) = child_tcs tc (Plan n cs)"
    "collecting_join n' = collecting_join n" "collecting_join n \<Longrightarrow> n' = n"
    "(case n' of IsolatorUnionNode u \<Rightarrow> task_map_inv u | _ \<Rightarrow> True) = (case n of IsolatorUnionNode u \<Rightarrow> task_map_inv u | _ \<Rightarrow> True)"
proof -
  show "wf_node n' k = wf_node n k"
    using assms by (cases rule: without_fetch_cases) (simp_all add: wf_node_def collects_left_def)
  show "child_tcs tc (Plan n' cs) = child_tcs tc (Plan n cs)"
    using assms by (cases rule: without_fetch_cases) (simp_all add: child_tcs_def)
  show "collecting_join n' = collecting_join n"
    using assms by (cases rule: without_fetch_cases) (simp_all add: collecting_join_def)
  show "n' = n" if "collecting_join n"
    using assms that by (cases rule: without_fetch_cases) (simp_all add: collecting_join_def)
  show "(case n' of IsolatorUnionNode u \<Rightarrow> task_map_inv u | _ \<Rightarrow> True) = (case n of IsolatorUnionNode u \<Rightarrow> task_map_inv u | _ \<Rightarrow> True)"
    using assms by (cases rule: without_fetch_cases) simp_all
qed

lemma with_fetch_safe:
  assumes "kids q = kids p" "without_fetch (node_of q) = without_fetch (node_of p)"
  shows "sound_plan p \<Longrightarrow> sound_plan q" "sound_plan p \<Longrightarrow> joins_safe p k \<Longrightarrow> joins_safe q k"
proof -
  obtain n n' cs where eq: "p = Plan n cs" "q = Plan n' cs" and n: "without_fetch n' = without_fetch n"
    using assms by (cases p; cases q) simp
  note same = without_fetch_same [OF n]
  show sound: "sound_plan p \<Longrightarrow> sound_plan q"
    using eq same by (simp add: sound_plan_Plan)
  show "joins_safe q k" if p: "sound_plan p" "joins_safe p k"
  proof -
    have wf: "wf_node n (length cs)" "wf_node n' (length cs)"
      using p(1) sound eq by (simp_all add: sound_plan_Plan)
    then show ?thesis
      using p(2) same(2-4) by (auto simp: eq joins_safe_Plan join_safe_def)
  qed
qed

lemma limit_safe:
  assumes "fetch_ok ses" "sound_plan p" "se_with_fetch ses p n = Some q \<or> q = Plan (OtherNode (se_local_limit ses n)) [p]"
  shows "sound_plan q" "joins_safe p k \<Longrightarrow> joins_safe q k"
proof -
  consider "kids q = kids p" "without_fetch (node_of q) = without_fetch (node_of p)"
    | "q = Plan (OtherNode (se_local_limit ses n)) [p]"
    using assms(1,3) unfolding fetch_ok_def by blast
  then have "sound_plan q \<and> (joins_safe p k \<longrightarrow> joins_safe q k)"
    by cases (use with_fetch_safe assms(2) in \<open>auto simp: sound_plan_Plan joins_safe_inner\<close>)
  then show "sound_plan q" "joins_safe p k \<Longrightarrow> joins_safe q k"
    by blast+
qed

lemma fetch_input_safe:
  assumes ok: "planner_ok (se_planner ses)" "fetch_ok ses" and input: "sound_plan input"
    and step: "fetch_input ses input limit = Inr input'"
  shows "sound_plan input' \<and> (\<forall>k. joins_safe input k \<longrightarrow> joins_safe input' k)"
  using step
proof (cases rule: fetch_input_cases)
  case 1
  then show ?thesis
    using input by simp
next
  case (2 o' c c')
  have c: "sound_plan c"
    using input 2(1) by (simp add: sound_plan_Plan)
  note limit = limit_safe [OF ok(2) c 2(3)]
  have "input' = Plan (OtherNode o') [c']"
    using 2(1,2) ok(1) by (auto simp: rebuild_plan_def bind_res_eq_Inr replace_children_def planner_ok_def)
  then show ?thesis
    using limit(1) limit(2) 2(1) by (simp add: sound_plan_Plan joins_safe_inner)
next
  case 3
  note limit = limit_safe [OF ok(2) input 3]
  show ?thesis
    using limit(1) limit(2) by simp
qed

lemma push_fetch_child_safe:
  assumes ok: "planner_ok (se_planner ses)" "fetch_ok ses" and c: "sound_plan c" and step: "push_fetch_child ses limit c = Inr c'"
  shows "improves k c c'"
  using step
proof (cases rule: push_fetch_child_cases)
  case 1
  then show ?thesis
    using improves_refl [OF c] by simp
next
  case (2 co input input')
  note c_eq = 2(1) and run = 2(2) and c' = 2(3)
  have input: "sound_plan input"
    using c c_eq by (simp add: sound_plan_Plan)
  note safe = fetch_input_safe [OF ok input run]
  have "improves k (Plan (NetworkCoalesceNode co) [input]) (Plan (NetworkCoalesceNode co) [input'])"
    using c c_eq safe by (intro improves_boundary) (simp_all add: is_network_boundary_def)
  then show ?thesis
    using c_eq c' by simp
qed

lemma push_fetch_step_safe:
  assumes ok: "planner_ok (se_planner ses)" "fetch_ok ses" and p: "sound_plan p" and step: "push_fetch_step ses p = Inr (q, ch)"
  shows "improves k p q"
  using step
proof (cases rule: push_fetch_step_cases)
  case 1
  then show ?thesis
    using improves_refl [OF p] by simp
next
  case (2 limit n cs cs' n')
  have "improves j (cs ! i) (cs' ! i)" if "i < length cs" for i j
    using 2(4) that p push_fetch_child_safe [OF ok, of "cs ! i" limit "cs' ! i" j]
    by (auto simp: list_all2_conv_all_nth sound_plan_Plan 2(1))
  then show ?thesis
    unfolding 2(1,6) using p 2(1,5) list_all2_lengthD [OF 2(4)] by (intro improves_node [OF ok(1)]) auto
qed

lemma push_fetch_safe:
  assumes ok: "planner_ok (se_planner ses)" "fetch_ok ses"
    and law: "transform_down_law kids (rebuild_plan (se_planner ses)) td (stateless (push_fetch_step ses))"
    and p: "sound_plan p" "push_fetch_into_network_coalesce ses td p = Inr q"
  shows "improves k p q"
proof -
  obtain t s' where t: "td (stateless (push_fetch_step ses)) p () = Inr (t, s')" "q = data t"
    using p(2) by (auto simp: push_fetch_into_network_coalesce_def bind_res_eq_Inr)
  have "tnr t = Continue \<and> (\<forall>k. improves k p (data t)) \<and> (\<not> changed t \<longrightarrow> data t = p)"
  proof (rule down_pass [where w = weight and I = sound_plan, OF law honest_push_fetch _ _ p(1) t(1)])
    show "sound_plan c \<and> weight c < weight p" if p: "sound_plan p" "push_fetch_step ses p = Inr (q, ch)" and c: "c \<in> set (kids q)" for p q ch c
    proof
      show "sound_plan c"
        using push_fetch_step_safe [OF ok p] c by (cases q) (auto simp: improves_def sound_plan_Plan)
      show "weight c < weight p"
        using push_fetch_shrinks [OF ok] p(2) c unfolding shrinks_def by blast
    qed
    show "\<forall>k. improves k p r" if "sound_plan p" "push_fetch_step ses p = Inr (q, ch)"
      "list_all2 (\<lambda>p q. \<forall>k. improves k p q) (kids q) qs" "rebuilt kids (rebuild_plan (se_planner ses)) q qs r" for p q ch qs r
      using push_fetch_step_safe [OF ok that(1,2)] improves_rebuilt [OF ok(1) _ that(3,4)] improves_trans
      by (meson improves_def)
  qed
  then show ?thesis
    using t(2) by blast
qed

section \<open>The composition\<close>

lemma joins_safe_one: "wf_plan p \<Longrightarrow> joins_safe p k \<Longrightarrow> joins_safe p 1"
proof (induction p)
  case (Plan n cs)
  have wf: "wf_node n (length cs)" "\<forall>c \<in> set cs. wf_plan c"
    using Plan.prems(1) by (simp_all add: list_all_iff)
  note safe = Plan.prems(2) [unfolded joins_safe_Plan [OF wf(1)]]
  have one: "join_safe (Plan n cs, 1)"
    by (simp add: join_safe_def)
  show ?case
  proof (cases "is_network_boundary n \<or> is_isolator_union n")
    case True
    then have "child_tcs 1 (Plan n cs) = child_tcs k (Plan n cs)"
      by (cases n) (simp_all add: child_tcs_def is_network_boundary_def is_isolator_union_def)
    then show ?thesis
      using safe one by (simp add: joins_safe_Plan [OF wf(1)])
  next
    case False
    then have same: "child_tcs j (Plan n cs) = replicate (length cs) j" for j
      by (intro child_tcs_other) (auto simp: isolator_union_eq)
    show ?thesis
      using safe one Plan.IH wf(2) by (auto simp: joins_safe_Plan [OF wf(1)] same list_all2_replicate_right)
  qed
qed

lemma collecting_join_cases:
  "collecting_join n \<Longrightarrow> single_task_join bj n \<or> (bj \<and> can_broadcast_left_input n)"
  by (cases n) (auto simp: collecting_join_def single_task_join_def can_broadcast_left_input_def)

lemma all_plans_counted: "all_plans P p \<Longrightarrow> x \<in> set (counted_nodes p k) \<Longrightarrow> P (fst x)"
  by (induction p arbitrary: k) (auto simp: list_all_iff dest!: set_zip_leftD)

lemma placed_joins_safe:
  assumes "\<forall>x \<in> set (counted_nodes p k). placed bj m x" "fed bj p"
  shows "joins_safe p k"
  unfolding joins_safe_def list_all_iff
proof
  fix x
  assume x: "x \<in> set (counted_nodes p k)"
  have "placed bj m x" and "bj \<longrightarrow> can_broadcast_left_input (node_of (fst x)) \<longrightarrow> coalesced_over is_network_broadcast (kids (fst x))"
    using assms x by (auto simp: fed_def broadcast_ready_def dest: all_plans_counted)
  then show "join_safe x"
    using collecting_join_cases [of "node_of (fst x)" bj] by (auto simp: join_safe_def placed_def needs_one_task_def)
qed

lemma inject_safe:
  assumes ok: "planner_ok env" "max_tasks env = Inr m" "m < 2 ^ 53"
    and p: "local_plan p" "pl_broadcast_joins env \<longrightarrow> broadcast_ready is_broadcast p"
    and q: "inject_network_boundaries env (cardinality_build env) p = Inr q"
  shows "sound_plan (erase q) \<and> joins_safe (erase q) 1"
proof -
  obtain s where run: "inject env (cardinality_build env) p None 1 = Inr (q, s)"
    using q by (auto simp: inject_network_boundaries_def bind_res_eq_Inr)
  have wf: "wf_plan p" "\<forall>n \<in> nodes_of p. \<not> is_network_boundary n"
    using p(1) by (simp_all add: local_plan_def)
  obtain a where "\<forall>x \<in> set (counted_nodes (erase q) (as_usize a)). placed (pl_broadcast_joins env) m x"
    using inject_ok [OF ok wf run] by blast
  moreover have fed: "fed (pl_broadcast_joins env) (erase q)"
    using inject_fed [OF ok(1) p run] by blast
  ultimately have "joins_safe (erase q) (as_usize a)"
    by (rule placed_joins_safe)
  then show ?thesis
    using joins_safe_one fed by (auto simp: fed_def sound_plan_def)
qed

lemma rewriters_okD:
  assumes "rewriters_ok ses rw"
  shows "transform_down_law kids (rebuild_plan (se_planner ses)) (rw_down rw) (stateless (normalize_step ses))"
    "transform_down_law kids (rebuild_plan (se_planner ses)) (rw_down rw) (stateless (insert_broadcast_step ses))"
    "transform_down_law kids (rebuild_plan (se_planner ses)) (rw_down rw) (stateless (insert_union_step ses))"
    "transform_down_law kids (rebuild_plan (se_planner ses)) (rw_down rw) (stateless (push_fetch_step ses))"
    "transform_up_law kids (rebuild_plan (se_planner ses)) (rw_up rw) (stateless (partial_reduce_step ses))"
    "transform_down_up_law kids (rebuild_plan (se_planner ses)) (rw_down_up rw) (up_push Panic)
       (up_pop Panic (continuing (prepare_step (se_planner ses))))"
    "has_boundary rw p \<longleftrightarrow> \<not> all_plans (\<lambda>q. \<not> is_network_boundary (node_of q)) p"
  using assms by (simp_all add: rewriters_ok_def has_boundary_def)

lemma shape_plan_ready:
  assumes "planner_ok (se_planner ses)" "swap_ok ses" "rewriters_ok ses rw" "local_plan p" "shape_plan ses rw p = Inr q"
  shows "local_plan q \<and> (pl_broadcast_joins (se_planner ses) \<longrightarrow> broadcast_ready is_broadcast q)"
proof -
  note laws = rewriters_okD [OF assms(3)]
  obtain p1 p2 where p1: "normalize_collect_joins ses (rw_down rw) p = Inr p1"
    and p2: "insert_broadcast_execs ses (rw_down rw) (if 1 < partitions_of (se_planner ses) p1 then Plan (CoalescePartitionsNode None) [p1] else p1) = Inr p2"
    and q: "insert_children_isolator_unions ses (rw_down rw) p2 = Inr q"
    using assms(5) by (auto simp: shape_plan_def Let_def bind_res_eq_Inr)
  have "local_plan p1"
    by (rule normalize_local [OF assms(1,2) laws(1) assms(4) p1])
  then have "local_plan (if 1 < partitions_of (se_planner ses) p1 then Plan (CoalescePartitionsNode None) [p1] else p1)"
    by (simp add: local_plan_Plan)
  from insert_broadcast_ready [OF assms(1) laws(2) this p2] show ?thesis
    using insert_unions_ready [OF assms(1) laws(3) _ q] by blast
qed

section \<open>An example\<close>

text \<open>A right join whose build side is broadcast, over a left join that gets partitioned.\<close>

definition example_session :: "(unit, unit, unit, nat, unit) session" where
  "example_session =
     \<lparr>se_planner = example_planner\<lparr>pl_broadcast_joins := True\<rparr>, se_target_partitions = 2, se_isolator_unions = True,
      se_partial_reduce = True, se_dynamic_task_count = False, se_collect_metrics = True, se_collect_dynamic_filters = True,
      se_swap_inputs = (\<lambda>_. Inl ()), se_join = (\<lambda>_ _. Inr ()), se_aggregate = (\<lambda>_ _. Inr ()), se_column = (\<lambda>_ _. ()),
      se_fetch = (\<lambda>_. None), se_with_fetch = (\<lambda>_ _. None), se_local_limit = (\<lambda>n. n), se_is_projection = (\<lambda>_. False)\<rparr>"

definition example_rewriters :: "(unit, unit, unit, nat, unit) rewriters" where
  "example_rewriters =
     \<lparr>rw_down = guarded_down weight (rebuild_plan (se_planner example_session)),
      rw_up = example_up (rebuild_plan (se_planner example_session)),
      rw_down_up = example_down_up (rebuild_plan (se_planner example_session)),
      rw_exists = (\<lambda>P p. \<not> all_plans (\<lambda>q. \<not> P q) p)\<rparr>"

definition example_query :: "(unit, unit, unit, nat) plan" where
  "example_query =
     Plan (HashJoinNode CollectLeft RightJoin False [])
       [Plan (OtherNode 1) [],
        Plan (HashJoinNode CollectLeft LeftJoin False [((), ())]) [Plan (OtherNode 2) [], Plan (OtherNode 3) []]]"

lemma example_distributed:
  "\<exists>q. create_distributed_plan example_session example_rewriters (\<lambda>a _. Inr a) (EnginePlan example_query :: (_, unit) original) =
     Inr (DistributedExec q True True) \<and> stage_sizes q = [3, 3, 3, 3]"
proof -
  have "bind_res (create_distributed_plan example_session example_rewriters (\<lambda>a _. Inr a) (EnginePlan example_query :: (_, unit) original))
     (\<lambda>r. case r of DistributedExec q m f \<Rightarrow> Inr (m, f, stage_sizes q) | _ \<Rightarrow> Inl Panic) = Inr (True, True, [3, 3, 3, 3])"
    by code_simp
  then obtain r where r: "create_distributed_plan example_session example_rewriters (\<lambda>a _. Inr a) (EnginePlan example_query :: (_, unit) original) = Inr r"
    "(case r of DistributedExec q m f \<Rightarrow> Inr (m, f, stage_sizes q) | _ \<Rightarrow> Inl (Panic :: unit plan_error)) = Inr (True, True, [3, 3, 3, 3])"
    unfolding bind_res_eq_Inr by blast
  then show ?thesis
    by (cases r) auto
qed

lemma example_session_ok: "planner_ok (se_planner example_session)" "swap_ok example_session" "fetch_ok example_session"
  "max_tasks (se_planner example_session) = Inr 4" "\<not> se_dynamic_task_count example_session"
  by (simp_all add: example_session_def planner_ok_def example_planner_def max_tasks_def ann_soft_def swap_ok_def fetch_ok_def)

lemma guarded_pass_law: "shrinks f \<Longrightarrow> transform_down_law kids rebuild (guarded_down weight rebuild) (stateless f)"
  by (rule guarded_down_law) (auto simp: stateless_Inr shrinks_def)

lemma example_rewriters_ok: "rewriters_ok example_session example_rewriters"
proof -
  have down: "list_all (\<lambda>f. transform_down_law kids (rebuild_plan (se_planner example_session)) (rw_down example_rewriters) (stateless f))
       [normalize_step example_session, insert_broadcast_step example_session, insert_union_step example_session, push_fetch_step example_session]"
    unfolding list.pred_inject(2) example_rewriters_def rewriters.simps
    by (intro conjI list.pred_inject(1) guarded_pass_law normalize_shrinks insert_broadcast_shrinks insert_union_shrinks push_fetch_shrinks
        example_session_ok)
  moreover have "transform_up_law kids (rebuild_plan (se_planner example_session)) (rw_up example_rewriters) (stateless (partial_reduce_step example_session))"
    unfolding example_rewriters_def rewriters.simps by (rule example_up_law)
  moreover have "transform_down_up_law kids (rebuild_plan (se_planner example_session)) (rw_down_up example_rewriters) (up_push Panic)
       (up_pop Panic (continuing (prepare_step (se_planner example_session))))"
    unfolding example_rewriters_def rewriters.simps by (rule example_down_up_law) (rule keeps_children_up_push)
  ultimately show ?thesis
    unfolding rewriters_ok_def by (simp add: example_rewriters_def)
qed

lemma example_query_local: "local_plan example_query"
  by (simp add: example_query_def local_plan_Plan wf_node_def collects_left_def)

section \<open>Properties\<close>

text \<open>C6. In the distributed plan of a query, a join that collects its build side runs in a single task, or
  it is of a type that emits no unmatched build rows and its build side is coalesced from a network
  broadcast, so that every one of its tasks sees the whole build side.\<close>

theorem distributed_joins_safe:
  assumes ok: "planner_ok (se_planner ses)" "swap_ok ses" "fetch_ok ses" "rewriters_ok ses rw"
    and m: "max_tasks (se_planner ses) = Inr m" "m < 2 ^ 53"
    and p: "local_plan p" "\<not> se_dynamic_task_count ses"
    and q: "create_distributed_plan ses rw replace_analyze (EnginePlan p) = Inr (DistributedExec q metrics filters)"
  shows "joins_safe q 1"
proof -
  note laws = rewriters_okD [OF ok(4)]
  have "all_plans (\<lambda>q. \<not> is_network_boundary (node_of q)) p"
    using p(1) by (induction p) (simp add: local_plan_Plan list_all_iff)
  then have "\<not> has_boundary rw p"
    using laws(7) by simp
  then obtain p1 p2 p3 p4 where p1: "shape_plan ses rw p = Inr p1"
    and p2: "inject_network_boundaries (se_planner ses) (cardinality_build (se_planner ses)) p1 = Inr p2"
    and p3: "prepare_network_boundaries (se_planner ses) (rw_down_up rw) (erase p2) = Inr p3"
    and p4: "partial_reduce_below_network_shuffles ses (rw_up rw) p3 = Inr p4"
    and q: "push_fetch_into_network_coalesce ses (rw_down rw) p4 = Inr q"
    using q p(2) by (auto simp: distribute_plan_def bind_res_eq_Inr create_distributed_exec_def split: if_splits)
  have "local_plan p1 \<and> (pl_broadcast_joins (se_planner ses) \<longrightarrow> broadcast_ready is_broadcast p1)"
    by (rule shape_plan_ready [OF ok(1,2,4) p(1) p1])
  then have "sound_plan (erase p2) \<and> joins_safe (erase p2) 1"
    by (intro inject_safe [OF ok(1) m _ _ p2]) auto
  then have "sound_plan p3 \<and> joins_safe p3 1"
    by (intro prepare_safe [OF ok(1) _ _ laws(6) p3]) auto
  then have "improves 1 p3 p4" "joins_safe p3 1"
    using partial_reduce_safe [OF ok(1) laws(5) _ p4] by auto
  then have "sound_plan p4" "joins_safe p4 1"
    by (simp_all add: improves_def)
  then show ?thesis
    using push_fetch_safe [OF ok(1,3) laws(4) _ q, of 1] by (simp add: improves_def)
qed

theorem distributed_joins_safe_witness:
  "\<exists>q. create_distributed_plan example_session example_rewriters (\<lambda>a _. Inr a) (EnginePlan example_query :: (_, unit) original) =
     Inr (DistributedExec q True True) \<and> stage_sizes q = [3, 3, 3, 3] \<and> joins_safe q 1"
proof -
  obtain q where q: "create_distributed_plan example_session example_rewriters (\<lambda>a _. Inr a) (EnginePlan example_query :: (_, unit) original) =
     Inr (DistributedExec q True True)" "stage_sizes q = [3, 3, 3, 3]"
    using example_distributed by blast
  have "joins_safe q 1"
    using distributed_joins_safe [OF example_session_ok(1-3) example_rewriters_ok example_session_ok(4) _ example_query_local example_session_ok(5) q(1)]
    by simp
  then show ?thesis
    using q by blast
qed

text \<open>C24. The top-down passes of the planner terminate, although they put new nodes below the ones they
  visit: from a visited plan they go on to smaller plans only, so the engine's rewriter can only
  return what the terminating recursion over these plans computes.\<close>

theorem planner_passes_terminate:
  assumes "planner_ok (se_planner ses)" "swap_ok ses" "fetch_ok ses"
    "f \<in> {normalize_step ses, insert_broadcast_step ses, insert_union_step ses, push_fetch_step ses}"
    "transform_down_law kids rebuild td (stateless f)"
  shows "wf {(c, p). \<exists>q ch. f p = Inr (q, ch) \<and> c \<in> set (kids q)} \<and>
    td (stateless f) p s = guarded_down weight rebuild (stateless f) p s"
proof
  have f: "shrinks f"
    using assms(4) normalize_shrinks [OF assms(1,2)] insert_broadcast_shrinks [OF assms(1)] insert_union_shrinks
      push_fetch_shrinks [OF assms(1,3)] by blast
  show "wf {(c, p). \<exists>q ch. f p = Inr (q, ch) \<and> c \<in> set (kids q)}"
    by (rule wf_subset [OF wf_measure [of weight]]) (use f in \<open>auto simp: shrinks_def\<close>)
  show "td (stateless f) p s = guarded_down weight rebuild (stateless f) p s"
    using f by (intro transform_down_unique [OF assms(5) guarded_pass_law [OF f], of weight]) (auto simp: stateless_Inr shrinks_def)
qed

theorem planner_passes_terminate_witness:
  "wf {(c, p). \<exists>q ch. insert_broadcast_step example_session p = Inr (q, ch) \<and> c \<in> set (kids q)} \<and>
   rw_down example_rewriters (stateless (insert_broadcast_step example_session)) example_query () =
     guarded_down weight (rebuild_plan (se_planner example_session)) (stateless (insert_broadcast_step example_session)) example_query ()"
  using planner_passes_terminate [OF example_session_ok(1-3) _ rewriters_okD(2) [OF example_rewriters_ok]] by blast

end
