(* ===== verification/Routing.thy ===== *)
theory Routing
  imports DatafusionErrors EventHandlers Recursion "HOL-Library.Sublist"
begin

text \<open>
  Assignment of tasks to workers: the built-in handlers
  (\<open>src/src/events/defaults/routing.rs\<close>), the chain of handlers
  (\<open>src/src/events/route_tasks.rs\<close>), and the tags that say how a failed dial may be retried
  (\<open>src/src/common/retry_outcome.rs\<close>).

  A dialer may answer differently each time it is called, so it is a function of the history of
  what was done so far; every operation returns the history that it extends. The random number
  generator is a parameter.
\<close>

section \<open>Retry tags\<close>

datatype retry_outcome = SameUrl | OtherUrl

definition same_url_tag :: string where
  "same_url_tag = ''RetryOutcome::SameUrl''"

definition other_url_tag :: string where
  "other_url_tag = ''RetryOutcome::OtherUrl''"

definition try_from_err :: "datafusion_error \<Rightarrow> retry_outcome option" where
  "try_from_err e =
     (case e of
        DF_Context info _ \<Rightarrow>
          if info = same_url_tag then Some SameUrl
          else if info = other_url_tag then Some OtherUrl
          else None
      | _ \<Rightarrow> None)"

definition tag_error :: "retry_outcome \<Rightarrow> datafusion_error \<Rightarrow> datafusion_error" where
  "tag_error r e = DF_Context (case r of SameUrl \<Rightarrow> same_url_tag | OtherUrl \<Rightarrow> other_url_tag) e"

section \<open>Dialing with failover\<close>

datatype route_event = Dialed url | Slept nat | SameUrlRetry | OtherUrlRetry

type_synonym 'resp dialer = "route_event list \<Rightarrow> url \<Rightarrow> (datafusion_error, 'resp) res"

record retry_config =
  max_retries :: nat
  initial_backoff :: nat
  max_backoff :: nat

text \<open>The longest duration, in milliseconds.\<close>

definition duration_max :: nat where
  "duration_max = (2 ^ 64 - 1) * 1000 + 999"

text \<open>The delay doubles up to a maximum; the loop ends early there.\<close>

primrec backoff_loop :: "nat \<Rightarrow> nat \<Rightarrow> nat \<Rightarrow> nat" where
  "backoff_loop 0 mx backoff = backoff"
| "backoff_loop (Suc k) mx backoff =
     (let backoff = min (min duration_max (backoff * 2)) mx
      in if backoff = mx then backoff else backoff_loop k mx backoff)"

definition same_url_retry_backoff :: "nat \<Rightarrow> nat \<Rightarrow> nat \<Rightarrow> nat" where
  "same_url_retry_backoff retry init mx = backoff_loop retry mx (min init mx)"

text \<open>\<open>retain\<close> with a set of the urls that were seen: every other url once.\<close>

fun retain_new :: "url list \<Rightarrow> url list \<Rightarrow> url list" where
  "retain_new seen [] = []"
| "retain_new seen (c # cs) = (if c \<in> set seen then retain_new seen cs else c # retain_new (c # seen) cs)"

definition dial_errors :: "datafusion_error list \<Rightarrow> datafusion_error" where
  "dial_errors errs =
     (case errs of
        [] \<Rightarrow> DF_Internal ''No URLs available for coordinator-to-worker connection''
      | [e] \<Rightarrow> e
      | _ \<Rightarrow> DF_Collection errs)"

text \<open>
  The loop over the attempts that are left: the current url, the urls to try next with the first
  one at the end, the errors so far, and the retries on the current url.
\<close>

primrec dial_attempts ::
  "'resp dialer \<Rightarrow> retry_config \<Rightarrow> nat \<Rightarrow> nat \<Rightarrow> url \<Rightarrow> url list \<Rightarrow> datafusion_error list \<Rightarrow> nat \<Rightarrow> route_event list \<Rightarrow>
   (datafusion_error, 'resp) res \<times> route_event list" where
  "dial_attempts dial cfg 0 attempt url retry_urls errs same h = (Inl (dial_errors errs), h)"
| "dial_attempts dial cfg (Suc left) attempt url retry_urls errs same h =
     (case dial h url of
        Inr r \<Rightarrow> (Inr r, h @ [Dialed url])
      | Inl e \<Rightarrow>
          (case try_from_err e of
             None \<Rightarrow> (Inl e, h @ [Dialed url])
           | Some SameUrl \<Rightarrow>
               if attempt < max_retries cfg then
                 dial_attempts dial cfg left (attempt + 1) url retry_urls (errs @ [e]) (same + 1)
                   (h @ [Dialed url, SameUrlRetry, Slept (same_url_retry_backoff same (initial_backoff cfg) (max_backoff cfg))])
               else
                 dial_attempts dial cfg left (attempt + 1) url retry_urls (errs @ [e]) same (h @ [Dialed url, SameUrlRetry])
           | Some OtherUrl \<Rightarrow>
               if retry_urls = [] then (Inl (dial_errors (errs @ [e])), h @ [Dialed url, OtherUrlRetry])
               else
                 dial_attempts dial cfg left (attempt + 1) (last retry_urls) (butlast retry_urls) (errs @ [e]) 0
                   (h @ [Dialed url, OtherUrlRetry])))"

definition dial_with_failover ::
  "(url list \<Rightarrow> url list) \<Rightarrow> 'resp dialer \<Rightarrow> retry_config \<Rightarrow> url \<Rightarrow> url list \<Rightarrow> route_event list \<Rightarrow>
   (datafusion_error, 'resp) res \<times> route_event list" where
  "dial_with_failover shuffle dial cfg url retry_urls h =
     dial_attempts dial cfg (sat_add (max_retries cfg) 1) 0 url (shuffle (retain_new [url] retry_urls)) [] 0 h"

section \<open>Handlers\<close>

record task_key =
  key_query_id :: uuid
  key_stage_id :: nat
  key_task_number :: nat

text \<open>\<open>random_range\<close> of a generator that is seeded by the query and the stage.\<close>

definition stage_contiguous_rand_offset :: "(uuid \<Rightarrow> nat \<Rightarrow> nat \<Rightarrow> nat) \<Rightarrow> task_key \<Rightarrow> 'a list \<Rightarrow> 'a option" where
  "stage_contiguous_rand_offset random_range key xs =
     (if xs = [] then None
      else
        (let start = random_range (key_query_id key) (key_stage_id key) (length xs);
             i = (start + key_task_number key mod length xs) mod length xs
         in Some (xs ! i)))"

record ('x, 'r, 'q, 'o, 'resp) route_task =
  ev_task_key :: task_key
  ev_task_count :: nat
  ev_plan :: "('x, 'r, 'q, 'o) plan"
  ev_urls :: "(datafusion_error, url list) res"
  ev_self_url :: "url option"
  ev_retry_config :: "(datafusion_error, retry_config) res"
  ev_dialer :: "'resp dialer"

type_synonym ('x, 'r, 'q, 'o, 'resp) route_handler =
  "('x, 'r, 'q, 'o, 'resp) route_task \<Rightarrow> route_event list \<Rightarrow> (datafusion_error, 'resp) res option \<times> route_event list"

definition random_route_handle ::
  "(uuid \<Rightarrow> nat \<Rightarrow> nat \<Rightarrow> nat) \<Rightarrow> (url list \<Rightarrow> url list) \<Rightarrow> ('x, 'r, 'q, 'o, 'resp) route_handler" where
  "random_route_handle random_range shuffle ev h =
     (case ev_urls ev of
        Inl e \<Rightarrow> (Some (Inl e), h)
      | Inr urls \<Rightarrow>
          (case stage_contiguous_rand_offset random_range (ev_task_key ev) urls of
             None \<Rightarrow> (None, h)
           | Some url \<Rightarrow>
               (case ev_retry_config ev of
                  Inl e \<Rightarrow> (Some (Inl e), h)
                | Inr cfg \<Rightarrow>
                    (case dial_with_failover shuffle (ev_dialer ev) cfg url urls h of (r, h) \<Rightarrow> (Some r, h)))))"

definition single_task_coordinator_handle :: "('x, 'r, 'q, 'o, 'resp) route_handler" where
  "single_task_coordinator_handle ev h =
     (if ev_task_count ev \<noteq> 1 then (None, h)
      else case ev_self_url ev of
             None \<Rightarrow> (None, h)
           | Some url \<Rightarrow> (Some (ev_dialer ev h url), h @ [Dialed url]))"

text \<open>
  The visitor of the task's plan: it goes down to the first boundary whose input stage runs on a
  single worker, and never below a boundary.
\<close>

definition single_worker :: "('x, 'r, 'q, 'o) node \<Rightarrow> url option" where
  "single_worker n =
     (case input_stage n of
        Some (Remote r) \<Rightarrow> (case rs_workers r of [url] \<Rightarrow> Some url | _ \<Rightarrow> None)
      | _ \<Rightarrow> None)"

definition child_url_visit :: "('x, 'r, 'q, 'o) plan \<Rightarrow> ('e, url option) visit" where
  "child_url_visit p found =
     (if \<not> is_network_boundary (node_of p) then Inr (Continue, found)
      else case single_worker (node_of p) of
             Some url \<Rightarrow> Inr (Stop, Some url)
           | None \<Rightarrow> Inr (Jump, found))"

definition child_url :: "(unit, url option) visit_lib \<Rightarrow> ('x, 'r, 'q, 'o) plan \<Rightarrow> url option" where
  "child_url L p = (case tree_apply L child_url_visit p None of Inr (_, found) \<Rightarrow> found | Inl _ \<Rightarrow> None)"

definition single_task_child_url_handle ::
  "(unit, url option) visit_lib \<Rightarrow> ('x, 'r, 'q, 'o, 'resp) route_handler" where
  "single_task_child_url_handle L ev h =
     (if ev_task_count ev \<noteq> 1 then (None, h)
      else case child_url L (ev_plan ev) of
             None \<Rightarrow> (None, h)
           | Some url \<Rightarrow>
               (case ev_dialer ev h url of
                  Inr r \<Rightarrow> (Some (Inr r), h @ [Dialed url])
                | Inl _ \<Rightarrow> (None, h @ [Dialed url])))"

text \<open>The handlers are asked one after the other until one answers.\<close>

fun route_in_order ::
  "('x, 'r, 'q, 'o, 'resp) route_handler list \<Rightarrow> ('x, 'r, 'q, 'o, 'resp) route_handler" where
  "route_in_order [] ev h = (None, h)"
| "route_in_order (g # gs) ev h =
     (case g ev h of
        (Some r, h) \<Rightarrow> (Some r, h)
      | (None, h) \<Rightarrow> route_in_order gs ev h)"

definition route_task_handlers_handle ::
  "('x, 'r, 'q, 'o, 'resp) route_handler handler_chain option \<Rightarrow> ('x, 'r, 'q, 'o, 'resp) route_handler" where
  "route_task_handlers_handle ext ev h =
     (case ext of None \<Rightarrow> (None, h) | Some c \<Rightarrow> route_in_order (chain_iter c) ev h)"

text \<open>The chain that \<open>with_distributed_planner\<close> registers.\<close>

definition default_route_handlers where
  "default_route_handlers L random_range shuffle =
     extend_builtin [single_task_coordinator_handle, single_task_child_url_handle L, random_route_handle random_range shuffle] None"

section \<open>What dialing promises\<close>

text \<open>The dials of a history that extends \<open>h\<close>, with what the dialer answered.\<close>

fun answers :: "'resp dialer \<Rightarrow> route_event list \<Rightarrow> route_event list \<Rightarrow> (url \<times> (datafusion_error, 'resp) res) list" where
  "answers dial h [] = []"
| "answers dial h (Dialed u # tr) = (u, dial h u) # answers dial (h @ [Dialed u]) tr"
| "answers dial h (ev # tr) = answers dial (h @ [ev]) tr"

definition retryable :: "(datafusion_error, 'resp) res \<Rightarrow> bool" where
  "retryable r = (case r of Inl e \<Rightarrow> try_from_err e \<noteq> None | Inr _ \<Rightarrow> False)"

definition dial_outcome ::
  "datafusion_error list \<Rightarrow> (datafusion_error, 'resp) res list \<Rightarrow> (datafusion_error, 'resp) res" where
  "dial_outcome errs rs =
     (if rs = [] then Inl (dial_errors errs)
      else if retryable (last rs) then Inl (dial_errors (errs @ map projl rs))
      else last rs)"

text \<open>
  The urls are tried in the given order, each in one uninterrupted run; every answer but the last may
  be retried; and if the last one may be retried, too, either the attempts or the urls were used up.
\<close>

definition dialed_in_order ::
  "nat \<Rightarrow> url list \<Rightarrow> (url \<times> (datafusion_error, 'resp) res) list \<Rightarrow> bool" where
  "dialed_in_order n urls as \<longleftrightarrow>
     as \<noteq> [] \<and> length as \<le> n \<and> prefix (remdups_adj (map fst as)) urls \<and>
     list_all (\<lambda>(_, r). retryable r) (butlast as) \<and>
     (length as = n \<or> remdups_adj (map fst as) = urls \<or> \<not> retryable (snd (last as)))"

definition stage_boundary_nodes :: "('x, 'r, 'q, 'o) node list \<Rightarrow> ('x, 'r, 'q, 'o) node \<Rightarrow> ('x, 'r, 'q, 'o) node list" where
  "stage_boundary_nodes below n = (if is_network_boundary n then [n] else below)"

primrec stage_boundaries :: "('x, 'r, 'q, 'o) plan \<Rightarrow> ('x, 'r, 'q, 'o) node list" where
  "stage_boundaries (Plan n cs) = stage_boundary_nodes (concat (map stage_boundaries cs)) n"

section \<open>Lemmas\<close>

lemma try_from_err_tag [simp]: "try_from_err (tag_error r e) = Some r"
  by (cases r) (simp_all add: try_from_err_def tag_error_def same_url_tag_def other_url_tag_def)

lemma backoff_loop_power:
  assumes "b \<le> mx" "mx * 2 \<le> duration_max"
  shows "backoff_loop k mx b = min (b * 2 ^ k) mx"
  using assms
proof (induction k arbitrary: b)
  case (Suc k)
  have step: "min (min duration_max (b * 2)) mx = min (b * 2) mx"
    using Suc.prems by simp
  show ?case
  proof (cases "mx \<le> b * 2")
    case True
    then have "mx \<le> b * 2 ^ Suc k"
      using order_trans [OF True, of "b * 2 * 2 ^ k"] by (simp add: mult.assoc)
    then show ?thesis
      using step True by (simp add: Let_def)
  next
    case False
    then show ?thesis
      using step Suc.IH [of "b * 2"] Suc.prems by (simp add: Let_def mult.assoc)
  qed
qed simp

text \<open>With delays of 64 bits, the delay before a retry doubles exactly, up to the maximum.\<close>

lemma same_url_retry_backoff_power:
  assumes "mx < 2 ^ 64"
  shows "same_url_retry_backoff k init mx = min (init * 2 ^ k) mx"
proof -
  have "backoff_loop k mx (min init mx) = min (min init mx * 2 ^ k) mx"
    using assms by (intro backoff_loop_power) (simp_all add: duration_max_def)
  moreover have "min (min init mx * 2 ^ k) mx = min (init * 2 ^ k) mx"
  proof (cases "init \<le> mx")
    case False
    have "init * 1 \<le> init * 2 ^ k"
      by (rule mult_le_mono2) simp
    then have "mx \<le> init * 2 ^ k"
      using False by linarith
    moreover have "mx * 1 \<le> mx * 2 ^ k"
      by (rule mult_le_mono2) simp
    ultimately show ?thesis
      using False by (simp add: min_absorb2)
  qed simp
  ultimately show ?thesis
    by (simp add: same_url_retry_backoff_def)
qed

lemma retain_new_props: "set (retain_new seen cs) = set cs - set seen \<and> distinct (retain_new seen cs)"
  by (induction seen cs rule: retain_new.induct) auto

lemma answers_append: "answers dial h (tr @ tr') = answers dial h tr @ answers dial (h @ tr) tr'"
  by (induction dial h tr rule: answers.induct) auto

lemma dialed_in_order_Cons:
  assumes as: "dialed_in_order n (v # rest) as" and r: "retryable r"
    and v: "v = u \<and> urls = v # rest \<or> (v \<noteq> u \<and> urls = u # v # rest)"
  shows "dialed_in_order (Suc n) urls ((u, r) # as)"
proof -
  obtain x xs where as_eq: "as = x # xs"
    using as by (cases as) (auto simp: dialed_in_order_def)
  have "prefix (remdups_adj (map fst as)) (v # rest)"
    using as by (simp add: dialed_in_order_def)
  then have hd: "fst x = v"
    using as_eq by (cases "remdups_adj (map fst xs)") (auto simp: remdups_adj_Cons split: if_splits list.splits)
  then have "remdups_adj (map fst ((u, r) # as)) = (if v = u then remdups_adj (map fst as) else u # remdups_adj (map fst as))"
    by (simp add: as_eq)
  then show ?thesis
    using as r v as_eq by (auto simp: dialed_in_order_def)
qed

lemma dial_outcome_Cons:
  assumes "rs \<noteq> []"
  shows "dial_outcome errs (Inl e # rs) = dial_outcome (errs @ [e]) rs"
  using assms by (simp add: dial_outcome_def)

lemma distinct_last: "distinct xs \<Longrightarrow> xs \<noteq> [] \<Longrightarrow> last xs \<notin> set (butlast xs) \<and> distinct (butlast xs)"
  by (induction xs rule: rev_induct) auto

lemma rev_last: "xs \<noteq> [] \<Longrightarrow> rev xs = last xs # rev (butlast xs)"
  by (induction xs rule: rev_induct) auto

text \<open>A failed attempt before further ones, on the same url or on the next.\<close>

lemma dial_more:
  assumes "distinct (url # us)" "url' = url \<and> us' = us \<or> (us \<noteq> [] \<and> url' = last us \<and> us' = butlast us)"
    "dial h url = Inl e" "try_from_err e \<noteq> None" "\<And>h0. answers dial h0 tr = []"
    and rest: "dialed_in_order n (url' # rev us') (answers dial (h @ Dialed url # tr) tr')"
  shows "dialed_in_order (Suc n) (url # rev us) (answers dial h (Dialed url # tr @ tr'))"
    "dial_outcome errs (map snd (answers dial h (Dialed url # tr @ tr'))) =
       dial_outcome (errs @ [e]) (map snd (answers dial (h @ Dialed url # tr) tr'))"
proof -
  have retry: "retryable (dial h url)"
    using assms(3,4) by (simp add: retryable_def)
  have split: "answers dial h (Dialed url # tr @ tr') = (url, Inl e) # answers dial (h @ Dialed url # tr) tr'"
    using assms(3,5) answers_append [of dial "h @ [Dialed url]" tr tr'] by simp
  have order: "url' = url \<and> url # rev us = url' # rev us' \<or> (url' \<noteq> url \<and> url # rev us = url # url' # rev us')"
    using assms(1,2) by (auto simp: rev_last)
  show "dialed_in_order (Suc n) (url # rev us) (answers dial h (Dialed url # tr @ tr'))"
    unfolding split using dialed_in_order_Cons [OF rest retry order] assms(3) by simp
  show "dial_outcome errs (map snd (answers dial h (Dialed url # tr @ tr'))) =
       dial_outcome (errs @ [e]) (map snd (answers dial (h @ Dialed url # tr) tr'))"
    using rest unfolding split by (simp add: dial_outcome_Cons dialed_in_order_def)
qed

text \<open>A failed attempt after which the loop goes on with \<open>n\<close> attempts left.\<close>

lemma dial_goes_on:
  assumes e: "distinct (url # us)" "dial h url = Inl e" "try_from_err e \<noteq> None" "\<And>h0. answers dial h0 tr = []"
    and url': "url' = url \<and> us' = us \<or> (us \<noteq> [] \<and> url' = last us \<and> us' = butlast us)"
    and run: "dial_attempts dial cfg n a url' us' (errs @ [e]) same (h @ Dialed url # tr) = (r, h')"
    and IH: "0 < n \<Longrightarrow> \<exists>tr'. h' = (h @ Dialed url # tr) @ tr' \<and> dialed_in_order n (url' # rev us') (answers dial (h @ Dialed url # tr) tr') \<and>
      r = dial_outcome (errs @ [e]) (map snd (answers dial (h @ Dialed url # tr) tr'))"
  shows "\<exists>tr. h' = h @ tr \<and> dialed_in_order (Suc n) (url # rev us) (answers dial h tr) \<and> r = dial_outcome errs (map snd (answers dial h tr))"
proof (cases "n = 0")
  case True
  then have "r = Inl (dial_errors (errs @ [e]))" "h' = h @ Dialed url # tr"
    using run by simp_all
  then show ?thesis
    using True e(2-4) by (intro exI [of _ "Dialed url # tr"]) (simp add: dialed_in_order_def dial_outcome_def retryable_def)
next
  case False
  then obtain tr' where "h' = (h @ Dialed url # tr) @ tr'" "dialed_in_order n (url' # rev us') (answers dial (h @ Dialed url # tr) tr')"
    "r = dial_outcome (errs @ [e]) (map snd (answers dial (h @ Dialed url # tr) tr'))"
    using IH by blast
  then show ?thesis
    using dial_more [OF e(1) url' e(2-4)] by (intro exI [of _ "Dialed url # tr @ tr'"]) simp
qed

lemma dial_attempts_spec:
  assumes "distinct (url # us)" "0 < n" "dial_attempts dial cfg n a url us errs same h = (r, h')"
  shows "\<exists>tr. h' = h @ tr \<and> dialed_in_order n (url # rev us) (answers dial h tr) \<and> r = dial_outcome errs (map snd (answers dial h tr))"
  using assms
proof (induction n arbitrary: a url us errs same h)
  case (Suc n)
  have distinct': "distinct (last us # butlast us)" if "us \<noteq> []"
    using Suc.prems(1) distinct_last [of us] that by simp
  consider x where "dial h url = Inr x" | e where "dial h url = Inl e" "try_from_err e = None"
    | e where "dial h url = Inl e" "try_from_err e = Some SameUrl"
    | e where "dial h url = Inl e" "try_from_err e = Some OtherUrl"
    by (metis not_None_eq retry_outcome.exhaust sum.exhaust)
  then show ?case
  proof cases
    case (1 x)
    then have "r = Inr x" "h' = h @ [Dialed url]"
      using Suc.prems(3) by simp_all
    then show ?thesis
      by (intro exI [of _ "[Dialed url]"]) (simp add: 1 dialed_in_order_def dial_outcome_def retryable_def)
  next
    case (2 e)
    then have "r = Inl e" "h' = h @ [Dialed url]"
      using Suc.prems(3) by simp_all
    then show ?thesis
      by (intro exI [of _ "[Dialed url]"]) (simp add: 2 dialed_in_order_def dial_outcome_def retryable_def)
  next
    case (3 e)
    define tr where "tr = (if a < max_retries cfg then
        [SameUrlRetry, Slept (same_url_retry_backoff same (initial_backoff cfg) (max_backoff cfg))] else [SameUrlRetry])"
    define same' where "same' = (if a < max_retries cfg then same + 1 else same)"
    have run: "dial_attempts dial cfg n (a + 1) url us (errs @ [e]) same' (h @ Dialed url # tr) = (r, h')"
      using Suc.prems(3) 3 by (auto simp: tr_def same'_def split: if_splits)
    show ?thesis
      by (rule dial_goes_on [OF Suc.prems(1) 3(1) _ _ _ run]) (use 3 Suc.IH [OF Suc.prems(1) _ run] in \<open>simp_all add: tr_def\<close>)
  next
    case (4 e)
    show ?thesis
    proof (cases "us = []")
      case True
      then have "r = Inl (dial_errors (errs @ [e]))" "h' = h @ [Dialed url, OtherUrlRetry]"
        using Suc.prems(3) 4 by simp_all
      then show ?thesis
        using True 4 by (intro exI [of _ "[Dialed url, OtherUrlRetry]"]) (simp add: dialed_in_order_def dial_outcome_def retryable_def)
    next
      case False
      then have run: "dial_attempts dial cfg n (a + 1) (last us) (butlast us) (errs @ [e]) 0 (h @ Dialed url # [OtherUrlRetry]) = (r, h')"
        using Suc.prems(3) 4 by simp
      show ?thesis
        by (rule dial_goes_on [OF Suc.prems(1) 4(1) _ _ _ run]) (use False 4 Suc.IH [OF distinct' [OF False] _ run] in simp_all)
    qed
  qed
qed simp

text \<open>A worker that always answers is found if the others only ask to be passed over.\<close>

definition healthy :: "'resp dialer \<Rightarrow> url \<Rightarrow> bool" where
  "healthy dial w \<longleftrightarrow> (\<forall>h. \<exists>x. dial h w = Inr x)"

definition passes_over :: "'resp dialer \<Rightarrow> url \<Rightarrow> bool" where
  "passes_over dial u \<longleftrightarrow> (\<forall>h e. dial h u = Inl e \<longrightarrow> try_from_err e = Some OtherUrl)"

lemma set_last_butlast: "us \<noteq> [] \<Longrightarrow> set (last us # butlast us) = set us"
  by (induction us) auto

lemma dial_attempts_healthy:
  assumes "w \<in> set (url # us)" "length (url # us) \<le> n" "healthy dial w" "\<forall>u \<in> set (url # us). passes_over dial u"
  shows "\<exists>x. fst (dial_attempts dial cfg n a url us errs same h) = Inr x"
  using assms(1,2,4)
proof (induction n arbitrary: a url us errs same h)
  case (Suc n)
  show ?case
  proof (cases "dial h url")
    case (Inl e)
    then have "url \<noteq> w" and e: "try_from_err e = Some OtherUrl"
      using assms(3) Suc.prems(3) unfolding healthy_def passes_over_def by (metis Inl_Inr_False, auto)
    then have us: "us \<noteq> []" "w \<in> set us"
      using Suc.prems(1) by auto
    from us(1) have "set (last us # butlast us) = set us"
      by (rule set_last_butlast)
    then have "\<exists>x. fst (dial_attempts dial cfg n (a + 1) (last us) (butlast us) (errs @ [e]) 0 (h @ [Dialed url, OtherUrlRetry])) = Inr x"
      using us Suc.prems(2,3) by (intro Suc.IH) auto
    then show ?thesis
      using Inl e us(1) by simp
  qed simp
qed simp

lemma dial_with_failover_healthy:
  assumes "\<And>us. mset (shuffle us) = mset us" "w \<in> set (url # urls)" "healthy dial w"
    "\<forall>u \<in> set (url # urls). passes_over dial u"
    "card (set (url # urls)) \<le> max_retries cfg + 1" "max_retries cfg < usize_max"
  shows "\<exists>x. fst (dial_with_failover shuffle dial cfg url urls h) = Inr x"
proof -
  let ?us = "shuffle (retain_new [url] urls)"
  have us: "set ?us = set urls - {url}" "length ?us = length (retain_new [url] urls)"
    using assms(1) [of "retain_new [url] urls"] retain_new_props [of "[url]" urls]
    by (auto dest: mset_eq_setD mset_eq_length)
  have "length (retain_new [url] urls) = card (set urls - {url})"
    using retain_new_props [of "[url]" urls] by (metis distinct_card list.set(1) list.simps(15))
  then have len: "length (url # ?us) = card (set (url # urls))"
    using us(2) by (simp add: card.insert_remove)
  have "sat_add (max_retries cfg) 1 = max_retries cfg + 1"
    using assms(6) by (simp add: sat_add_def)
  then show ?thesis
    unfolding dial_with_failover_def using assms(2-5) us(1) len
    by (intro dial_attempts_healthy [of w]) auto
qed

text \<open>The first boundary with a single worker, in the order of the visit.\<close>

lemma child_url_visit_off: "\<not> is_network_boundary n \<Longrightarrow> child_url_visit (Plan n cs) u = Inr (Continue, u)"
  by (simp add: child_url_visit_def)

lemma child_url_visits:
  assumes "visit_law L"
  shows "tree_apply L child_url_visit p None =
    (case iter_find_map single_worker (stage_boundaries p) of
       Some url \<Rightarrow> Inr (Stop, Some url)
     | None \<Rightarrow> Inr (Continue, None))"
proof (induction p)
  case (Plan n cs)
  have children: "apply_until_stop L (map (tree_apply L child_url_visit) ps) None =
      (case iter_find_map single_worker (concat (map stage_boundaries ps)) of
         Some url \<Rightarrow> Inr (Stop, Some url)
       | None \<Rightarrow> Inr (Continue, None))" if "set ps \<subseteq> set cs" for ps
    using that
  proof (induction ps rule: induct_list012)
    case 1
    show ?case
      by (simp add: visit_lawD(2) [OF assms])
  next
    case (2 p)
    then show ?case
      using Plan.IH [of p] by (simp add: visit_lawD(3) [OF assms])
  next
    case (3 p q ps)
    then show ?case
      using Plan.IH [of p] 3(2) visit_lawD(4) [OF assms, of "tree_apply L child_url_visit p" "tree_apply L child_url_visit q" "map (tree_apply L child_url_visit) ps"]
      by (auto simp: iter_find_map_append split: option.splits)
  qed
  show ?case
  proof (cases "is_network_boundary n")
    case True
    then show ?thesis
      using assms by (auto simp: child_url_visit_def stage_boundary_nodes_def visit_law_def split: option.splits)
  next
    case False
    then show ?thesis
      using children [of cs] by (simp add: child_url_visit_off stage_boundary_nodes_def visit_lawD(1) [OF assms])
  qed
qed

lemma child_url_first: "visit_law L \<Longrightarrow> child_url L p = iter_find_map single_worker (stage_boundaries p)"
  by (simp add: child_url_def child_url_visits split: option.splits)

text \<open>The default chain of handlers.\<close>

lemma default_route_handle:
  "route_task_handlers_handle (default_route_handlers L random_range shuffle) ev h =
     route_in_order [single_task_coordinator_handle, single_task_child_url_handle L, random_route_handle random_range shuffle] ev h"
  by (simp add: route_task_handlers_handle_def default_route_handlers_def extend_builtin_def get_chain_def chain_default_def chain_iter_def)

lemma random_route_healthy:
  assumes "\<And>us. mset (shuffle us) = mset us" "ev_urls ev = Inr urls" "ev_retry_config ev = Inr cfg" "w \<in> set urls" "healthy (ev_dialer ev) w"
    "\<forall>u \<in> set urls. passes_over (ev_dialer ev) u" "card (set urls) \<le> max_retries cfg + 1" "max_retries cfg < usize_max"
    "\<And>q s n. 0 < n \<Longrightarrow> random_range q s n < n"
  shows "\<exists>x. fst (random_route_handle random_range shuffle ev h) = Some (Inr x)"
proof -
  have "urls \<noteq> []"
    using assms(4) by auto
  then obtain url where url: "stage_contiguous_rand_offset random_range (ev_task_key ev) urls = Some url" "url \<in> set urls"
    by (simp add: stage_contiguous_rand_offset_def Let_def)
  then have "set (url # urls) = set urls"
    by auto
  then obtain x where "fst (dial_with_failover shuffle (ev_dialer ev) cfg url urls h) = Inr x"
    using dial_with_failover_healthy [OF assms(1), of w url urls "ev_dialer ev" cfg h] assms(4-8) by auto
  then show ?thesis
    using assms(2,3) url(1) by (auto simp: random_route_handle_def split: prod.splits)
qed

text \<open>Numbers below \<open>N\<close> with a given remainder.\<close>

lemma card_mod_below:
  assumes "c < n"
  shows "card {t. t < N \<and> t mod n = c} = (N + (n - 1 - c)) div n"
proof (induction N)
  case 0
  then show ?case
    using assms by simp
next
  case (Suc N)
  have step: "{t. t < Suc N \<and> t mod n = c} = (if N mod n = c then insert N {t. t < N \<and> t mod n = c} else {t. t < N \<and> t mod n = c})"
    by (auto simp: less_Suc_eq)
  have "Suc (N + (n - 1 - c)) mod n = 0 \<longleftrightarrow> N mod n = c"
  proof -
    have "Suc (N + (n - 1 - c)) = N + (n - c)"
      using assms by simp
    moreover have "(N + (n - c)) mod n = 0 \<longleftrightarrow> N mod n = c"
    proof -
      have r: "(N + (n - c)) mod n = (N mod n + (n - c)) mod n" "N mod n < n"
        using assms by (simp_all only: mod_add_left_eq) simp
      show ?thesis
      proof (cases "N mod n < c")
        case True
        then show ?thesis using r assms by simp
      next
        case False
        then obtain k where k: "N mod n = c + k"
          by (auto simp: not_less le_iff_add)
        then have "N mod n + (n - c) = n + k"
          using assms by simp
        then have "(N mod n + (n - c)) mod n = k"
          using k r(2) by simp
        then show ?thesis using r(1) k by simp
      qed
    qed
    ultimately show ?thesis
      by (simp only:)
  qed
  then show ?case
    using step Suc.IH by (simp add: div_Suc)
qed

lemma share_between:
  assumes "c < n"
  shows "(N + (n - 1 - c)) div n \<in> {N div n, div_ceil N n}"
proof -
  have "N div n \<le> (N + (n - 1 - c)) div n" "(N + (n - 1 - c)) div n \<le> (N + (n - 1)) div n"
    by (simp_all add: div_le_mono)
  moreover have "(N + (n - 1)) div n \<le> N div n + 1"
    using assms div_le_mono [of "N + (n - 1)" "N + n" n] by simp
  moreover have "(N + (n - 1 - c)) div n = N div n" if "N mod n = 0"
    using that assms by (elim dvdE [OF mod_0_imp_dvd]) (simp add: div_add1_eq [of _ "n - 1 - c"] del: Nat.add_diff_assoc)
  ultimately show ?thesis
    by (auto simp: div_ceil_def)
qed

lemma offset_inverse:
  fixes i s n t :: nat
  assumes "i < n" "s < n"
  shows "(s + t mod n) mod n = i \<longleftrightarrow> t mod n = (i + (n - s)) mod n"
proof
  have t: "t mod n < n"
    using assms by simp
  assume i: "(s + t mod n) mod n = i"
  have "(i + (n - s)) mod n = (s + t mod n + (n - s)) mod n"
    unfolding i [symmetric] by (rule mod_add_left_eq)
  also have "s + t mod n + (n - s) = n + t mod n"
    using assms by simp
  finally show "t mod n = (i + (n - s)) mod n"
    by simp
next
  assume "t mod n = (i + (n - s)) mod n"
  then have "(s + t mod n) mod n = (s + (i + (n - s))) mod n"
    by (simp only: mod_add_right_eq)
  also have "s + (i + (n - s)) = n + i"
    using assms by simp
  finally show "(s + t mod n) mod n = i"
    using assms by simp
qed

section \<open>Properties\<close>

text \<open>C29. Dialing with failover asks the chosen worker first and then the other workers, each url at
  most once and in an uninterrupted run of attempts, moves on only while the answers are tagged as
  retryable, asks at most \<open>max_retries + 1\<close> times, and returns the first answer that is not
  retryable; when the attempts or the urls are used up it returns the collected errors.
\<close>

theorem dial_with_failover_spec:
  assumes "\<And>us. mset (shuffle us) = mset us"
    and "dial_with_failover shuffle dial cfg url retry_urls h = (r, h')"
  shows "\<exists>order tr. hd order = url \<and> distinct order \<and> set order = insert url (set retry_urls) \<and> h' = h @ tr \<and>
    dialed_in_order (sat_add (max_retries cfg) 1) order (answers dial h tr) \<and>
    r = dial_outcome [] (map snd (answers dial h tr))"
proof -
  let ?us = "shuffle (retain_new [url] retry_urls)"
  have us: "set ?us = set retry_urls - {url}" "distinct ?us"
    using assms(1) [of "retain_new [url] retry_urls"] retain_new_props [of "[url]" retry_urls]
    by (auto dest: mset_eq_setD mset_eq_imp_distinct_iff)
  moreover have "0 < sat_add (max_retries cfg) 1"
    by (simp add: sat_add_def usize_max_def)
  moreover have "dial_attempts dial cfg (sat_add (max_retries cfg) 1) 0 url ?us [] 0 h = (r, h')"
    using assms(2) by (simp add: dial_with_failover_def)
  ultimately obtain tr where "h' = h @ tr" "dialed_in_order (sat_add (max_retries cfg) 1) (url # rev ?us) (answers dial h tr)"
      "r = dial_outcome [] (map snd (answers dial h tr))"
    using dial_attempts_spec [of url ?us "sat_add (max_retries cfg) 1" dial cfg 0 "[]" 0 h r h'] by auto
  then show ?thesis
    using us by (intro exI [of _ "url # rev ?us"] exI [of _ tr]) auto
qed

definition flaky_dialer :: "string dialer" where
  "flaky_dialer h url =
     (if url = ''a'' then Inl (tag_error OtherUrl (DF_Internal ''busy''))
      else if url = ''b'' \<and> length h < 4 then Inl (tag_error SameUrl (DF_Internal ''starting''))
      else Inr url)"

definition example_retry_config :: retry_config where
  "example_retry_config = \<lparr>max_retries = 3, initial_backoff = 100, max_backoff = 1000\<rparr>"

theorem dial_with_failover_spec_witness:
  "dial_with_failover (\<lambda>us. us) flaky_dialer example_retry_config ''a'' [''a'', ''b''] [] =
     (Inr ''b'', [Dialed ''a'', OtherUrlRetry, Dialed ''b'', SameUrlRetry, Slept 100, Dialed ''b'']) \<and>
   (\<exists>order tr. hd order = ''a'' \<and> distinct order \<and> set order = {''a'', ''b''} \<and>
     [Dialed ''a'', OtherUrlRetry, Dialed ''b'', SameUrlRetry, Slept 100, Dialed ''b''] = [] @ tr \<and>
     dialed_in_order (sat_add (max_retries example_retry_config) 1) order (answers flaky_dialer [] tr) \<and>
     Inr ''b'' = dial_outcome [] (map snd (answers flaky_dialer [] tr)))"
proof -
  have attempts: "sat_add 3 (Suc 0) = Suc (Suc (Suc (Suc 0)))"
    by (simp add: sat_add_def usize_max_def)
  have run: "dial_with_failover (\<lambda>us. us) flaky_dialer example_retry_config ''a'' [''a'', ''b''] [] =
     (Inr ''b'', [Dialed ''a'', OtherUrlRetry, Dialed ''b'', SameUrlRetry, Slept 100, Dialed ''b''])"
    by (simp add: dial_with_failover_def attempts example_retry_config_def flaky_dialer_def
        same_url_retry_backoff_def)
  have "insert ''a'' (set [''a'', ''b'']) = {''a'', ''b''}"
    by auto
  then show ?thesis
    using dial_with_failover_spec [OF _ run] run by simp
qed

text \<open>C30. A task is routed whenever some worker answers: with the default handlers, if one of the
  workers always answers, the others answer or ask to be passed over, and there are at most
  \<open>max_retries + 1\<close> different workers, then a task that is not pinned to the coordinator gets an
  answer.
\<close>

theorem default_route_finds_healthy_worker:
  assumes "visit_law L" "\<And>us. mset (shuffle us) = mset us" "\<And>q s n. 0 < n \<Longrightarrow> random_range q s n < n"
    and "ev_urls ev = Inr urls" "ev_retry_config ev = Inr cfg"
    and "w \<in> set urls" "healthy (ev_dialer ev) w" "\<forall>u \<in> set urls. passes_over (ev_dialer ev) u"
    and "card (set urls) \<le> max_retries cfg + 1" "max_retries cfg < usize_max"
    and "ev_task_count ev \<noteq> 1 \<or> ev_self_url ev = None"
  shows "\<exists>x. fst (route_task_handlers_handle (default_route_handlers L random_range shuffle) ev h) = Some (Inr x)"
proof -
  have routed: "\<exists>x. fst (random_route_handle random_range shuffle ev h) = Some (Inr x)" for h
    by (rule random_route_healthy [OF assms(2,4-10,3)])
  have "single_task_coordinator_handle ev h = (None, h)"
    using assms(11) by (auto simp: single_task_coordinator_handle_def)
  moreover have "(\<exists>x. fst (single_task_child_url_handle L ev h) = Some (Inr x)) \<or> fst (single_task_child_url_handle L ev h) = None"
    by (simp add: single_task_child_url_handle_def split: option.split sum.split)
  ultimately show ?thesis
    using routed [of "snd (single_task_child_url_handle L ev h)"]
    by (cases "single_task_child_url_handle L ev h") (auto simp: default_route_handle split: option.split prod.split)
qed

definition patient_dialer :: "string dialer" where
  "patient_dialer h url = (if url = ''b'' then Inr url else Inl (tag_error OtherUrl (DF_Internal ''busy'')))"

definition example_route_task :: "(unit, unit, unit, unit, string) route_task" where
  "example_route_task =
     \<lparr>ev_task_key = \<lparr>key_query_id = 7, key_stage_id = 1, key_task_number = 2\<rparr>, ev_task_count = 4,
      ev_plan = Plan (OtherNode ()) [], ev_urls = Inr [''a'', ''b'', ''c''], ev_self_url = None,
      ev_retry_config = Inr example_retry_config, ev_dialer = patient_dialer\<rparr>"

theorem default_route_finds_healthy_worker_witness:
  "\<exists>x. fst (route_task_handlers_handle (default_route_handlers example_visit_lib (\<lambda>q s n. (q + s) mod n) rev) example_route_task []) = Some (Inr x)"
proof (rule default_route_finds_healthy_worker [of _ _ _ _ "[''a'', ''b'', ''c'']" example_retry_config "''b''"])
  show "healthy (ev_dialer example_route_task) ''b''"
    by (simp add: example_route_task_def healthy_def patient_dialer_def)
  show "\<forall>u \<in> set [''a'', ''b'', ''c'']. passes_over (ev_dialer example_route_task) u"
    by (simp add: example_route_task_def passes_over_def patient_dialer_def)
qed (simp_all add: example_visit_lib_law example_route_task_def example_retry_config_def usize_max_def)

text \<open>C31. The tasks of a stage are spread evenly over the workers: the handler sends the tasks
  \<open>0, ..., N - 1\<close> of a stage to consecutive workers, so each of \<open>n\<close> workers is the first choice of
  \<open>N div n\<close> tasks, or of one more.
\<close>

theorem tasks_spread_evenly:
  assumes "distinct urls" "\<And>q s n. 0 < n \<Longrightarrow> random_range q s n < n" "u \<in> set urls"
  shows "card {t. t < N \<and> stage_contiguous_rand_offset random_range \<lparr>key_query_id = q, key_stage_id = s, key_task_number = t\<rparr> urls = Some u}
    \<in> {N div length urls, div_ceil N (length urls)}"
proof -
  let ?n = "length urls" and ?start = "random_range q s (length urls)"
  obtain i where i: "i < ?n" "urls ! i = u"
    using assms(3) by (auto simp: in_set_conv_nth)
  have "?start < ?n"
    by (rule assms(2)) (use i in linarith)
  define c where "c = (i + (?n - ?start)) mod ?n"
  then have c: "c < ?n"
    using i(1) by (auto intro!: mod_less_divisor)
  have "(?start + t mod ?n) mod ?n = i \<longleftrightarrow> t mod ?n = c" for t
    using offset_inverse [OF i(1) \<open>?start < ?n\<close>, of t] by (simp add: c_def)
  moreover have "urls ! j = u \<longleftrightarrow> j = i" if "j < ?n" for j
    using assms(1) i that by (auto simp: nth_eq_iff_index_eq)
  ultimately have "stage_contiguous_rand_offset random_range \<lparr>key_query_id = q, key_stage_id = s, key_task_number = t\<rparr> urls = Some u
      \<longleftrightarrow> t mod ?n = c" for t
    using i by (auto simp: stage_contiguous_rand_offset_def Let_def)
  then show ?thesis
    using card_mod_below [OF c] share_between [OF c] by simp
qed

theorem tasks_spread_evenly_witness:
  "card {t. t < 7 \<and> stage_contiguous_rand_offset (\<lambda>q s n. (q + s) mod n) \<lparr>key_query_id = 5, key_stage_id = 1, key_task_number = t\<rparr> [''a'', ''b'', ''c''] = Some ''b''}
    \<in> {2, 3}"
  using tasks_spread_evenly [of "[''a'', ''b'', ''c'']" "\<lambda>q s n. (q + s) mod n" "''b''" 7 5 1]
  by (simp add: div_ceil_def)

end
