(* ===== verification/CustomMetrics.thy ===== *)
theory CustomMetrics
  imports Prelude F64
begin

text \<open>
  The metrics that this crate adds to the engine's: latencies
  (\<open>src/src/metrics/latency_metric.rs\<close>), byte counters (\<open>src/src/metrics/bytes_metric.rs\<close>), gauges
  that are merged by their maximum (\<open>src/src/metrics/max_gauge_metric.rs\<close>), and the coordinator's
  own latency recorder (\<open>src/src/coordinator/latency_metric.rs\<close>).

  The value of an atomic cell is the model's value of a metric; an operation returns the new one.
  Additions to atomic cells wrap around. The quantile sketch is a parameter.
\<close>

section \<open>Metrics\<close>

definition wrap_add :: "nat \<Rightarrow> nat \<Rightarrow> nat" where
  "wrap_add a b = (a + b) mod 2 ^ 64"

datatype percentile = P50 | P75 | P95 | P99

datatype 'sk custom_metric =
    MinLatency nat
  | MaxLatency nat
  | AvgLatency nat nat
  | FirstLatency nat
  | BytesCounter nat
  | MaxGauge nat
  | PercentileLatency percentile 'sk

record 'sk sketch_lib =
  sk_new :: 'sk
  sk_add :: "'sk \<Rightarrow> f64 \<Rightarrow> 'sk"
  sk_merge :: "'sk \<Rightarrow> 'sk \<Rightarrow> 'sk"
  sk_quantile :: "'sk \<Rightarrow> f64 \<Rightarrow> f64 option"

definition percentile_rank :: "percentile \<Rightarrow> f64" where
  "percentile_rank p =
     rnd (case p of P50 \<Rightarrow> 50 / 100 | P75 \<Rightarrow> 75 / 100 | P95 \<Rightarrow> 95 / 100 | P99 \<Rightarrow> 99 / 100)"

text \<open>\<open>compare_exchange\<close> that replaces the value of an unset cell.\<close>

definition set_if_unset :: "nat \<Rightarrow> nat \<Rightarrow> nat" where
  "set_if_unset current new = (if current = 0 then new else current)"

fun add_nanos :: "'sk sketch_lib \<Rightarrow> 'sk custom_metric \<Rightarrow> nat \<Rightarrow> 'sk custom_metric" where
  "add_nanos SK (MinLatency v) nanos = MinLatency (min v (max nanos 1))"
| "add_nanos SK (MaxLatency v) nanos = MaxLatency (max v (max nanos 1))"
| "add_nanos SK (AvgLatency s c) nanos = AvgLatency (wrap_add s (max nanos 1)) (wrap_add c 1)"
| "add_nanos SK (FirstLatency v) nanos = FirstLatency (set_if_unset v (max nanos 1))"
| "add_nanos SK (PercentileLatency p sk) nanos = PercentileLatency p (sk_add SK sk (f64_of_usize nanos))"
| "add_nanos SK m nanos = m"

text \<open>The nanoseconds of a duration have 128 bits and are truncated.\<close>

fun add_duration :: "'sk sketch_lib \<Rightarrow> 'sk custom_metric \<Rightarrow> nat \<Rightarrow> 'sk custom_metric" where
  "add_duration SK (PercentileLatency p sk) d = add_nanos SK (PercentileLatency p sk) (max (d mod 2 ^ 64) 1)"
| "add_duration SK m d = add_nanos SK m (d mod 2 ^ 64)"

definition add_bytes :: "nat \<Rightarrow> nat \<Rightarrow> nat" where
  "add_bytes v bytes = wrap_add v bytes"

definition set_max :: "nat \<Rightarrow> nat \<Rightarrow> nat" where
  "set_max v n = max v n"

text \<open>What a metric records: a duration, a number of bytes, or the level of a gauge.\<close>

fun record_sample :: "'sk sketch_lib \<Rightarrow> 'sk custom_metric \<Rightarrow> nat \<Rightarrow> 'sk custom_metric" where
  "record_sample SK (BytesCounter v) n = BytesCounter (add_bytes v n)"
| "record_sample SK (MaxGauge v) n = MaxGauge (set_max v n)"
| "record_sample SK m n = add_duration SK m n"

fun metric_value :: "'sk sketch_lib \<Rightarrow> 'sk custom_metric \<Rightarrow> nat" where
  "metric_value SK (MinLatency v) = v"
| "metric_value SK (MaxLatency v) = v"
| "metric_value SK (AvgLatency s c) = s div max c 1"
| "metric_value SK (FirstLatency v) = v"
| "metric_value SK (BytesCounter v) = v"
| "metric_value SK (MaxGauge v) = v"
| "metric_value SK (PercentileLatency p sk) =
     f64_to_usize (case sk_quantile SK sk (percentile_rank p) of Some q \<Rightarrow> q | None \<Rightarrow> Fin 0)"

fun new_empty :: "'sk sketch_lib \<Rightarrow> 'sk custom_metric \<Rightarrow> 'sk custom_metric" where
  "new_empty SK (MinLatency _) = MinLatency usize_max"
| "new_empty SK (MaxLatency _) = MaxLatency 0"
| "new_empty SK (AvgLatency _ _) = AvgLatency 0 0"
| "new_empty SK (FirstLatency _) = FirstLatency 0"
| "new_empty SK (BytesCounter _) = BytesCounter 0"
| "new_empty SK (MaxGauge _) = MaxGauge 0"
| "new_empty SK (PercentileLatency p _) = PercentileLatency p (sk_new SK)"

text \<open>A metric of another type is ignored; \<open>Inr\<close> is a type that the crate does not know.\<close>

fun aggregate :: "'sk sketch_lib \<Rightarrow> 'sk custom_metric \<Rightarrow> 'sk custom_metric + 'o \<Rightarrow> 'sk custom_metric" where
  "aggregate SK (MinLatency v) other = MinLatency (case other of Inl (MinLatency w) \<Rightarrow> min v w | _ \<Rightarrow> v)"
| "aggregate SK (MaxLatency v) other = MaxLatency (case other of Inl (MaxLatency w) \<Rightarrow> max v w | _ \<Rightarrow> v)"
| "aggregate SK (AvgLatency s c) other =
     (case other of Inl (AvgLatency s' c') \<Rightarrow> AvgLatency (wrap_add s s') (wrap_add c c') | _ \<Rightarrow> AvgLatency s c)"
| "aggregate SK (FirstLatency v) other = FirstLatency (case other of Inl (FirstLatency w) \<Rightarrow> set_if_unset v w | _ \<Rightarrow> v)"
| "aggregate SK (BytesCounter v) other = BytesCounter (case other of Inl (BytesCounter w) \<Rightarrow> wrap_add v w | _ \<Rightarrow> v)"
| "aggregate SK (MaxGauge v) other = MaxGauge (case other of Inl (MaxGauge w) \<Rightarrow> max v w | _ \<Rightarrow> v)"
| "aggregate SK (PercentileLatency p sk) other =
     PercentileLatency p
       (case other of Inl (PercentileLatency q sk') \<Rightarrow> if p = q then sk_merge SK sk sk' else sk | _ \<Rightarrow> sk)"

fun same_kind :: "'sk custom_metric \<Rightarrow> 'sk custom_metric \<Rightarrow> bool" where
  "same_kind (MinLatency _) m = (case m of MinLatency _ \<Rightarrow> True | _ \<Rightarrow> False)"
| "same_kind (MaxLatency _) m = (case m of MaxLatency _ \<Rightarrow> True | _ \<Rightarrow> False)"
| "same_kind (AvgLatency _ _) m = (case m of AvgLatency _ _ \<Rightarrow> True | _ \<Rightarrow> False)"
| "same_kind (FirstLatency _) m = (case m of FirstLatency _ \<Rightarrow> True | _ \<Rightarrow> False)"
| "same_kind (BytesCounter _) m = (case m of BytesCounter _ \<Rightarrow> True | _ \<Rightarrow> False)"
| "same_kind (MaxGauge _) m = (case m of MaxGauge _ \<Rightarrow> True | _ \<Rightarrow> False)"
| "same_kind (PercentileLatency p _) m = (case m of PercentileLatency q _ \<Rightarrow> p = q | _ \<Rightarrow> False)"

definition metric_is_eq :: "'sk sketch_lib \<Rightarrow> 'sk custom_metric \<Rightarrow> 'sk custom_metric + 'o \<Rightarrow> bool" where
  "metric_is_eq SK m other =
     (case other of Inl m' \<Rightarrow> same_kind m m' \<and> metric_value SK m' = metric_value SK m | Inr _ \<Rightarrow> False)"

text \<open>The machine type of the cells.\<close>

fun metric_typed :: "'sk custom_metric \<Rightarrow> bool" where
  "metric_typed (MinLatency v) = (v \<le> usize_max)"
| "metric_typed (MaxLatency v) = (v \<le> usize_max)"
| "metric_typed (AvgLatency s c) = (s \<le> usize_max \<and> c \<le> usize_max)"
| "metric_typed (FirstLatency v) = (v \<le> usize_max)"
| "metric_typed (BytesCounter v) = (v \<le> usize_max)"
| "metric_typed (MaxGauge v) = (v \<le> usize_max)"
| "metric_typed (PercentileLatency p sk) = True"

fun is_sketch :: "'sk custom_metric \<Rightarrow> bool" where
  "is_sketch (PercentileLatency _ _) = True"
| "is_sketch _ = False"

section \<open>The coordinator's latency recorder\<close>

record latency_recorder =
  lr_max :: nat
  lr_sum :: nat
  lr_count :: nat

definition latency_new :: latency_recorder where
  "latency_new = \<lparr>lr_max = 0, lr_sum = 0, lr_count = 0\<rparr>"

definition latency_record :: "latency_recorder \<Rightarrow> nat \<Rightarrow> latency_recorder" where
  "latency_record l micros =
     l\<lparr>lr_max := max (lr_max l) (micros mod 2 ^ 64),
       lr_sum := wrap_add (lr_sum l) (micros mod 2 ^ 64),
       lr_count := wrap_add (lr_count l) 1\<rparr>"

text \<open>On drop, the maximum and the average are added to the engine's timers, in nanoseconds.\<close>

definition latency_drop :: "('t \<Rightarrow> nat \<Rightarrow> 't) \<Rightarrow> latency_recorder \<Rightarrow> 't \<times> 't \<Rightarrow> 't \<times> 't" where
  "latency_drop add_dur l timers =
     (add_dur (fst timers) (lr_max l * 1000), add_dur (snd timers) (lr_sum l div max (lr_count l) 1 * 1000))"

section \<open>Recording in parts\<close>

text \<open>
  A metric that is recorded in parts: a sample that is added to a part can as well be added to the
  whole, and an empty part changes nothing.
\<close>

locale sample_metric =
  fixes empty :: 's
    and add :: "'s \<Rightarrow> 'a \<Rightarrow> 's"
    and agg :: "'s \<Rightarrow> 's \<Rightarrow> 's"
    and inv :: "'s \<Rightarrow> bool"
    and ok :: "'a \<Rightarrow> bool"
  assumes inv_empty: "inv empty"
    and inv_add: "inv s \<Longrightarrow> ok x \<Longrightarrow> inv (add s x)"
    and inv_agg: "inv s \<Longrightarrow> inv t \<Longrightarrow> inv (agg s t)"
    and agg_empty: "inv s \<Longrightarrow> agg s empty = s"
    and agg_add: "inv s \<Longrightarrow> inv t \<Longrightarrow> ok x \<Longrightarrow> agg s (add t x) = add (agg s t) x"
begin

lemma inv_foldl: "inv s \<Longrightarrow> list_all ok xs \<Longrightarrow> inv (foldl add s xs)"
  by (induction xs arbitrary: s) (simp_all add: inv_add)

lemma agg_part: "inv s \<Longrightarrow> list_all ok xs \<Longrightarrow> agg s (foldl add empty xs) = foldl add s xs"
  by (induction xs rule: rev_induct) (simp_all add: agg_empty agg_add inv_foldl inv_empty)

lemma agg_parts:
  "inv s \<Longrightarrow> list_all (list_all ok) xss \<Longrightarrow>
   foldl agg s (map (foldl add empty) xss) = foldl add s (concat xss)"
  by (induction xss arbitrary: s) (simp_all add: agg_part inv_foldl)

end

lemma wrap_add_less [simp]: "wrap_add a b \<le> usize_max"
proof -
  have "(a + b) mod 2 ^ 64 < (2 ^ 64 :: nat)"
    by (rule mod_less_divisor) simp
  then show ?thesis
    unfolding wrap_add_def usize_max_def by linarith
qed

lemma wrap_add_0 [simp]: "a \<le> usize_max \<Longrightarrow> wrap_add a 0 = a" "a \<le> usize_max \<Longrightarrow> wrap_add 0 a = a"
  by (simp_all add: wrap_add_def usize_max_def)

lemma wrap_add_assoc: "wrap_add a (wrap_add b c) = wrap_add (wrap_add a b) c"
  by (simp add: wrap_add_def mod_add_left_eq mod_add_right_eq add.assoc)

lemma wrap_add_exact: "a + b \<le> usize_max \<Longrightarrow> wrap_add a b = a + b"
  by (simp add: wrap_add_def usize_max_def)

lemma mod_usize [simp]: "n mod 18446744073709551616 \<le> usize_max"
proof -
  have "n mod 2 ^ 64 < (2 ^ 64 :: nat)"
    by (rule mod_less_divisor) simp
  then show ?thesis
    by (simp add: usize_max_def)
qed

lemma one_le_usize_max [simp]: "Suc 0 \<le> usize_max"
  by (simp add: usize_max_def)

abbreviation kind_inv :: "'sk custom_metric \<Rightarrow> 'sk custom_metric \<Rightarrow> bool" where
  "kind_inv k m \<equiv> same_kind k m \<and> metric_typed m"

abbreviation fits_usize :: "nat \<Rightarrow> bool" where
  "fits_usize n \<equiv> n \<le> usize_max"

lemma same_kindE [consumes 1]:
  assumes "same_kind k m"
  obtains (Min) v w where "k = MinLatency v" "m = MinLatency w"
    | (Max) v w where "k = MaxLatency v" "m = MaxLatency w"
    | (Avg) s c s' c' where "k = AvgLatency s c" "m = AvgLatency s' c'"
    | (First) v w where "k = FirstLatency v" "m = FirstLatency w"
    | (Bytes) v w where "k = BytesCounter v" "m = BytesCounter w"
    | (Gauge) v w where "k = MaxGauge v" "m = MaxGauge w"
    | (Percentile) p sk sk' where "k = PercentileLatency p sk" "m = PercentileLatency p sk'"
  using assms by (cases k; cases m) simp_all

lemma same_kind_trans: "same_kind k m \<Longrightarrow> same_kind k m' \<Longrightarrow> same_kind m m'"
  by (erule same_kindE) simp_all

lemma record_sample_inv: "kind_inv k m \<Longrightarrow> fits_usize n \<Longrightarrow> kind_inv k (record_sample SK m n)"
  by (elim conjE same_kindE) (simp_all add: set_if_unset_def set_max_def add_bytes_def)

lemma aggregate_inv:
  assumes "kind_inv k m" "kind_inv k m'"
  shows "kind_inv k (aggregate SK m (Inl m'))"
proof -
  have "same_kind m m'"
    using assms same_kind_trans by blast
  then show ?thesis
    using assms by (cases rule: same_kindE; cases k) (simp_all add: set_if_unset_def min_le_iff_disj)
qed

lemma new_empty_inv: "kind_inv k (new_empty SK k)"
  by (cases k) simp_all

lemma aggregate_empty:
  "kind_inv k m \<Longrightarrow> \<not> is_sketch k \<Longrightarrow> aggregate SK m (Inl (new_empty SK k)) = m"
  by (elim conjE same_kindE) (simp_all add: set_if_unset_def)

lemma aggregate_sample:
  assumes "kind_inv k m" "kind_inv k m'" "\<not> is_sketch k"
  shows "aggregate SK m (Inl (record_sample SK m' n)) = record_sample SK (aggregate SK m (Inl m')) n"
proof -
  have "same_kind m m'" "\<not> is_sketch m"
    using assms same_kind_trans by (blast, auto elim: same_kindE)
  then show ?thesis
    by (cases rule: same_kindE)
      (simp_all add: set_if_unset_def set_max_def add_bytes_def wrap_add_assoc min.assoc max.assoc)
qed

lemma sample_metric_kind:
  "\<not> is_sketch k \<Longrightarrow>
   sample_metric (new_empty SK k) (record_sample SK) (\<lambda>a b. aggregate SK a (Inl b)) (kind_inv k) fits_usize"
  by (intro sample_metric.intro)
    (rule new_empty_inv record_sample_inv aggregate_inv aggregate_empty aggregate_sample; assumption)+

interpretation min_latency: sample_metric "new_empty SK (MinLatency v)" "record_sample SK"
  "\<lambda>a b. aggregate SK a (Inl b)" "kind_inv (MinLatency v)" fits_usize for SK v
  by (rule sample_metric_kind) simp

interpretation max_latency: sample_metric "new_empty SK (MaxLatency v)" "record_sample SK"
  "\<lambda>a b. aggregate SK a (Inl b)" "kind_inv (MaxLatency v)" fits_usize for SK v
  by (rule sample_metric_kind) simp

interpretation avg_latency: sample_metric "new_empty SK (AvgLatency s c)" "record_sample SK"
  "\<lambda>a b. aggregate SK a (Inl b)" "kind_inv (AvgLatency s c)" fits_usize for SK s c
  by (rule sample_metric_kind) simp

interpretation first_latency: sample_metric "new_empty SK (FirstLatency v)" "record_sample SK"
  "\<lambda>a b. aggregate SK a (Inl b)" "kind_inv (FirstLatency v)" fits_usize for SK v
  by (rule sample_metric_kind) simp

interpretation bytes_counter: sample_metric "new_empty SK (BytesCounter v)" "record_sample SK"
  "\<lambda>a b. aggregate SK a (Inl b)" "kind_inv (BytesCounter v)" fits_usize for SK v
  by (rule sample_metric_kind) simp

interpretation max_gauge: sample_metric "new_empty SK (MaxGauge v)" "record_sample SK"
  "\<lambda>a b. aggregate SK a (Inl b)" "kind_inv (MaxGauge v)" fits_usize for SK v
  by (rule sample_metric_kind) simp

text \<open>What a metric has after a sequence of samples.\<close>

definition clamp :: "nat \<Rightarrow> nat" where
  "clamp d = max (d mod 2 ^ 64) 1"

lemma clamp_bounds [simp]: "clamp d \<le> usize_max" "0 < clamp d"
  by (simp_all add: clamp_def)

lemma min_samples: "foldl (record_sample SK) (MinLatency v) xs = MinLatency (foldl min v (map clamp xs))"
  by (induction xs arbitrary: v) (simp_all add: clamp_def)

lemma max_samples: "foldl (record_sample SK) (MaxLatency v) xs = MaxLatency (foldl max v (map clamp xs))"
  by (induction xs arbitrary: v) (simp_all add: clamp_def)

lemma avg_sample: "record_sample SK (AvgLatency s c) n = AvgLatency (wrap_add s (clamp n)) (wrap_add c 1)"
  by (simp add: clamp_def)

lemma avg_samples:
  "s + sum_list (map clamp xs) \<le> usize_max \<Longrightarrow> c + length xs \<le> usize_max \<Longrightarrow>
   foldl (record_sample SK) (AvgLatency s c) xs = AvgLatency (s + sum_list (map clamp xs)) (c + length xs)"
  by (induction xs arbitrary: s c) (simp_all add: avg_sample wrap_add_exact add.assoc del: record_sample.simps)

lemma first_samples:
  "foldl (record_sample SK) (FirstLatency v) xs = FirstLatency (if v = 0 \<and> xs \<noteq> [] then clamp (hd xs) else v)"
  by (induction xs arbitrary: v) (auto simp: clamp_def set_if_unset_def)

lemma bytes_samples:
  "v + sum_list xs \<le> usize_max \<Longrightarrow> foldl (record_sample SK) (BytesCounter v) xs = BytesCounter (v + sum_list xs)"
  by (induction xs arbitrary: v) (simp_all add: add_bytes_def wrap_add_exact add.assoc)

lemma foldl_min_Min: "foldl min (v :: nat) xs = Min (set (v # xs))"
  using Min.set_eq_fold [of v xs] by (simp add: foldl_conv_fold min.commute)

lemma foldl_max_Max: "foldl max (v :: nat) xs = Max (set (v # xs))"
  using Max.set_eq_fold [of v xs] by (simp add: foldl_conv_fold max.commute)

lemma length_le_clamps: "length xs \<le> sum_list (map clamp xs)"
proof (induction xs)
  case (Cons x xs)
  then show ?case
    using clamp_bounds(2) [of x] by (simp del: clamp_bounds)
qed simp

lemma sum_le_clamps: "list_all fits_usize xs \<Longrightarrow> sum_list xs \<le> sum_list (map clamp xs)"
  by (induction xs) (auto simp: clamp_def usize_max_def intro!: add_mono)

text \<open>The value that a metric stands for.\<close>

fun summary :: "'sk custom_metric \<Rightarrow> nat list \<Rightarrow> nat" where
  "summary (MinLatency _) xs = Min (set (usize_max # map clamp xs))"
| "summary (MaxLatency _) xs = Max (set (0 # map clamp xs))"
| "summary (AvgLatency _ _) xs = sum_list (map clamp xs) div max (length xs) 1"
| "summary (FirstLatency _) xs = (if xs = [] then 0 else clamp (hd xs))"
| "summary (BytesCounter _) xs = sum_list xs"
| "summary (MaxGauge _) xs = Max (set (0 # xs))"
| "summary (PercentileLatency _ _) xs = 0"

lemma gauge_samples: "foldl (record_sample SK) (MaxGauge v) xs = MaxGauge (foldl max v xs)"
  by (induction xs arbitrary: v) (simp_all add: set_max_def)

lemma metric_value_summary:
  assumes "\<not> is_sketch k" "list_all fits_usize xs" "sum_list (map clamp xs) \<le> usize_max"
  shows "metric_value SK (foldl (record_sample SK) (new_empty SK k) xs) = summary k xs"
proof -
  note samples = min_samples max_samples avg_samples first_samples bytes_samples gauge_samples
  have "length xs \<le> usize_max" "sum_list xs \<le> usize_max"
    using assms length_le_clamps [of xs] sum_le_clamps [of xs] by auto
  then show ?thesis
    using assms by (cases k) (simp_all add: samples foldl_min_Min foldl_max_Max del: record_sample.simps)
qed

section \<open>Properties\<close>


definition null_sketch :: "unit sketch_lib" where
  "null_sketch = \<lparr>sk_new = (), sk_add = \<lambda>_ _. (), sk_merge = \<lambda>_ _. (), sk_quantile = \<lambda>_ _. None\<rparr>"


text \<open>C38. Metrics are the same whether a query runs in one task or in many: merging what the tasks
  recorded, in the order of the tasks, gives the metric that would have recorded all samples
  itself, also when counters wrap around; and if they do not, that metric shows the minimum, the
  maximum, the average, the first or the sum of the samples.\<close>

theorem custom_metrics_distribute:
  assumes "\<not> is_sketch k" "list_all (list_all (\<lambda>n. n \<le> usize_max)) tasks"
    and merged: "merged = foldl (\<lambda>a b. aggregate SK a (Inl b)) (new_empty SK k) (map (foldl (record_sample SK) (new_empty SK k)) tasks)"
  shows "merged = foldl (record_sample SK) (new_empty SK k) (concat tasks) \<and>
    (sum_list (map clamp (concat tasks)) \<le> usize_max \<longrightarrow> metric_value SK merged = summary k (concat tasks))"
proof -
  have "merged = foldl (record_sample SK) (new_empty SK k) (concat tasks)"
    unfolding merged
    by (cases k; simp only: is_sketch.simps min_latency.agg_parts max_latency.agg_parts avg_latency.agg_parts first_latency.agg_parts
        bytes_counter.agg_parts max_gauge.agg_parts assms new_empty_inv)
      (use assms(1) in simp_all)
  moreover have "list_all fits_usize (concat tasks)"
    using assms(2) by (induction tasks) simp_all
  ultimately show ?thesis
    using metric_value_summary [OF assms(1)] by blast
qed

theorem custom_metrics_distribute_witness:
  "metric_value null_sketch (foldl (\<lambda>a b. aggregate null_sketch a (Inl b :: unit custom_metric + unit)) (new_empty null_sketch (AvgLatency 0 0))
     (map (foldl (record_sample null_sketch) (new_empty null_sketch (AvgLatency 0 0))) [[4, 8], [], [3]])) = 5"
  using custom_metrics_distribute [of "AvgLatency 0 0" "[[4, 8], [], [3]]" _ null_sketch, OF _ _ refl]
  by (simp add: clamp_def usize_max_def wrap_add_def)

end
