(* ===== verification/MetricsProto.thy ===== *)
theory MetricsProto
  imports DatafusionErrors CustomMetrics
begin

text \<open>
  Transport of metrics from the workers to the coordinator
  (\<open>src/src/protocol/grpc/metrics_proto.rs\<close>): the engine's metrics and the crate's own ones as
  Protobuf messages and back.

  The engine's timers, timestamps, pruning and ratio metrics and the serialisation of sketches are
  parameters. Counters and gauges are cells with an unsigned word.
\<close>

section \<open>Metrics of the engine\<close>

datatype ('d, 'p, 'r, 'sk, 'o) metric_value =
    OutputRows nat
  | ElapsedCompute nat
  | SpillCount nat
  | SpilledBytes nat
  | SpilledRows nat
  | CurrentMemoryUsage nat
  | Count string nat
  | Gauge string nat
  | PeakMemoryUsage string nat
  | Time string nat
  | StartTimestamp "'d option"
  | EndTimestamp "'d option"
  | OutputBytes nat
  | OutputBatches nat
  | PruningMetrics string 'p
  | Ratio string 'r
  | Custom string "'sk custom_metric + 'o"

record label =
  label_name :: string
  label_value :: string

record ('d, 'p, 'r, 'sk, 'o) metric =
  m_value :: "('d, 'p, 'r, 'sk, 'o) metric_value"
  m_partition :: "nat option"
  m_labels :: "label list"

text \<open>
  What the conversion uses of the engine and of the serialiser, and the text that the engine's error
  macros append to a message (a back trace, if they are compiled to do so).
\<close>

record ('d, 'p, 'r, 'sk) metric_lib =
  time_add_duration :: "nat \<Rightarrow> nat \<Rightarrow> nat"
  timestamp_nanos_opt :: "'d \<Rightarrow> int option"
  from_timestamp_nanos :: "int \<Rightarrow> 'd"
  pruning_new :: 'p
  add_pruned :: "'p \<Rightarrow> nat \<Rightarrow> 'p"
  add_matched :: "'p \<Rightarrow> nat \<Rightarrow> 'p"
  pruned :: "'p \<Rightarrow> nat"
  matched :: "'p \<Rightarrow> nat"
  ratio_new :: 'r
  set_part :: "'r \<Rightarrow> nat \<Rightarrow> 'r"
  set_total :: "'r \<Rightarrow> nat \<Rightarrow> 'r"
  ratio_part :: "'r \<Rightarrow> nat"
  ratio_total :: "'r \<Rightarrow> nat"
  to_allocvec :: "'sk \<Rightarrow> (string, nat list) res"
  take_from_bytes :: "nat list \<Rightarrow> (string, 'sk \<times> nat list) res"
  show_usize :: "nat \<Rightarrow> string"
  back_trace :: string

section \<open>Messages\<close>

datatype pb_value =
    PB_OutputRows nat
  | PB_ElapsedCompute nat
  | PB_SpillCount nat
  | PB_SpilledBytes nat
  | PB_SpilledRows nat
  | PB_CurrentMemoryUsage nat
  | PB_Count string nat
  | PB_Gauge string nat
  | PB_PeakMemoryUsage string nat
  | PB_Time string nat
  | PB_StartTimestamp "int option"
  | PB_EndTimestamp "int option"
  | PB_OutputBytes nat
  | PB_OutputBatches nat
  | PB_PruningMetrics string nat nat
  | PB_Ratio string nat nat
  | PB_CustomMinLatency string nat
  | PB_CustomMaxLatency string nat
  | PB_CustomAvgLatency string nat nat
  | PB_CustomFirstLatency string nat
  | PB_CustomBytesCount string nat
  | PB_CustomPercentileLatency percentile string "nat list"
  | PB_CustomMaxGauge string nat

record pb_metric =
  pb_value :: "pb_value option"
  pb_partition :: "nat option"
  pb_labels :: "label list"

section \<open>Encoding\<close>

definition internal_err :: "('d, 'p, 'r, 'sk) metric_lib \<Rightarrow> string \<Rightarrow> datafusion_error" where
  "internal_err E msg = DF_Internal (msg @ back_trace E)"

definition custom_metrics_not_supported :: string where
  "custom_metrics_not_supported = ''custom metrics are not supported in metrics proto conversion''"

definition unsupported_metrics :: string where
  "unsupported_metrics = ''metric type not supported in proto conversion''"

definition timestamp_err :: datafusion_error where
  "timestamp_err = DF_Internal ''encountered a timestamp which cannot be represented via a nanosecond timestamp''"

definition timestamp_to_proto :: "('d, 'p, 'r, 'sk) metric_lib \<Rightarrow> 'd option \<Rightarrow> (datafusion_error, int option) res" where
  "timestamp_to_proto E ts =
     (case ts of
        None \<Rightarrow> Inr None
      | Some dt \<Rightarrow> (case timestamp_nanos_opt E dt of Some n \<Rightarrow> Inr (Some n) | None \<Rightarrow> Inl timestamp_err))"

definition serialize_sketch :: "('d, 'p, 'r, 'sk) metric_lib \<Rightarrow> 'sk \<Rightarrow> (datafusion_error, nat list) res" where
  "serialize_sketch E sk =
     (case to_allocvec E sk of
        Inr bytes \<Rightarrow> Inr bytes
      | Inl e \<Rightarrow> Inl (internal_err E (''failed to serialize DDSketch: '' @ e)))"

fun custom_to_proto ::
  "('d, 'p, 'r, 'sk) metric_lib \<Rightarrow> string \<Rightarrow> 'sk custom_metric + 'o \<Rightarrow> (datafusion_error, pb_value) res" where
  "custom_to_proto E name (Inl (MinLatency v)) = Inr (PB_CustomMinLatency name v)"
| "custom_to_proto E name (Inl (MaxLatency v)) = Inr (PB_CustomMaxLatency name v)"
| "custom_to_proto E name (Inl (AvgLatency s c)) = Inr (PB_CustomAvgLatency name s c)"
| "custom_to_proto E name (Inl (FirstLatency v)) = Inr (PB_CustomFirstLatency name v)"
| "custom_to_proto E name (Inl (BytesCounter v)) = Inr (PB_CustomBytesCount name v)"
| "custom_to_proto E name (Inl (PercentileLatency p sk)) =
     bind_res (serialize_sketch E sk) (\<lambda>bytes. Inr (PB_CustomPercentileLatency p name bytes))"
| "custom_to_proto E name (Inl (MaxGauge v)) = Inr (PB_CustomMaxGauge name v)"
| "custom_to_proto E name (Inr _) = Inl (internal_err E custom_metrics_not_supported)"

fun value_to_proto ::
  "('d, 'p, 'r, 'sk) metric_lib \<Rightarrow> ('d, 'p, 'r, 'sk, 'o) metric_value \<Rightarrow> (datafusion_error, pb_value) res" where
  "value_to_proto E (OutputRows n) = Inr (PB_OutputRows n)"
| "value_to_proto E (ElapsedCompute n) = Inr (PB_ElapsedCompute n)"
| "value_to_proto E (SpillCount n) = Inr (PB_SpillCount n)"
| "value_to_proto E (SpilledBytes n) = Inr (PB_SpilledBytes n)"
| "value_to_proto E (SpilledRows n) = Inr (PB_SpilledRows n)"
| "value_to_proto E (CurrentMemoryUsage n) = Inr (PB_CurrentMemoryUsage n)"
| "value_to_proto E (Count name n) = Inr (PB_Count name n)"
| "value_to_proto E (Gauge name n) = Inr (PB_Gauge name n)"
| "value_to_proto E (PeakMemoryUsage name n) = Inr (PB_PeakMemoryUsage name n)"
| "value_to_proto E (Time name n) = Inr (PB_Time name n)"
| "value_to_proto E (StartTimestamp ts) = bind_res (timestamp_to_proto E ts) (\<lambda>v. Inr (PB_StartTimestamp v))"
| "value_to_proto E (EndTimestamp ts) = bind_res (timestamp_to_proto E ts) (\<lambda>v. Inr (PB_EndTimestamp v))"
| "value_to_proto E (Custom name v) = custom_to_proto E name v"
| "value_to_proto E (OutputBytes n) = Inr (PB_OutputBytes n)"
| "value_to_proto E (OutputBatches n) = Inr (PB_OutputBatches n)"
| "value_to_proto E (PruningMetrics name p) = Inr (PB_PruningMetrics name (pruned E p) (matched E p))"
| "value_to_proto E (Ratio name r) = Inr (PB_Ratio name (ratio_part E r) (ratio_total E r))"

definition df_metric_to_proto ::
  "('d, 'p, 'r, 'sk) metric_lib \<Rightarrow> ('d, 'p, 'r, 'sk, 'o) metric \<Rightarrow> (datafusion_error, pb_metric) res" where
  "df_metric_to_proto E m =
     bind_res (value_to_proto E (m_value m)) (\<lambda>v.
       Inr \<lparr>pb_value = Some v, pb_partition = m_partition m,
            pb_labels = map (\<lambda>l. \<lparr>label_name = label_name l, label_value = label_value l\<rparr>) (m_labels m)\<rparr>)"

text \<open>Metrics of unknown types are left out, every other error is returned.\<close>

fun df_metrics_set_to_proto ::
  "('d, 'p, 'r, 'sk) metric_lib \<Rightarrow> ('d, 'p, 'r, 'sk, 'o) metric list \<Rightarrow> (datafusion_error, pb_metric list) res" where
  "df_metrics_set_to_proto E [] = Inr []"
| "df_metrics_set_to_proto E (m # ms) =
     (case df_metric_to_proto E m of
        Inr pm \<Rightarrow> bind_res (df_metrics_set_to_proto E ms) (\<lambda>pms. Inr (pm # pms))
      | Inl err \<Rightarrow>
          (if err = DF_Internal custom_metrics_not_supported \<or> err = DF_Internal unsupported_metrics
           then df_metrics_set_to_proto E ms
           else Inl err))"

section \<open>Decoding\<close>

definition decode_sketch :: "('d, 'p, 'r, 'sk) metric_lib \<Rightarrow> nat list \<Rightarrow> (datafusion_error, 'sk) res" where
  "decode_sketch E bytes =
     (case take_from_bytes E bytes of
        Inl e \<Rightarrow> Inl (internal_err E (''failed to deserialize DDSketch: '' @ e))
      | Inr (sk, rest) \<Rightarrow>
          (if rest \<noteq> [] then Inl (internal_err E (show_usize E (length rest) @ '' trailing bytes after DDSketch''))
           else Inr sk))"

definition timestamp_from_proto :: "('d, 'p, 'r, 'sk) metric_lib \<Rightarrow> int option \<Rightarrow> 'd option" where
  "timestamp_from_proto E v = map_option (from_timestamp_nanos E) v"

fun value_to_df ::
  "('d, 'p, 'r, 'sk) metric_lib \<Rightarrow> pb_value \<Rightarrow> (datafusion_error, ('d, 'p, 'r, 'sk, 'o) metric_value) res" where
  "value_to_df E (PB_OutputRows n) = Inr (OutputRows (wrap_add 0 n))"
| "value_to_df E (PB_ElapsedCompute n) = Inr (ElapsedCompute (time_add_duration E 0 n))"
| "value_to_df E (PB_SpillCount n) = Inr (SpillCount (wrap_add 0 n))"
| "value_to_df E (PB_SpilledBytes n) = Inr (SpilledBytes (wrap_add 0 n))"
| "value_to_df E (PB_SpilledRows n) = Inr (SpilledRows (wrap_add 0 n))"
| "value_to_df E (PB_CurrentMemoryUsage n) = Inr (CurrentMemoryUsage n)"
| "value_to_df E (PB_Count name n) = Inr (Count name (wrap_add 0 n))"
| "value_to_df E (PB_Gauge name n) = Inr (Gauge name n)"
| "value_to_df E (PB_PeakMemoryUsage name n) = Inr (PeakMemoryUsage name n)"
| "value_to_df E (PB_Time name n) = Inr (Time name (time_add_duration E 0 n))"
| "value_to_df E (PB_StartTimestamp v) = Inr (StartTimestamp (timestamp_from_proto E v))"
| "value_to_df E (PB_EndTimestamp v) = Inr (EndTimestamp (timestamp_from_proto E v))"
| "value_to_df E (PB_OutputBytes n) = Inr (OutputBytes (wrap_add 0 n))"
| "value_to_df E (PB_OutputBatches n) = Inr (OutputBatches (wrap_add 0 n))"
| "value_to_df E (PB_PruningMetrics name a b) =
     Inr (PruningMetrics name (add_matched E (add_pruned E (pruning_new E) a) b))"
| "value_to_df E (PB_Ratio name a b) = Inr (Ratio name (set_total E (set_part E (ratio_new E) a) b))"
| "value_to_df E (PB_CustomMinLatency name v) = Inr (Custom name (Inl (MinLatency v)))"
| "value_to_df E (PB_CustomMaxLatency name v) = Inr (Custom name (Inl (MaxLatency v)))"
| "value_to_df E (PB_CustomAvgLatency name s c) = Inr (Custom name (Inl (AvgLatency s c)))"
| "value_to_df E (PB_CustomFirstLatency name v) = Inr (Custom name (Inl (FirstLatency v)))"
| "value_to_df E (PB_CustomBytesCount name v) = Inr (Custom name (Inl (BytesCounter v)))"
| "value_to_df E (PB_CustomPercentileLatency p name bytes) =
     bind_res (decode_sketch E bytes) (\<lambda>sk. Inr (Custom name (Inl (PercentileLatency p sk))))"
| "value_to_df E (PB_CustomMaxGauge name v) = Inr (Custom name (Inl (MaxGauge v)))"

definition metric_proto_to_df ::
  "('d, 'p, 'r, 'sk) metric_lib \<Rightarrow> pb_metric \<Rightarrow> (datafusion_error, ('d, 'p, 'r, 'sk, 'o) metric) res" where
  "metric_proto_to_df E pm =
     (case pb_value pm of
        None \<Rightarrow> Inl (internal_err E ''proto metric is missing the metric field'')
      | Some v \<Rightarrow>
          bind_res (value_to_df E v) (\<lambda>v.
            Inr \<lparr>m_value = v, m_partition = pb_partition pm,
                 m_labels = map (\<lambda>l. \<lparr>label_name = label_name l, label_value = label_value l\<rparr>) (pb_labels pm)\<rparr>))"

definition metrics_set_proto_to_df ::
  "('d, 'p, 'r, 'sk) metric_lib \<Rightarrow> pb_metric list \<Rightarrow> (datafusion_error, ('d, 'p, 'r, 'sk, 'o) metric list) res" where
  "metrics_set_proto_to_df E pms = map_res (metric_proto_to_df E) pms"

section \<open>What arrives\<close>

text \<open>
  The documented behaviour of the engine and of the serialiser: adding a duration to a timer counts
  at least one nanosecond (zero stands for a timer that was never used), a timestamp of 64 bits
  can be read back, the counters return what was added, and a serialised sketch can be read
  back from exactly its bytes.
\<close>

definition is_i64 :: "int \<Rightarrow> bool" where
  "is_i64 n \<longleftrightarrow> - (2 ^ 63) \<le> n \<and> n < 2 ^ 63"

definition metric_law :: "('d, 'p, 'r, 'sk) metric_lib \<Rightarrow> bool" where
  "metric_law E \<longleftrightarrow>
     (\<forall>n \<le> usize_max. time_add_duration E 0 n = max n 1) \<and>
     (\<forall>n. is_i64 n \<longrightarrow> timestamp_nanos_opt E (from_timestamp_nanos E n) = Some n) \<and>
     (\<forall>dt n. timestamp_nanos_opt E dt = Some n \<longrightarrow> is_i64 n) \<and>
     (\<forall>a \<le> usize_max. \<forall>b \<le> usize_max. pruned E (add_matched E (add_pruned E (pruning_new E) a) b) = a) \<and>
     (\<forall>a \<le> usize_max. \<forall>b \<le> usize_max. matched E (add_matched E (add_pruned E (pruning_new E) a) b) = b) \<and>
     (\<forall>a \<le> usize_max. \<forall>b \<le> usize_max. ratio_part E (set_total E (set_part E (ratio_new E) a) b) = a) \<and>
     (\<forall>a \<le> usize_max. \<forall>b \<le> usize_max. ratio_total E (set_total E (set_part E (ratio_new E) a) b) = b) \<and>
     (\<forall>sk bytes. to_allocvec E sk = Inr bytes \<longrightarrow> take_from_bytes E bytes = Inr (sk, []))"

fun value_typed :: "('d, 'p, 'r, 'sk) metric_lib \<Rightarrow> ('d, 'p, 'r, 'sk, 'o) metric_value \<Rightarrow> bool" where
  "value_typed E (OutputRows n) = (n \<le> usize_max)"
| "value_typed E (ElapsedCompute n) = (n \<le> usize_max)"
| "value_typed E (SpillCount n) = (n \<le> usize_max)"
| "value_typed E (SpilledBytes n) = (n \<le> usize_max)"
| "value_typed E (SpilledRows n) = (n \<le> usize_max)"
| "value_typed E (CurrentMemoryUsage n) = (n \<le> usize_max)"
| "value_typed E (Count _ n) = (n \<le> usize_max)"
| "value_typed E (Gauge _ n) = (n \<le> usize_max)"
| "value_typed E (PeakMemoryUsage _ n) = (n \<le> usize_max)"
| "value_typed E (Time _ n) = (n \<le> usize_max)"
| "value_typed E (OutputBytes n) = (n \<le> usize_max)"
| "value_typed E (OutputBatches n) = (n \<le> usize_max)"
| "value_typed E (PruningMetrics _ p) = (pruned E p \<le> usize_max \<and> matched E p \<le> usize_max)"
| "value_typed E (Ratio _ r) = (ratio_part E r \<le> usize_max \<and> ratio_total E r \<le> usize_max)"
| "value_typed E (Custom _ (Inl m)) = metric_typed m"
| "value_typed E _ = True"

text \<open>Timestamps out of range and sketches that cannot be serialised are errors; metrics of other
  crates are skipped.\<close>

fun encodable :: "('d, 'p, 'r, 'sk) metric_lib \<Rightarrow> ('d, 'p, 'r, 'sk, 'o) metric_value \<Rightarrow> bool" where
  "encodable E (StartTimestamp (Some dt)) = (timestamp_nanos_opt E dt \<noteq> None)"
| "encodable E (EndTimestamp (Some dt)) = (timestamp_nanos_opt E dt \<noteq> None)"
| "encodable E (Custom _ (Inl (PercentileLatency _ sk))) = (case to_allocvec E sk of Inr _ \<Rightarrow> True | Inl _ \<Rightarrow> False)"
| "encodable E _ = True"

fun known_metric :: "('d, 'p, 'r, 'sk, 'o) metric_value \<Rightarrow> bool" where
  "known_metric (Custom _ (Inr _)) = False"
| "known_metric _ = True"

text \<open>What a reader of the arrived metric \<open>w\<close> sees, compared with the metric \<open>v\<close> that was sent.\<close>

fun same_reading ::
  "('d, 'p, 'r, 'sk) metric_lib \<Rightarrow> ('d, 'p, 'r, 'sk, 'o) metric_value \<Rightarrow> ('d, 'p, 'r, 'sk, 'o) metric_value \<Rightarrow> bool" where
  "same_reading E (ElapsedCompute n) w = (w = ElapsedCompute (max n 1))"
| "same_reading E (Time name n) w = (w = Time name (max n 1))"
| "same_reading E (StartTimestamp ts) w =
     (case w of StartTimestamp ts' \<Rightarrow> map_option (timestamp_nanos_opt E) ts' = map_option (timestamp_nanos_opt E) ts | _ \<Rightarrow> False)"
| "same_reading E (EndTimestamp ts) w =
     (case w of EndTimestamp ts' \<Rightarrow> map_option (timestamp_nanos_opt E) ts' = map_option (timestamp_nanos_opt E) ts | _ \<Rightarrow> False)"
| "same_reading E (PruningMetrics name p) w =
     (case w of PruningMetrics name' p' \<Rightarrow> name' = name \<and> pruned E p' = pruned E p \<and> matched E p' = matched E p | _ \<Rightarrow> False)"
| "same_reading E (Ratio name r) w =
     (case w of Ratio name' r' \<Rightarrow> name' = name \<and> ratio_part E r' = ratio_part E r \<and> ratio_total E r' = ratio_total E r | _ \<Rightarrow> False)"
| "same_reading E v w = (w = v)"

definition same_metric ::
  "('d, 'p, 'r, 'sk) metric_lib \<Rightarrow> ('d, 'p, 'r, 'sk, 'o) metric \<Rightarrow> ('d, 'p, 'r, 'sk, 'o) metric \<Rightarrow> bool" where
  "same_metric E m m' \<longleftrightarrow>
     m_partition m' = m_partition m \<and> m_labels m' = m_labels m \<and> same_reading E (m_value m) (m_value m')"

lemma metric_lawD:
  assumes "metric_law E"
  shows "n \<le> usize_max \<Longrightarrow> time_add_duration E 0 n = max n 1"
    and "timestamp_nanos_opt E dt = Some i \<Longrightarrow> timestamp_nanos_opt E (from_timestamp_nanos E i) = Some i"
    and "a \<le> usize_max \<Longrightarrow> b \<le> usize_max \<Longrightarrow> pruned E (add_matched E (add_pruned E (pruning_new E) a) b) = a"
    and "a \<le> usize_max \<Longrightarrow> b \<le> usize_max \<Longrightarrow> matched E (add_matched E (add_pruned E (pruning_new E) a) b) = b"
    and "a \<le> usize_max \<Longrightarrow> b \<le> usize_max \<Longrightarrow> ratio_part E (set_total E (set_part E (ratio_new E) a) b) = a"
    and "a \<le> usize_max \<Longrightarrow> b \<le> usize_max \<Longrightarrow> ratio_total E (set_total E (set_part E (ratio_new E) a) b) = b"
    and "to_allocvec E sk = Inr bytes \<Longrightarrow> take_from_bytes E bytes = Inr (sk, [])"
  using assms unfolding metric_law_def by blast+

lemma value_roundtrip:
  assumes "metric_law E" "value_typed E v" "encodable E v" "known_metric v"
  shows "\<exists>pv w. value_to_proto E v = Inr pv \<and> value_to_df E pv = Inr w \<and> same_reading E v w"
proof (cases v)
  case (Custom name c)
  with assms(4) obtain m where "c = Inl m"
    by (cases c) simp_all
  then show ?thesis
    using assms Custom metric_lawD(7) [OF assms(1)]
    by (cases m) (auto simp: serialize_sketch_def decode_sketch_def split: sum.splits)
next
  case (StartTimestamp ts)
  then show ?thesis
    using assms metric_lawD(2) [OF assms(1)]
    by (cases ts) (auto simp: timestamp_to_proto_def timestamp_from_proto_def)
next
  case (EndTimestamp ts)
  then show ?thesis
    using assms metric_lawD(2) [OF assms(1)]
    by (cases ts) (auto simp: timestamp_to_proto_def timestamp_from_proto_def)
qed (use assms(2) in \<open>simp_all add: metric_lawD [OF assms(1)]\<close>)

lemma value_unknown:
  "\<not> known_metric v \<Longrightarrow> value_to_proto E v = Inl (internal_err E custom_metrics_not_supported)"
  by (induction v rule: known_metric.induct) simp_all

lemma value_not_encodable:
  assumes "\<not> encodable E v"
  shows "\<exists>e. value_to_proto E v = Inl e \<and> e \<noteq> DF_Internal custom_metrics_not_supported \<and> e \<noteq> DF_Internal unsupported_metrics"
  using assms
  by (induction v rule: encodable.induct)
    (auto simp: timestamp_to_proto_def timestamp_err_def serialize_sketch_def internal_err_def
      custom_metrics_not_supported_def unsupported_metrics_def split: sum.splits)

lemma copy_label: "\<lparr>label_name = label_name l, label_value = label_value l\<rparr> = (l :: label)"
  by simp

lemma metric_roundtrip:
  assumes "metric_law E" "value_typed E (m_value m)" "encodable E (m_value m)" "known_metric (m_value m)"
  shows "\<exists>pm m'. df_metric_to_proto E m = Inr pm \<and> metric_proto_to_df E pm = Inr m' \<and> same_metric E m m'"
proof -
  obtain pv w where "value_to_proto E (m_value m) = Inr pv" "value_to_df E pv = Inr w" "same_reading E (m_value m) w"
    using value_roundtrip [OF assms] by blast
  then show ?thesis
    by (simp add: df_metric_to_proto_def metric_proto_to_df_def same_metric_def comp_def copy_label)
qed

lemma metric_unknown:
  "\<not> known_metric (m_value m) \<Longrightarrow> back_trace E = [] \<Longrightarrow>
   df_metrics_set_to_proto E (m # ms) = df_metrics_set_to_proto E ms"
  by (simp add: df_metric_to_proto_def value_unknown internal_err_def)

lemma unknown_encodable: "\<not> known_metric v \<Longrightarrow> encodable E v"
  by (induction v rule: known_metric.induct) simp_all

section \<open>Properties\<close>


definition example_metric_lib :: "(int, nat \<times> nat, nat \<times> nat, nat) metric_lib" where
  "example_metric_lib =
     \<lparr>time_add_duration = \<lambda>t d. t + max d 1,
      timestamp_nanos_opt = \<lambda>n. if - (2 ^ 63) \<le> n \<and> n < 2 ^ 63 then Some n else None,
      from_timestamp_nanos = \<lambda>n. n,
      pruning_new = (0, 0), add_pruned = \<lambda>(a, b) n. (a + n, b), add_matched = \<lambda>(a, b) n. (a, b + n),
      pruned = fst, matched = snd,
      ratio_new = (0, 0), set_part = \<lambda>(a, b) n. (n, b), set_total = \<lambda>(a, b) n. (a, n),
      ratio_part = fst, ratio_total = snd,
      to_allocvec = \<lambda>sk. Inr [sk], take_from_bytes = \<lambda>bs. case bs of b # bs \<Rightarrow> Inr (b, bs) | [] \<Rightarrow> Inl ''eof'',
      show_usize = \<lambda>n. replicate n CHR ''x'', back_trace = []\<rparr>"

definition example_metrics :: "(int, nat \<times> nat, nat \<times> nat, nat, unit) metric list" where
  "example_metrics =
     [\<lparr>m_value = ElapsedCompute 0, m_partition = Some 0, m_labels = []\<rparr>,
      \<lparr>m_value = Custom ''other'' (Inr ()), m_partition = None, m_labels = []\<rparr>,
      \<lparr>m_value = Custom ''p95'' (Inl (PercentileLatency P95 7)), m_partition = Some 1, m_labels = []\<rparr>,
      \<lparr>m_value = StartTimestamp (Some 1234), m_partition = None, m_labels = [\<lparr>label_name = ''k'', label_value = ''v''\<rparr>]\<rparr>]"

lemma example_metric_law: "metric_law example_metric_lib"
  by (simp add: metric_law_def example_metric_lib_def is_i64_def split: if_splits)


text \<open>A timer that was never used arrives as one that ran for a nanosecond.\<close>

lemma unused_timer_arrives_used:
  assumes "metric_law E"
  shows "df_metric_to_proto E \<lparr>m_value = ElapsedCompute 0, m_partition = p, m_labels = []\<rparr> =
      Inr \<lparr>pb_value = Some (PB_ElapsedCompute 0), pb_partition = p, pb_labels = []\<rparr>"
    and "metric_proto_to_df E \<lparr>pb_value = Some (PB_ElapsedCompute 0), pb_partition = p, pb_labels = []\<rparr> =
      Inr \<lparr>m_value = ElapsedCompute 1, m_partition = p, m_labels = []\<rparr>"
  using metric_lawD(1) [OF assms, of 0] by (simp_all add: df_metric_to_proto_def metric_proto_to_df_def)

end
