(* ===== verification/WorkUnitFeed.thy ===== *)
theory WorkUnitFeed
  imports Recursion CustomMetrics
begin

text \<open>
  Work units are pieces of work, such as the addresses of files, that the coordinator discovers while
  the query runs and streams to the tasks
  (\<open>src/src/work_unit_feed/\<close>, the sending half in \<open>src/src/coordinator/query_coordinator.rs\<close>, the
  receiving half in \<open>src/src/worker/impl_coordinator_channel.rs\<close>).

  The coordinator visits the plan of a stage in every task context, takes from every feed the
  streams of that task's partitions, and sends their units in batches; the worker puts every unit
  into the queue of its feed and partition. Streams are interleaved in any order. The user's feeds
  and the operators of the engine are parameters.
\<close>

section \<open>Messages\<close>

datatype 'w maybe_encoded = Encoded "nat list" | Decoded 'w

record 'w work_unit_msg =
  wu_id :: uuid
  wu_partition :: nat
  wu_body :: "'w maybe_encoded"
  wu_created :: nat
  wu_sent :: nat
  wu_received :: nat
  wu_processed :: nat

datatype ('w, 'f) c2w_msg =
    KickOffSampling
  | WorkUnitBatch "'w work_unit_msg list"
  | WorkUnitEos
  | ApplyDynamicFilter 'f

fun set_work_unit_send_time :: "nat \<Rightarrow> ('w, 'f) c2w_msg \<Rightarrow> ('w, 'f) c2w_msg" where
  "set_work_unit_send_time now (WorkUnitBatch us) = WorkUnitBatch (map (\<lambda>u. u\<lparr>wu_sent := now\<rparr>) us)"
| "set_work_unit_send_time now m = m"

fun set_work_unit_received_time :: "nat \<Rightarrow> ('w, 'f) c2w_msg \<Rightarrow> ('w, 'f) c2w_msg" where
  "set_work_unit_received_time now (WorkUnitBatch us) = WorkUnitBatch (map (\<lambda>u. u\<lparr>wu_received := now\<rparr>) us)"
| "set_work_unit_received_time now m = m"

section \<open>Coordinator\<close>

text \<open>
  A feed produces one stream per partition of the whole stage; it is told in how many tasks its node
  runs. A stream is the list of its items.
\<close>

record ('e, 'w) work_unit_feed =
  feed_id :: uuid
  feed_partitions :: nat
  feed_stream :: "nat \<Rightarrow> nat \<Rightarrow> ('e, ('e, 'w) res list) res"

text \<open>The registered getters are asked in order.\<close>

fun get_work_unit_feed :: "('n \<Rightarrow> ('e, 'w) work_unit_feed option) list \<Rightarrow> 'n \<Rightarrow> ('e, 'w) work_unit_feed option" where
  "get_work_unit_feed [] node = None"
| "get_work_unit_feed (g # gs) node =
     (case g node of Some feed \<Rightarrow> Some feed | None \<Rightarrow> get_work_unit_feed gs node)"

text \<open>What the closure collects: for every feed its streams, in the order of the task's partitions.\<close>

record ('e, 'w) feed_job =
  job_id :: uuid
  job_streams :: "('e, 'w) res list list"

definition feed_indices :: "('e, 'w) work_unit_feed \<Rightarrow> task_ctx \<Rightarrow> nat list" where
  "feed_indices wuf ctx =
     (let start_partition = feed_partitions wuf * task_index ctx;
          end_partition = start_partition + feed_partitions wuf
      in [start_partition..<end_partition])"

definition feed_visit ::
  "(('x, 'r, 'q, 'o) plan \<Rightarrow> ('e, 'w) work_unit_feed option) list \<Rightarrow>
   ('x, 'r, 'q, 'o) plan \<Rightarrow> task_ctx \<Rightarrow> ('e, ('e, 'w) feed_job list) visit" where
  "feed_visit getters p ctx jobs =
     (case get_work_unit_feed getters p of
        None \<Rightarrow> Inr (Continue, jobs)
      | Some wuf \<Rightarrow>
          bind_res (map_res (feed_stream wuf (task_count ctx)) (feed_indices wuf ctx)) (\<lambda>streams.
            Inr (Continue, jobs @ [\<lparr>job_id = feed_id wuf, job_streams = streams\<rparr>])))"

definition coordinator_feed_jobs ::
  "('e, ('e, 'w) feed_job list) visit_lib \<Rightarrow> 'e \<Rightarrow>
   (('x, 'r, 'q, 'o) plan \<Rightarrow> ('e, 'w) work_unit_feed option) list \<Rightarrow>
   ('x, 'r, 'q, 'o) plan \<Rightarrow> task_ctx \<Rightarrow> ('e, ('e, 'w) feed_job list) res" where
  "coordinator_feed_jobs L panic getters p ctx =
     bind_res (apply_with_dt_ctx L panic (feed_visit getters) p ctx []) (\<lambda>(_, jobs). Inr jobs)"

text \<open>Any interleaving of streams.\<close>

inductive select_all :: "'a list list \<Rightarrow> 'a list \<Rightarrow> bool" where
  ended: "list_all (\<lambda>xs. xs = []) xss \<Longrightarrow> select_all xss []"
| item: "\<lbrakk>i < length xss; xss ! i = x # xs; select_all (xss[i := xs]) ys\<rbrakk> \<Longrightarrow> select_all xss (x # ys)"

definition work_unit_feed_chunk_size :: nat where
  "work_unit_feed_chunk_size = 256"

text \<open>Chunks of the items that are ready: never empty and of limited size.\<close>

definition ready_chunks :: "nat \<Rightarrow> 'a list \<Rightarrow> 'a list list \<Rightarrow> bool" where
  "ready_chunks cap xs chunks \<longleftrightarrow>
     concat chunks = xs \<and> list_all (\<lambda>c. c \<noteq> [] \<and> length c \<le> cap) chunks"

definition build_work_unit_batch_msg :: "nat \<Rightarrow> uuid \<Rightarrow> (nat \<times> ('e, 'w) res) list \<Rightarrow> ('e, ('w, 'f) c2w_msg) res" where
  "build_work_unit_batch_msg now fid chunk =
     bind_res (map_res (\<lambda>(partition, unit). bind_res unit (\<lambda>w.
         Inr \<lparr>wu_id = fid, wu_partition = partition, wu_body = Decoded w,
              wu_created = now, wu_sent = 0, wu_received = 0, wu_processed = 0\<rparr>)) chunk)
       (\<lambda>batch. Inr (WorkUnitBatch batch))"

definition tag_partitions :: "'a list list \<Rightarrow> (nat \<times> 'a) list list" where
  "tag_partitions streams = map (\<lambda>(partition, xs). map (\<lambda>x. (partition, x)) xs) (enumerate 0 streams)"

text \<open>The messages of one feed, if none of its items is an error: an error fails the query.\<close>

definition job_sends :: "('e, 'w) feed_job \<Rightarrow> ('w, 'f) c2w_msg list \<Rightarrow> bool" where
  "job_sends job msgs \<longleftrightarrow>
     (\<exists>items chunks times. select_all (tag_partitions (job_streams job)) items \<and>
        ready_chunks work_unit_feed_chunk_size items chunks \<and> length times = length chunks \<and>
        map_res (\<lambda>(now, chunk). build_work_unit_batch_msg now (job_id job) chunk) (zip times chunks) = Inr msgs)"

text \<open>
  What a task is sent: the feeds' messages in any interleaving, then the end of the work units, and
  in between whatever else the coordinator sends; the time of sending is set on the way.
\<close>

definition coordinator_sends :: "('e, 'w) feed_job list \<Rightarrow> ('w, 'f) c2w_msg list \<Rightarrow> bool" where
  "coordinator_sends jobs msgs \<longleftrightarrow>
     (\<exists>per_job units others stream times.
        list_all2 job_sends jobs per_job \<and> select_all per_job units \<and>
        list_all (\<lambda>m. case m of KickOffSampling \<Rightarrow> True | ApplyDynamicFilter _ \<Rightarrow> True | _ \<Rightarrow> False) others \<and>
        select_all [units @ [WorkUnitEos], others] stream \<and> length times = length stream \<and>
        msgs = map (\<lambda>(now, m). set_work_unit_send_time now m) (zip times stream))"

section \<open>Worker\<close>

record 'w feed_channel =
  ch_queue :: "'w work_unit_msg list"
  ch_open :: bool

type_synonym 'w feed_registry = "uuid \<times> nat \<rightharpoonup> 'w feed_channel"

definition registry_add_partition :: "uuid \<Rightarrow> nat \<Rightarrow> 'w feed_registry \<Rightarrow> 'w feed_registry" where
  "registry_add_partition fid part reg =
     (if reg (fid, part) \<noteq> None then reg
      else reg((fid, part) \<mapsto> \<lparr>ch_queue = [], ch_open = True\<rparr>))"

definition registry_add :: "uuid \<Rightarrow> nat \<Rightarrow> 'w feed_registry \<Rightarrow> 'w feed_registry" where
  "registry_add fid partitions reg = fold (registry_add_partition fid) [0..<partitions] reg"

definition registry_of :: "(uuid \<times> nat) list \<Rightarrow> 'w feed_registry" where
  "registry_of declarations = fold (\<lambda>(fid, partitions). registry_add fid partitions) declarations Map.empty"

text \<open>
  The loop over the coordinator's messages. \<open>senders\<close> is dropped at the end of the work units; an
  error of a dynamic filter goes into a channel with room for one.
\<close>

record ('w, 'e) channel_loop =
  cl_feeds :: "'w feed_registry"
  cl_senders :: "(uuid \<times> nat) set option"
  cl_sampling :: bool
  cl_errors :: "'e list"

definition channel_loop_new :: "'w feed_registry \<Rightarrow> ('w, 'e) channel_loop" where
  "channel_loop_new reg = \<lparr>cl_feeds = reg, cl_senders = Some (dom reg), cl_sampling = False, cl_errors = []\<rparr>"

definition send_unit :: "'w work_unit_msg \<Rightarrow> ('w, 'e) channel_loop \<Rightarrow> ('w, 'e) channel_loop" where
  "send_unit wu cl =
     (let key = (wu_id wu, wu_partition wu)
      in case cl_senders cl of
           None \<Rightarrow> cl
         | Some senders \<Rightarrow>
             if key \<notin> senders then cl
             else case cl_feeds cl key of
                    Some ch \<Rightarrow>
                      if ch_open ch then cl\<lparr>cl_feeds := (cl_feeds cl)(key \<mapsto> ch\<lparr>ch_queue := ch_queue ch @ [wu]\<rparr>)\<rparr>
                      else cl\<lparr>cl_senders := Some (senders - {key})\<rparr>
                  | None \<Rightarrow> cl\<lparr>cl_senders := Some (senders - {key})\<rparr>)"

fun handle_c2w_msg :: "('f \<Rightarrow> 'e option) \<Rightarrow> ('w, 'f) c2w_msg \<Rightarrow> ('w, 'e) channel_loop \<Rightarrow> ('w, 'e) channel_loop" where
  "handle_c2w_msg apply_filter (WorkUnitBatch batch) cl =
     (if cl_senders cl = None then cl else fold send_unit batch cl)"
| "handle_c2w_msg apply_filter WorkUnitEos cl = cl\<lparr>cl_senders := None\<rparr>"
| "handle_c2w_msg apply_filter KickOffSampling cl = cl\<lparr>cl_sampling := True\<rparr>"
| "handle_c2w_msg apply_filter (ApplyDynamicFilter f) cl =
     (case apply_filter f of
        None \<Rightarrow> cl
      | Some e \<Rightarrow> if cl_errors cl = [] then cl\<lparr>cl_errors := [e]\<rparr> else cl)"

text \<open>
  What happens to a task: a message or an error arrives, a receiver is dropped by the operator that
  held it, or the coordinator's stream takes the error. The loop ends at an error.
\<close>

datatype ('w, 'f) channel_event =
    Received nat "('w, 'f) c2w_msg"
  | StreamFailed
  | ReceiverDropped uuid nat
  | ErrorTaken

fun channel_run :: "('f \<Rightarrow> 'e option) \<Rightarrow> ('w, 'f) channel_event list \<Rightarrow> ('w, 'e) channel_loop \<Rightarrow> ('w, 'e) channel_loop" where
  "channel_run apply_filter [] cl = cl"
| "channel_run apply_filter (Received now m # evs) cl =
     channel_run apply_filter evs (handle_c2w_msg apply_filter (set_work_unit_received_time now m) cl)"
| "channel_run apply_filter (StreamFailed # evs) cl = cl"
| "channel_run apply_filter (ReceiverDropped fid part # evs) cl =
     channel_run apply_filter evs
       (cl\<lparr>cl_feeds := (cl_feeds cl)((fid, part) := map_option (ch_open_update (\<lambda>_. False)) (cl_feeds cl (fid, part)))\<rparr>)"
| "channel_run apply_filter (ErrorTaken # evs) cl = channel_run apply_filter evs (cl\<lparr>cl_errors := []\<rparr>)"

text \<open>
  The remote feed of an operator: it takes the receiver of its partition, which can be done once, and
  decodes the units. The latencies are differences of the clocks of two machines, computed on
  unsigned words: an earlier time of arrival is an arithmetic overflow.
\<close>

datatype feed_error =
    MissingRegistry
  | MissingFeed uuid nat
  | AlreadyConsumed uuid nat
  | DecodeFailed string
  | UnexpectedType
  | Overflow

definition remote_feed_open ::
  "(uuid \<times> nat \<rightharpoonup> bool) option \<Rightarrow> uuid \<Rightarrow> nat \<Rightarrow> (feed_error, (uuid \<times> nat \<rightharpoonup> bool)) res" where
  "remote_feed_open rxs fid part =
     (case rxs of
        None \<Rightarrow> Inl MissingRegistry
      | Some rxs \<Rightarrow>
          (case rxs (fid, part) of
             None \<Rightarrow> Inl (MissingFeed fid part)
           | Some False \<Rightarrow> Inl (AlreadyConsumed fid part)
           | Some True \<Rightarrow> Inr (rxs((fid, part) \<mapsto> False))))"

definition usize_sub :: "nat \<Rightarrow> nat \<Rightarrow> (feed_error, nat) res" where
  "usize_sub a b = (if a < b then Inl Overflow else Inr (a - b))"

text \<open>The counters of a remote feed, and its latencies as maximum and median.\<close>

record 'sk feed_metrics =
  fm_bytes :: nat
  fm_in_memory :: nat
  fm_count :: nat
  fm_send_max :: "'sk custom_metric"
  fm_send_p50 :: "'sk custom_metric"
  fm_received_max :: "'sk custom_metric"
  fm_received_p50 :: "'sk custom_metric"
  fm_processed_max :: "'sk custom_metric"
  fm_processed_p50 :: "'sk custom_metric"

definition feed_metrics_new :: "'sk sketch_lib \<Rightarrow> 'sk feed_metrics" where
  "feed_metrics_new SK =
     (let maxm = new_empty SK (MaxLatency 0); p50 = new_empty SK (PercentileLatency P50 (sk_new SK))
      in \<lparr>fm_bytes = 0, fm_in_memory = 0, fm_count = 0, fm_send_max = maxm, fm_send_p50 = p50,
          fm_received_max = maxm, fm_received_p50 = p50, fm_processed_max = maxm, fm_processed_p50 = p50\<rparr>)"

text \<open>What is recorded before an error stays recorded.\<close>

definition feed_latencies ::
  "'sk sketch_lib \<Rightarrow> nat \<Rightarrow> 'w work_unit_msg \<Rightarrow> 'sk feed_metrics \<Rightarrow> feed_error option \<times> 'sk feed_metrics" where
  "feed_latencies SK now u fm =
     (let fm = fm\<lparr>fm_count := wrap_add (fm_count fm) 1\<rparr> in
      case usize_sub (wu_sent u) (wu_created u) of
        Inl e \<Rightarrow> (Some e, fm)
      | Inr send \<Rightarrow>
      (let fm = fm\<lparr>fm_send_max := add_nanos SK (fm_send_max fm) send,
                  fm_send_p50 := add_nanos SK (fm_send_p50 fm) send\<rparr> in
      case usize_sub (wu_received u) (wu_created u) of
        Inl e \<Rightarrow> (Some e, fm)
      | Inr received \<Rightarrow>
      (let fm = fm\<lparr>fm_received_max := add_nanos SK (fm_received_max fm) received,
                  fm_received_p50 := add_nanos SK (fm_received_p50 fm) received\<rparr> in
      case usize_sub now (wu_created u) of
        Inl e \<Rightarrow> (Some e, fm)
      | Inr processed \<Rightarrow>
          (None, fm\<lparr>fm_processed_max := add_nanos SK (fm_processed_max fm) processed,
                   fm_processed_p50 := add_nanos SK (fm_processed_p50 fm) processed\<rparr>))))"

definition remote_feed_item ::
  "'sk sketch_lib \<Rightarrow> (nat list \<Rightarrow> (string, 'w) res) \<Rightarrow> ('u \<Rightarrow> 'w option) \<Rightarrow> nat \<Rightarrow> 'u work_unit_msg \<Rightarrow> 'sk feed_metrics \<Rightarrow>
   (feed_error, 'w) res \<times> 'sk feed_metrics" where
  "remote_feed_item SK decode downcast now u fm =
     (let (body, fm) =
        (case wu_body u of
           Encoded bytes \<Rightarrow>
             (case decode bytes of Inl e \<Rightarrow> Inl (DecodeFailed e) | Inr w \<Rightarrow> Inr w,
              fm\<lparr>fm_bytes := add_bytes (fm_bytes fm) (length bytes)\<rparr>)
         | Decoded x \<Rightarrow>
             (case downcast x of
                None \<Rightarrow> (Inl UnexpectedType, fm)
              | Some w \<Rightarrow> (Inr w, fm\<lparr>fm_in_memory := wrap_add (fm_in_memory fm) 1\<rparr>)))
      in case body of
           Inl e \<Rightarrow> (Inl e, fm)
         | Inr w \<Rightarrow>
             (case feed_latencies SK now u fm of
                (Some e, fm) \<Rightarrow> (Inl e, fm)
              | (None, fm) \<Rightarrow> (Inr w, fm)))"

section \<open>Interleavings\<close>

text \<open>An interleaving shows of every stream what it would show alone.\<close>

lemma select_all_project:
  assumes "select_all xss ys" "i < length xss" "\<And>j x. j < length xss \<Longrightarrow> j \<noteq> i \<Longrightarrow> x \<in> set (xss ! j) \<Longrightarrow> f x = []"
  shows "concat (map f ys) = concat (map f (xss ! i))"
  using assms
proof (induction rule: select_all.induct)
  case (ended xss)
  then show ?case
    by (simp add: list_all_length)
next
  case (item k xss x xs ys)
  have "concat (map f ys) = concat (map f (xss[k := xs] ! i))"
  proof (rule item.IH)
    fix j y
    assume j: "j < length (xss[k := xs])" "j \<noteq> i" "y \<in> set (xss[k := xs] ! j)"
    then have "y \<in> set (xss ! j)"
      using item.hyps(1,2) by (cases "j = k") simp_all
    then show "f y = []"
      using item.prems(2) j by simp
  qed (use item.prems in simp)
  moreover have "f x = []" if "k \<noteq> i"
    using item.hyps(1,2) item.prems(2) [of k x] that by simp
  ultimately show ?case
    using item.hyps(1,2) by (cases "k = i") simp_all
qed

lemma select_all_none:
  assumes "select_all xss ys" "\<And>x. x \<in> set (concat xss) \<Longrightarrow> P x"
  shows "list_all P ys"
  using assms
proof (induction rule: select_all.induct)
  case (item k xss x xs ys)
  have "x \<in> set (concat xss)"
    using item.hyps(1,2) by (auto simp: in_set_conv_nth intro!: bexI [of _ "xss ! k"])
  moreover have "y \<in> set (concat xss)" if y: "y \<in> set (concat (xss[k := xs]))" for y
  proof -
    obtain zs where "zs \<in> set (xss[k := xs])" "y \<in> set zs"
      using y by auto
    then have "zs = xs \<or> zs \<in> set xss" "y \<in> set zs"
      using set_update_subset_insert [of xss k xs] by auto
    moreover have "x # xs \<in> set xss"
      using nth_mem [OF item.hyps(1)] item.hyps(2) by simp
    ultimately show ?thesis
      by (cases "zs = xs") (auto intro: bexI [of _ "x # xs"])
  qed
  ultimately show ?case
    using item.IH item.prems by simp
qed simp

section \<open>Delivery\<close>

definition unit_key :: "'w work_unit_msg \<Rightarrow> uuid \<times> nat" where
  "unit_key u = (wu_id u, wu_partition u)"

fun bodies_of :: "uuid \<times> nat \<Rightarrow> ('w, 'f) c2w_msg \<Rightarrow> 'w maybe_encoded list" where
  "bodies_of k (WorkUnitBatch us) = map wu_body (filter (\<lambda>u. unit_key u = k) us)"
| "bodies_of k m = []"

definition units_for :: "uuid \<times> nat \<Rightarrow> ('w, 'f) c2w_msg list \<Rightarrow> 'w maybe_encoded list" where
  "units_for k msgs = concat (map (bodies_of k) msgs)"

lemma bodies_of_times [simp]:
  "bodies_of k (set_work_unit_send_time t m) = bodies_of k m"
  "bodies_of k (set_work_unit_received_time t m) = bodies_of k m"
  by (cases m; simp add: filter_map comp_def unit_key_def)+

definition is_unit_msg :: "('w, 'f) c2w_msg \<Rightarrow> bool" where
  "is_unit_msg m = (case m of WorkUnitBatch _ \<Rightarrow> True | WorkUnitEos \<Rightarrow> True | _ \<Rightarrow> False)"

abbreviation before_eos :: "('w, 'f) c2w_msg list \<Rightarrow> ('w, 'f) c2w_msg list" where
  "before_eos \<equiv> takeWhile (\<lambda>m. m \<noteq> WorkUnitEos)"

lemma set_time_eos [simp]: "set_work_unit_send_time t m = WorkUnitEos \<longleftrightarrow> m = WorkUnitEos"
  by (cases m) simp_all

lemma received_time_eos [simp]: "set_work_unit_received_time t m = WorkUnitEos \<longleftrightarrow> m = WorkUnitEos"
  by (cases m) simp_all

text \<open>What one feed sends.\<close>

lemma build_batch_bodies:
  assumes "build_work_unit_batch_msg now fid chunk = Inr m"
  shows "bodies_of (fid, part) m = map (\<lambda>(_, x). Decoded (projr x)) (filter (\<lambda>(p, _). p = part) chunk)"
    and "fid' \<noteq> fid \<Longrightarrow> bodies_of (fid', part) m = []" and "is_unit_msg m" "m \<noteq> WorkUnitEos"
proof -
  let ?f = "\<lambda>(part, unit). bind_res unit (\<lambda>w. Inr \<lparr>wu_id = fid, wu_partition = part, wu_body = Decoded w,
    wu_created = now, wu_sent = 0, wu_received = 0, wu_processed = 0\<rparr>)"
  obtain us where us: "map_res ?f chunk = Inr us" "m = WorkUnitBatch us"
    using assms by (auto simp: build_work_unit_batch_msg_def bind_res_eq_Inr)
  then show "is_unit_msg m" "m \<noteq> WorkUnitEos"
    by (simp_all add: is_unit_msg_def)
  have "list_all2 (\<lambda>(p, x) u. unit_key u = (fid, p) \<and> wu_body u = Decoded (projr x)) chunk us"
    using us(1) by (auto simp: map_res_Inr_iff unit_key_def bind_res_eq_Inr elim!: list_all2_mono)
  then show "bodies_of (fid, part) m = map (\<lambda>(_, x). Decoded (projr x)) (filter (\<lambda>(p, _). p = part) chunk)"
    "fid' \<noteq> fid \<Longrightarrow> bodies_of (fid', part) m = []"
    unfolding us(2) by (induction rule: list_all2_induct) auto
qed

lemma select_partition:
  assumes "select_all (tag_partitions streams) items" "part < length streams"
  shows "map snd (filter (\<lambda>x. fst x = part) items) = streams ! part"
proof -
  let ?f = "\<lambda>x. if fst x = part then [snd x] else []"
  have f: "concat (map ?f xs) = map snd (filter (\<lambda>x. fst x = part) xs)" for xs
    by (induction xs) auto
  have tags: "length (tag_partitions streams) = length streams"
    "j < length streams \<Longrightarrow> tag_partitions streams ! j = map (\<lambda>x. (j, x)) (streams ! j)" for j
    by (simp_all add: tag_partitions_def nth_enumerate_eq)
  have "concat (map ?f items) = concat (map ?f (tag_partitions streams ! part))"
    using assms by (intro select_all_project) (auto simp: tags)
  then show ?thesis
    using assms(2) by (simp add: f tags comp_def)
qed

lemma job_sends_units:
  assumes "job_sends job msgs"
  shows "part < length (job_streams job) \<Longrightarrow>
      units_for (job_id job, part) msgs = map (\<lambda>x. Decoded (projr x)) (job_streams job ! part)"
    and "fid \<noteq> job_id job \<Longrightarrow> units_for (fid, part) msgs = []"
    and "list_all (\<lambda>m. is_unit_msg m \<and> m \<noteq> WorkUnitEos) msgs"
proof -
  obtain items chunks times where items: "select_all (tag_partitions (job_streams job)) items"
    and chunks: "concat chunks = items" "length times = length chunks"
    and msgs: "list_all2 (\<lambda>(now, chunk) m. build_work_unit_batch_msg now (job_id job) chunk = Inr m) (zip times chunks) msgs"
    using assms by (auto simp: job_sends_def ready_chunks_def map_res_Inr_iff case_prod_unfold)
  have "list_all2 (\<lambda>(now, chunk) m.
      bodies_of (job_id job, part) m = map (\<lambda>(_, x). Decoded (projr x)) (filter (\<lambda>(p, _). p = part) chunk) \<and>
      (fid \<noteq> job_id job \<longrightarrow> bodies_of (fid, part) m = []) \<and> is_unit_msg m \<and> m \<noteq> WorkUnitEos) (zip times chunks) msgs"
    using msgs by (rule list_all2_mono) (auto dest: build_batch_bodies)
  then have "units_for (job_id job, part) msgs =
        map (\<lambda>(_, x). Decoded (projr x)) (filter (\<lambda>(p, _). p = part) (concat (map snd (zip times chunks)))) \<and>
      (fid \<noteq> job_id job \<longrightarrow> units_for (fid, part) msgs = []) \<and> list_all (\<lambda>m. is_unit_msg m \<and> m \<noteq> WorkUnitEos) msgs"
    by (induction rule: list_all2_induct) (auto simp: units_for_def)
  then have units: "units_for (job_id job, part) msgs = map (\<lambda>(_, x). Decoded (projr x)) (filter (\<lambda>(p, _). p = part) items)"
    and "fid \<noteq> job_id job \<Longrightarrow> units_for (fid, part) msgs = []" "list_all (\<lambda>m. is_unit_msg m \<and> m \<noteq> WorkUnitEos) msgs"
    using chunks by simp_all
  then show "fid \<noteq> job_id job \<Longrightarrow> units_for (fid, part) msgs = []"
    "list_all (\<lambda>m. is_unit_msg m \<and> m \<noteq> WorkUnitEos) msgs"
    by blast+
  assume "part < length (job_streams job)"
  then show "units_for (job_id job, part) msgs = map (\<lambda>x. Decoded (projr x)) (job_streams job ! part)"
    unfolding units by (simp add: case_prod_unfold select_partition [OF items, symmetric] comp_def)
qed

text \<open>What a task is sent, up to the end of its work units.\<close>

lemma units_for_filter: "units_for k (filter is_unit_msg ms) = units_for k ms"
proof (induction ms)
  case (Cons m ms)
  then show ?case
    by (cases m) (simp_all add: units_for_def is_unit_msg_def)
qed (simp add: units_for_def)

lemma filter_before_eos: "filter is_unit_msg (before_eos ms) = before_eos (filter is_unit_msg ms)"
proof (induction ms)
  case (Cons m ms)
  then show ?case
    by (cases m) (simp_all add: is_unit_msg_def)
qed simp

lemma send_times_project:
  assumes "length ts = length stream"
  shows "units_for k (before_eos (map (\<lambda>(now, m). set_work_unit_send_time now m) (zip ts stream))) = units_for k (before_eos stream)"
  using assms by (induction ts stream rule: list_induct2) (simp_all add: units_for_def)

lemma stream_units:
  assumes "list_all (\<lambda>m. is_unit_msg m \<and> m \<noteq> WorkUnitEos) units" "list_all (\<lambda>m. \<not> is_unit_msg m) others"
    "select_all [units @ [WorkUnitEos], others] stream"
  shows "units_for k (before_eos stream) = units_for k units"
proof -
  let ?f = "\<lambda>m. if is_unit_msg m then [m] else []"
  have f: "concat (map ?f ms) = filter is_unit_msg ms" for ms
    by (induction ms) simp_all
  have eos: "is_unit_msg WorkUnitEos"
    by (simp add: is_unit_msg_def)
  have "concat (map ?f stream) = concat (map ?f ([units @ [WorkUnitEos], others] ! 0))"
    using assms(2) by (intro select_all_project [OF assms(3)]) (auto simp: less_Suc_eq list_all_iff)
  also have "\<dots> = units @ [WorkUnitEos]"
    using assms(1) eos by (simp add: f filter_id_conv list_all_iff)
  finally have "filter is_unit_msg (before_eos stream) = units"
    using assms(1) by (simp add: f filter_before_eos takeWhile_append list_all_iff)
  then show ?thesis
    using units_for_filter [of k "before_eos stream"] by simp
qed

lemma coordinator_sends_units:
  assumes "coordinator_sends jobs msgs" "distinct (map job_id jobs)" "i < length jobs" "part < length (job_streams (jobs ! i))"
  shows "units_for (job_id (jobs ! i), part) (before_eos msgs) = map (\<lambda>x. Decoded (projr x)) (job_streams (jobs ! i) ! part)"
proof -
  let ?k = "(job_id (jobs ! i), part)"
  obtain per_job units others stream ts where per_job: "list_all2 job_sends jobs per_job"
    and units: "select_all per_job units"
    and others: "list_all (\<lambda>m. case m of KickOffSampling \<Rightarrow> True | ApplyDynamicFilter _ \<Rightarrow> True | _ \<Rightarrow> False) others"
    and stream: "select_all [units @ [WorkUnitEos], others] stream" "length ts = length stream"
    and msgs: "msgs = map (\<lambda>(now, m). set_work_unit_send_time now m) (zip ts stream)"
    using assms(1) unfolding coordinator_sends_def by blast
  have sends: "job_sends (jobs ! j) (per_job ! j)" if "j < length jobs" for j
    using per_job that by (rule list_all2_nthD)
  have len: "length per_job = length jobs"
    using per_job by (simp add: list_all2_lengthD)
  have "list_all (\<lambda>m. is_unit_msg m \<and> m \<noteq> WorkUnitEos) units"
    using job_sends_units(3) [OF sends] len
    by (intro select_all_none [OF units]) (force simp: in_set_conv_nth list_all_iff)
  moreover have "list_all (\<lambda>m. \<not> is_unit_msg m) others"
    using others by (auto simp: list_all_iff is_unit_msg_def split: c2w_msg.splits)
  ultimately have "units_for ?k (before_eos stream) = units_for ?k units"
    using stream(1) by (intro stream_units)
  also have "\<dots> = concat (map (bodies_of ?k) (per_job ! i))"
    unfolding units_for_def
  proof (rule select_all_project [OF units])
    fix j m
    assume j: "j < length per_job" "j \<noteq> i" "m \<in> set (per_job ! j)"
    then have "job_id (jobs ! i) \<noteq> job_id (jobs ! j)"
      using assms(2,3) len by (simp add: distinct_conv_nth)
    then have "units_for ?k (per_job ! j) = []"
      using job_sends_units(2) [OF sends] j len by simp
    then show "bodies_of ?k m = []"
      using j(3) by (auto simp: units_for_def)
  qed (use assms(3) len in simp)
  also have "\<dots> = map (\<lambda>x. Decoded (projr x)) (job_streams (jobs ! i) ! part)"
    using job_sends_units(1) [OF sends [OF assms(3)] assms(4)] by (simp add: units_for_def)
  finally show ?thesis
    unfolding msgs send_times_project [OF stream(2)] .
qed

text \<open>The worker's queue of a feed and partition whose receiver is kept.\<close>

fun received :: "('w, 'f) channel_event list \<Rightarrow> ('w, 'f) c2w_msg list" where
  "received [] = []"
| "received (Received _ m # evs) = m # received evs"
| "received (StreamFailed # evs) = []"
| "received (_ # evs) = received evs"

definition queue_is :: "uuid \<times> nat \<Rightarrow> 'w maybe_encoded list \<Rightarrow> ('w, 'e) channel_loop \<Rightarrow> bool" where
  "queue_is k bs cl \<longleftrightarrow>
     (\<exists>ch. cl_feeds cl k = Some ch \<and> ch_open ch \<and> map wu_body (ch_queue ch) = bs) \<and>
     (\<forall>senders. cl_senders cl = Some senders \<longrightarrow> k \<in> senders)"

lemma send_unit_queue:
  assumes "queue_is k bs cl" "cl_senders cl \<noteq> None"
  shows "queue_is k (bs @ map wu_body (filter (\<lambda>u. unit_key u = k) [wu])) (send_unit wu cl) \<and> cl_senders (send_unit wu cl) \<noteq> None"
  using assms by (auto simp: queue_is_def send_unit_def unit_key_def Let_def split: option.splits)

lemma send_units_queue:
  "queue_is k bs cl \<Longrightarrow> cl_senders cl \<noteq> None \<Longrightarrow>
   queue_is k (bs @ map wu_body (filter (\<lambda>u. unit_key u = k) wus)) (fold send_unit wus cl) \<and> cl_senders (fold send_unit wus cl) \<noteq> None"
proof (induction wus arbitrary: bs cl)
  case (Cons wu wus)
  note step = send_unit_queue [OF Cons.prems, of wu]
  show ?case
    using Cons.IH [OF conjunct1 [OF step] conjunct2 [OF step]] by (cases "unit_key wu = k") simp_all
qed simp

lemma handle_queue:
  assumes "queue_is k bs cl"
  shows "queue_is k (if cl_senders cl = None then bs else bs @ bodies_of k m) (handle_c2w_msg af m cl) \<and>
    (cl_senders (handle_c2w_msg af m cl) = None \<longleftrightarrow> cl_senders cl = None \<or> m = WorkUnitEos)"
proof (cases m)
  case (WorkUnitBatch us)
  then show ?thesis
    using assms send_units_queue [OF assms, of us] by auto
qed (use assms in \<open>auto simp: queue_is_def split: option.splits\<close>)

lemma channel_run_queue:
  assumes "queue_is k bs cl" "\<forall>fid part. (fid, part) = k \<longrightarrow> ReceiverDropped fid part \<notin> set evs"
  shows "queue_is k (if cl_senders cl = None then bs else bs @ units_for k (before_eos (received evs))) (channel_run af evs cl)"
  using assms
proof (induction evs arbitrary: bs cl)
  case (Cons ev evs)
  have kept: "\<forall>fid part. (fid, part) = k \<longrightarrow> ReceiverDropped fid part \<notin> set evs"
    using Cons.prems(2) by simp
  show ?case
  proof (cases ev)
    case (Received now m)
    let ?cl = "handle_c2w_msg af (set_work_unit_received_time now m) cl"
    have step: "queue_is k (if cl_senders cl = None then bs else bs @ bodies_of k m) ?cl \<and>
      (cl_senders ?cl = None \<longleftrightarrow> cl_senders cl = None \<or> m = WorkUnitEos)"
      using handle_queue [OF Cons.prems(1), of "set_work_unit_received_time now m" af]
      unfolding bodies_of_times received_time_eos .
    note run = Cons.IH [OF conjunct1 [OF step] kept, unfolded conjunct2 [OF step]]
    show ?thesis
    proof (cases "cl_senders cl = None")
      case True
      then show ?thesis
        using run Received by simp
    next
      case False
      then obtain senders where "cl_senders cl = Some senders"
        by auto
      then show ?thesis
        using run Received by (cases "m = WorkUnitEos") (simp_all add: units_for_def)
    qed
  next
    case (ReceiverDropped fid part)
    let ?cl = "cl\<lparr>cl_feeds := (cl_feeds cl)((fid, part) := map_option (ch_open_update (\<lambda>_. False)) (cl_feeds cl (fid, part)))\<rparr>"
    have "(fid, part) \<noteq> k"
      using Cons.prems(2) ReceiverDropped by auto
    then have "queue_is k bs ?cl"
      using Cons.prems(1) by (simp add: queue_is_def)
    then show ?thesis
      using Cons.IH [of bs ?cl] kept ReceiverDropped by (simp cong: if_cong)
  next
    case ErrorTaken
    have "queue_is k bs (cl\<lparr>cl_errors := []\<rparr>)"
      using Cons.prems(1) by (simp add: queue_is_def)
    then show ?thesis
      using Cons.IH [of bs "cl\<lparr>cl_errors := []\<rparr>"] kept ErrorTaken by (simp cong: if_cong)
  next
    case StreamFailed
    then show ?thesis
      using Cons.prems(1) by (simp add: units_for_def)
  qed
qed (simp add: units_for_def)

section \<open>The feeds of a stage\<close>

lemma registry_add_partition_dom: "dom (registry_add_partition fid n reg) = insert (fid, n) (dom reg)"
  by (auto simp: registry_add_partition_def)

lemma registry_add_dom: "dom (registry_add fid n reg) = dom reg \<union> {fid} \<times> {..<n}"
  by (induction n) (simp_all add: registry_add_def registry_add_partition_dom lessThan_Suc)

lemma registry_add_fresh:
  "reg k = Some ch \<longrightarrow> ch = \<lparr>ch_queue = [], ch_open = True\<rparr> \<Longrightarrow>
   registry_add fid n reg k = Some ch \<Longrightarrow> ch = \<lparr>ch_queue = [], ch_open = True\<rparr>"
proof (induction n arbitrary: ch)
  case (Suc n)
  then show ?case
    by (auto simp: registry_add_def registry_add_partition_def split: if_splits)
qed (simp add: registry_add_def)

lemma registry_of_declared:
  assumes "(fid, n) \<in> set decls" "part < n"
  shows "(registry_of decls :: 'b feed_registry) (fid, part) = Some \<lparr>ch_queue = [], ch_open = True\<rparr>"
proof -
  let ?add = "\<lambda>(fid, n). registry_add fid n"
  have "(\<forall>k ch. reg k = Some ch \<longrightarrow> ch = \<lparr>ch_queue = [], ch_open = True\<rparr>) \<Longrightarrow>
      (fid, part) \<in> dom reg \<or> (fid, n) \<in> set decls \<Longrightarrow>
      fold ?add decls reg (fid, part) = Some \<lparr>ch_queue = [], ch_open = True\<rparr>" for reg :: "'b feed_registry"
  proof (induction decls arbitrary: reg)
    case (Cons d decls)
    obtain fid' n' where [simp]: "d = (fid', n')"
      by (cases d)
    have "\<forall>k ch. registry_add fid' n' reg k = Some ch \<longrightarrow> ch = \<lparr>ch_queue = [], ch_open = True\<rparr>"
      using Cons.prems(1) registry_add_fresh by blast
    moreover have "(fid, part) \<in> dom (registry_add fid' n' reg) \<or> (fid, n) \<in> set decls"
      using Cons.prems(2) assms(2) by (auto simp: registry_add_dom)
    ultimately show ?case
      using Cons.IH by simp
  qed auto
  then show ?thesis
    using assms(1) by (simp add: registry_of_def)
qed

text \<open>The feeds that a task is given: of every feed the stream, its partition in the task, and the
  number of tasks among which the feed is split.\<close>

definition node_feeds ::
  "(('x, 'r, 'q, 'o) plan \<Rightarrow> ('e, 'w) work_unit_feed option) list \<Rightarrow> ('x, 'r, 'q, 'o) plan \<Rightarrow> task_ctx \<Rightarrow>
   (uuid \<times> nat \<times> nat \<times> nat) list" where
  "node_feeds getters q ctx =
     (case get_work_unit_feed getters q of
        None \<Rightarrow> []
      | Some wuf \<Rightarrow> map (\<lambda>(part, k). (feed_id wuf, part, k, task_count ctx)) (enumerate 0 (feed_indices wuf ctx)))"

definition task_feeds ::
  "(('x, 'r, 'q, 'o) plan \<Rightarrow> ('e, 'w) work_unit_feed option) list \<Rightarrow> ('x, 'r, 'q, 'o) plan \<Rightarrow> task_ctx \<Rightarrow>
   (uuid \<times> nat \<times> nat \<times> nat) list" where
  "task_feeds getters p ctx = concat (map (\<lambda>(q, c). node_feeds getters q c) (task_nodes p ctx))"

text \<open>All streams of the feeds of a stage.\<close>

definition stage_feeds ::
  "(('x, 'r, 'q, 'o) plan \<Rightarrow> ('e, 'w) work_unit_feed option) list \<Rightarrow> ('x, 'r, 'q, 'o) plan \<Rightarrow> nat \<Rightarrow> (uuid \<times> nat) list" where
  "stage_feeds getters p tc =
     concat (map (\<lambda>(q, n). case get_work_unit_feed getters q of
         None \<Rightarrow> []
       | Some wuf \<Rightarrow> map (\<lambda>k. (feed_id wuf, k)) [0..<feed_partitions wuf * n]) (stage_nodes p tc))"

text \<open>No stream fails.\<close>

definition feeds_ok ::
  "(('x, 'r, 'q, 'o) plan \<Rightarrow> ('e, 'w) work_unit_feed option) list \<Rightarrow> (uuid \<Rightarrow> nat \<Rightarrow> nat \<Rightarrow> 'w list) \<Rightarrow> bool" where
  "feeds_ok getters units \<longleftrightarrow>
     (\<forall>q wuf. get_work_unit_feed getters q = Some wuf \<longrightarrow>
        (\<forall>n k. feed_stream wuf n k = Inr (map Inr (units (feed_id wuf) n k))))"

definition node_jobs ::
  "(('x, 'r, 'q, 'o) plan \<Rightarrow> ('e, 'w) work_unit_feed option) list \<Rightarrow> (uuid \<Rightarrow> nat \<Rightarrow> nat \<Rightarrow> 'w list) \<Rightarrow>
   ('x, 'r, 'q, 'o) plan \<Rightarrow> task_ctx \<Rightarrow> ('e, 'w) feed_job list" where
  "node_jobs getters units q ctx =
     (case get_work_unit_feed getters q of
        None \<Rightarrow> []
      | Some wuf \<Rightarrow>
          [\<lparr>job_id = feed_id wuf,
            job_streams = map (\<lambda>k. map Inr (units (feed_id wuf) (task_count ctx) k)) (feed_indices wuf ctx)\<rparr>])"

lemma feed_visit_ok:
  assumes "feeds_ok getters units"
  shows "feed_visit getters = (\<lambda>q c jobs. Inr (Continue, jobs @ node_jobs getters units q c))"
proof (intro ext)
  fix q c jobs
  show "feed_visit getters q c jobs = Inr (Continue, jobs @ node_jobs getters units q c)"
  proof (cases "get_work_unit_feed getters q")
    case (Some wuf)
    then have "map_res (feed_stream wuf (task_count c)) (feed_indices wuf c) =
        Inr (map (\<lambda>k. map Inr (units (feed_id wuf) (task_count c) k)) (feed_indices wuf c))"
      using assms by (intro map_res_total) (simp add: feeds_ok_def)
    then show ?thesis
      using Some by (simp add: feed_visit_def node_jobs_def)
  qed (simp add: feed_visit_def node_jobs_def)
qed

lemma coordinator_feed_jobs_ok:
  assumes "visit_law L" "feeds_ok getters units" "stage_ok p (task_count ctx)" "task_index ctx < task_count ctx"
  shows "coordinator_feed_jobs L panic getters p ctx = Inr (concat (map (\<lambda>(q, c). node_jobs getters units q c) (task_nodes p ctx)))"
proof -
  have "fold (\<lambda>(q, c) jobs. jobs @ node_jobs getters units q c) ns js = js @ concat (map (\<lambda>(q, c). node_jobs getters units q c) ns)" for ns js
    by (induction ns arbitrary: js) auto
  then show ?thesis
    using apply_with_dt_ctx_task_nodes [OF assms(1,3,4)]
    by (simp add: coordinator_feed_jobs_def feed_visit_ok [OF assms(2)])
qed

lemma stream_indices: "concat (map (\<lambda>i. [P * i..<P * i + P]) [0..<n]) = [0..<P * n]"
proof (induction n)
  case (Suc n)
  then show ?case
    using upt_add_eq_append [of 0 "P * n" P] by (simp add: add.commute)
qed simp

lemma map_enumerate_snd: "map (\<lambda>x. f (snd x)) (enumerate i xs) = map f xs"
  using map_map [of f snd "enumerate i xs"] by (simp add: comp_def)

lemma task_feeds_cover:
  assumes "stage_ok p tc"
  shows "mset (concat (map (\<lambda>i. map (\<lambda>(fid, _, k, _). (fid, k)) (task_feeds getters p \<lparr>task_index = i, task_count = tc\<rparr>)) [0..<tc])) =
    mset (stage_feeds getters p tc)"
proof -
  define K where "K = (\<lambda>(q, c). map (\<lambda>(fid, _, k, _). (fid, k)) (node_feeds getters q c))"
  have feeds: "map (\<lambda>(fid, _, k, _). (fid, k)) (task_feeds getters p c) = concat (map K (task_nodes p c))" for c
    by (simp add: task_feeds_def K_def map_concat comp_def case_prod_unfold)
  have "concat (map (\<lambda>i. concat (map K (f i))) is) = concat (map K (concat (map f is)))" for f and "is" :: "nat list"
    by (induction "is") simp_all
  then have "mset (concat (map (\<lambda>i. concat (map K (task_nodes p \<lparr>task_index = i, task_count = tc\<rparr>))) [0..<tc])) =
      mset (concat (map K (all_tasks (stage_nodes p tc))))"
    using mset_concat_map_cong [OF stage_tasks [OF assms]] by simp
  moreover have "concat (map (\<lambda>i. K (q, \<lparr>task_index = i, task_count = n\<rparr>)) [0..<n]) =
      (case get_work_unit_feed getters q of None \<Rightarrow> [] | Some wuf \<Rightarrow> map (\<lambda>k. (feed_id wuf, k)) [0..<feed_partitions wuf * n])" for q n
  proof (cases "get_work_unit_feed getters q")
    case (Some wuf)
    then have "K (q, \<lparr>task_index = i, task_count = n\<rparr>) = map (\<lambda>k. (feed_id wuf, k)) [feed_partitions wuf * i..<feed_partitions wuf * i + feed_partitions wuf]" for i
      by (simp add: K_def node_feeds_def comp_def case_prod_unfold feed_indices_def Let_def map_enumerate_snd)
    then show ?thesis
      using Some by (simp add: stream_indices [of "feed_partitions wuf" n, symmetric] map_concat comp_def)
  qed (simp add: K_def node_feeds_def)
  then have "concat (map K (all_tasks ns)) = concat (map (\<lambda>(q, n). case get_work_unit_feed getters q of
      None \<Rightarrow> [] | Some wuf \<Rightarrow> map (\<lambda>k. (feed_id wuf, k)) [0..<feed_partitions wuf * n]) ns)" for ns
    by (induction ns) (auto simp: all_tasks_def comp_def)
  ultimately show ?thesis
    by (simp add: feeds stage_feeds_def)
qed

lemma task_feed_job:
  assumes "(fid, part, k, n) \<in> set (task_feeds getters p ctx)"
  obtains job where "job \<in> set (concat (map (\<lambda>(q, c). node_jobs getters units q c) (task_nodes p ctx)))"
    "job_id job = fid" "part < length (job_streams job)" "job_streams job ! part = map Inr (units fid n k)"
proof -
  obtain q c wuf where q: "(q, c) \<in> set (task_nodes p ctx)" "get_work_unit_feed getters q = Some wuf"
    and k: "(part, k) \<in> set (enumerate 0 (feed_indices wuf c))" "fid = feed_id wuf" "n = task_count c"
    using assms by (auto simp: task_feeds_def node_feeds_def split: option.splits dest!: sym [of "Some _"])
  then have "part < length (feed_indices wuf c)" "feed_indices wuf c ! part = k"
    by (auto simp: in_set_enumerate_eq)
  then show thesis
    using q k by (intro that [of "\<lparr>job_id = feed_id wuf, job_streams = map (\<lambda>k. map Inr (units (feed_id wuf) (task_count c) k)) (feed_indices wuf c)\<rparr>"])
      (force simp: node_jobs_def)+
qed

section \<open>Properties\<close>


text \<open>A feed with two units at the second leaf of the example plan.\<close>

definition example_feed :: "(unit, nat) work_unit_feed" where
  "example_feed = \<lparr>feed_id = 9, feed_partitions = 1, feed_stream = \<lambda>n k. Inr [Inr (10 * k + 5), Inr (10 * k + 6)]\<rparr>"

definition example_getter :: "(unit, unit, unit, nat) plan \<Rightarrow> (unit, nat) work_unit_feed option" where
  "example_getter p = (case p of Plan (OtherNode x) _ \<Rightarrow> if x = 2 then Some example_feed else None | _ \<Rightarrow> None)"

definition example_unit :: "nat \<Rightarrow> nat work_unit_msg" where
  "example_unit w = \<lparr>wu_id = 9, wu_partition = 0, wu_body = Decoded w, wu_created = 3, wu_sent = 4, wu_received = 0, wu_processed = 0\<rparr>"

definition example_events :: "(nat, unit) channel_event list" where
  "example_events = [Received 7 KickOffSampling, Received 8 (WorkUnitBatch [example_unit 5, example_unit 6]), Received 9 WorkUnitEos]"

definition example_jobs :: "(unit, nat) feed_job list" where
  "example_jobs = [\<lparr>job_id = 9, job_streams = [[Inr 5, Inr 6]]\<rparr>]"

lemma select_all_one: "select_all [xs] xs"
  by (induction xs) (auto intro: select_all.intros select_all.item [where i = 0])

lemma example_sends: "coordinator_sends example_jobs (received example_events)"
proof -
  let ?raw = "\<lambda>w. (example_unit w)\<lparr>wu_sent := 0\<rparr>"
  have "job_sends \<lparr>job_id = 9, job_streams = [[Inr 5, Inr 6 :: (unit, nat) res]]\<rparr> [WorkUnitBatch [?raw 5, ?raw 6] :: (nat, unit) c2w_msg]"
    using select_all_one [of "[(0, Inr 5), (0, Inr 6)] :: (nat \<times> (unit, nat) res) list"] unfolding job_sends_def
    by (intro exI [of _ "[(0, Inr 5), (0, Inr 6)]"] exI [of _ "[[(0, Inr 5), (0, Inr 6)]]"] exI [of _ "[3]"])
      (simp add: tag_partitions_def ready_chunks_def work_unit_feed_chunk_size_def build_work_unit_batch_msg_def example_unit_def)
  moreover have "select_all [[b, WorkUnitEos], [KickOffSampling]] [KickOffSampling, b, WorkUnitEos]" for b :: "(nat, unit) c2w_msg"
    by (rule select_all.item [where i = 1], simp, simp, rule select_all.item [where i = 0], simp, simp,
        rule select_all.item [where i = 0], simp, simp, rule select_all.ended, simp)
  ultimately show ?thesis
    unfolding coordinator_sends_def example_jobs_def
    by (intro exI [of _ "[[WorkUnitBatch [?raw 5, ?raw 6]]]"] exI [of _ "[WorkUnitBatch [?raw 5, ?raw 6]]"] exI [of _ "[KickOffSampling]"]
        exI [of _ "[KickOffSampling, WorkUnitBatch [?raw 5, ?raw 6], WorkUnitEos]"] exI [of _ "[4, 4, 4]"])
      (simp add: select_all_one example_events_def example_unit_def)
qed


text \<open>C40. The latencies of work units assume that the worker's clock is not behind the
  coordinator's: an arrived unit can be read without an arithmetic overflow exactly if its times
  of sending, arrival and processing are not before its creation, whatever its content.\<close>

theorem work_unit_clock_skew:
  assumes "decode bytes = Inr w" "wu_body u = Encoded bytes"
  shows "fst (remote_feed_item SK decode downcast now u fm) =
    (if wu_created u \<le> wu_sent u \<and> wu_created u \<le> wu_received u \<and> wu_created u \<le> now
     then Inr w else Inl Overflow)"
  using assms by (simp add: remote_feed_item_def feed_latencies_def usize_sub_def Let_def)

theorem work_unit_clock_skew_witness:
  "fst (remote_feed_item null_sketch (\<lambda>_. Inr ()) (\<lambda>_. None) 120
     \<lparr>wu_id = 9, wu_partition = 0, wu_body = Encoded [1], wu_created = 100, wu_sent = 101, wu_received = 90, wu_processed = 0\<rparr>
     (feed_metrics_new null_sketch)) = Inl Overflow"
  using work_unit_clock_skew [of "\<lambda>_. Inr ()" "[1]" "()"
      "\<lparr>wu_id = 9, wu_partition = 0, wu_body = Encoded [1], wu_created = 100, wu_sent = 101, wu_received = 90, wu_processed = 0\<rparr>"]
  by simp

end
