(* ===== verification/WorkerTasks.thy ===== *)
theory WorkerTasks
  imports SingleWriteMultiRead CustomMetrics
begin

text \<open>
  The tasks of a worker (\<open>src/src/worker/impl_coordinator_channel.rs\<close>,
  \<open>src/src/worker/impl_execute_task.rs\<close>, \<open>src/src/worker/task_data.rs\<close>,
  \<open>src/src/worker/worker_service.rs\<close>).

  A coordinator opens a channel for a task; the worker sets the task up in the background and
  publishes it in the slot of the task's key. Requests to execute the task may come first and wait.
  When the channel ends, the slot is sealed with an error, which releases the task. Several
  channels for one key occur when the coordinator retries.

  Slots are allocated objects that the cache maps keys to; the cache may forget a key at any time.
  The value of a slot names the setup that made it: two results of setups are the same object iff
  they come from the same setup. The key of a task is a type parameter.
\<close>

section \<open>Worker\<close>

datatype task_result = TaskReady nat | SetupFailed nat | ChannelClosed

datatype 'k channel_phase =
    NotOpened
  | Preparing 'k nat nat
  | Serving 'k nat
  | Failing 'k nat
  | Invalidating 'k
  | Ended

datatype request =
    NotSent
  | AwaitingSetup nat
  | AwaitingResult nat
  | Answered nat "(swmr_error, task_result) res"

record 'k worker =
  w_slots :: "nat \<Rightarrow> task_result swmr"
  w_next :: nat
  w_entries :: "'k \<rightharpoonup> nat"
  w_setups :: "nat \<Rightarrow> 'k channel_phase"
  w_requests :: "nat \<Rightarrow> request"

definition worker_new :: "'k worker" where
  "worker_new =
     \<lparr>w_slots = \<lambda>_. swmr_new, w_next = 0, w_entries = Map.empty, w_setups = \<lambda>_. NotOpened, w_requests = \<lambda>_. NotSent\<rparr>"

text \<open>\<open>task_data_entries.get_with(key, Default::default())\<close>.\<close>

definition get_entry :: "'k \<Rightarrow> 'k worker \<Rightarrow> nat \<times> 'k worker" where
  "get_entry key w =
     (case w_entries w key of
        Some sl \<Rightarrow> (sl, w)
      | None \<Rightarrow> (w_next w, w\<lparr>w_next := Suc (w_next w), w_entries := (w_entries w)(key \<mapsto> w_next w)\<rparr>))"

definition set_slot :: "nat \<Rightarrow> task_result swmr \<Rightarrow> 'k worker \<Rightarrow> 'k worker" where
  "set_slot sl c w = w\<lparr>w_slots := (w_slots w)(sl := c)\<rparr>"

definition set_setup :: "nat \<Rightarrow> 'k channel_phase \<Rightarrow> 'k worker \<Rightarrow> 'k worker" where
  "set_setup i p w = w\<lparr>w_setups := (w_setups w)(i := p)\<rparr>"

definition set_request :: "nat \<Rightarrow> request \<Rightarrow> 'k worker \<Rightarrow> 'k worker" where
  "set_request j r w = w\<lparr>w_requests := (w_requests w)(j := r)\<rparr>"

text \<open>Opening a channel reserves the slot; the guard of the reservation is the state \<open>Preparing\<close>.\<close>

definition open_channel :: "nat \<Rightarrow> 'k \<Rightarrow> 'k worker \<Rightarrow> 'k worker" where
  "open_channel i key w =
     (let (sl, w) = get_entry key w;
          (generation, c) = reserve_write (w_slots w sl)
      in set_setup i (Preparing key sl generation) (set_slot sl c w))"

text \<open>The session could not be built: the error is published and the channel is refused.\<close>

definition refuse_channel :: "nat \<Rightarrow> nat \<Rightarrow> nat \<Rightarrow> 'k worker \<Rightarrow> 'k worker" where
  "refuse_channel i sl generation w =
     set_setup i Ended (set_slot sl (snd (write_generation generation (SetupFailed i) (w_slots w sl))) w)"

text \<open>
  The background task publishes the result of the setup: the task, or the error that its plan could
  not be decoded or rewritten. A superseded setup ends, and so does one that is refused because the
  slot is in use.
\<close>

definition publish_setup :: "nat \<Rightarrow> 'k \<Rightarrow> nat \<Rightarrow> nat \<Rightarrow> bool \<Rightarrow> 'k worker \<Rightarrow> 'k worker" where
  "publish_setup i key sl generation ready w =
     (let (r, c) = write_generation generation (if ready then TaskReady i else SetupFailed i) (w_slots w sl);
          w = set_slot sl c w
      in case r of
           Inr True \<Rightarrow> set_setup i (if ready then Serving key sl else Failing key sl) w
         | Inr False \<Rightarrow> set_setup i Ended w
         | Inl _ \<Rightarrow> set_setup i Ended w)"

text \<open>The guard is dropped before the setup was published.\<close>

definition drop_setup :: "nat \<Rightarrow> nat \<Rightarrow> nat \<Rightarrow> 'k worker \<Rightarrow> 'k worker" where
  "drop_setup i sl generation w =
     set_setup i Ended (set_slot sl (abandon_generation generation (w_slots w sl)) w)"

text \<open>
  The channel has ended, or the work after the setup failed: the slot is sealed if it still has the
  result of this setup, and then its key is forgotten, in a later step.
\<close>

definition close_channel :: "nat \<Rightarrow> 'k \<Rightarrow> nat \<Rightarrow> task_result \<Rightarrow> 'k worker \<Rightarrow> 'k worker" where
  "close_channel i key sl own w =
     (let (sealed, c) = seal_with_value_if (\<lambda>current. current = own) ChannelClosed (w_slots w sl)
      in set_setup i (if sealed then Invalidating key else Ended) (set_slot sl c w))"

definition invalidate_entry :: "nat \<Rightarrow> 'k \<Rightarrow> 'k worker \<Rightarrow> 'k worker" where
  "invalidate_entry i key w = set_setup i Ended (w\<lparr>w_entries := (w_entries w)(key := None)\<rparr>)"

text \<open>A request to execute: it reads the slot of its key.\<close>

definition send_request :: "nat \<Rightarrow> 'k \<Rightarrow> 'k worker \<Rightarrow> 'k worker" where
  "send_request j key w =
     (let (sl, w) = get_entry key w
      in set_request j (AwaitingSetup sl) (set_slot sl (start_reading (w_slots w sl)) w))"

inductive worker_step :: "'k worker \<Rightarrow> 'k worker \<Rightarrow> bool" where
  opened: "w_setups w i = NotOpened \<Longrightarrow> worker_step w (open_channel i key w)"
| refused: "w_setups w i = Preparing key sl g \<Longrightarrow> worker_step w (refuse_channel i sl g w)"
| published: "w_setups w i = Preparing key sl g \<Longrightarrow> worker_step w (publish_setup i key sl g ready w)"
| dropped: "w_setups w i = Preparing key sl g \<Longrightarrow> worker_step w (drop_setup i sl g w)"
| closed: "w_setups w i = Serving key sl \<Longrightarrow> worker_step w (close_channel i key sl (TaskReady i) w)"
| drained: "w_setups w i = Failing key sl \<Longrightarrow> worker_step w (close_channel i key sl (SetupFailed i) w)"
| invalidated: "w_setups w i = Invalidating key \<Longrightarrow> worker_step w (invalidate_entry i key w)"
| evicted: "worker_step w (w\<lparr>w_entries := (w_entries w)(key := None)\<rparr>)"
| sent: "w_requests w j = NotSent \<Longrightarrow> worker_step w (send_request j key w)"
| arrived: "\<lbrakk>w_requests w j = AwaitingSetup sl; read_arrival elapsed (w_slots w sl) = Some (Inr ())\<rbrakk> \<Longrightarrow>
    worker_step w (set_request j (AwaitingResult sl) w)"
| timed_out: "\<lbrakk>w_requests w j = AwaitingSetup sl; read_arrival elapsed (w_slots w sl) = Some (Inl e)\<rbrakk> \<Longrightarrow>
    worker_step w (set_request j (Answered sl (Inl e)) w)"
| answered: "\<lbrakk>w_requests w j = AwaitingResult sl; read_value (w_slots w sl) = Some r\<rbrakk> \<Longrightarrow>
    worker_step w (set_request j (Answered sl r) w)"

inductive worker_reach :: "'k worker \<Rightarrow> bool" where
  init: "worker_reach worker_new"
| step: "worker_reach w \<Longrightarrow> worker_step w w' \<Longrightarrow> worker_reach w'"

section \<open>Task data\<close>

text \<open>\<open>OnceLock::get_or_init\<close>: the first request decides which head the task's plan gets.\<close>

definition task_plan :: "('h \<Rightarrow> ('e, 'p) res) \<Rightarrow> 'h \<Rightarrow> ('e, 'p) res option \<Rightarrow> ('e, 'p) res \<times> ('e, 'p) res option" where
  "task_plan insert_head head final_plan =
     (case final_plan of
        Some r \<Rightarrow> (r, final_plan)
      | None \<Rightarrow> (insert_head head, Some (insert_head head)))"

datatype 'e execute_error = PlanError 'e | NoSuchPartition nat nat | ExecuteError 'e | UsizeOverflow

record 'h execute_request =
  target_partition_start :: nat
  target_partition_end :: nat
  producer_head_of :: 'h

definition execute_partitions ::
  "('p \<Rightarrow> nat) \<Rightarrow> ('p \<Rightarrow> nat \<Rightarrow> ('e, 's) res) \<Rightarrow> 'p \<Rightarrow> nat \<Rightarrow> nat \<Rightarrow> ('e execute_error, 's list) res" where
  "execute_partitions partition_count execute plan first stop =
     (if stop < first then Inl UsizeOverflow
      else map_res (\<lambda>partition.
             if partition_count plan \<le> partition then Inl (NoSuchPartition partition (partition_count plan))
             else case execute plan partition of Inr s \<Rightarrow> Inr s | Inl e \<Rightarrow> Inl (ExecuteError e)) [first..<stop])"

definition execute_task_data ::
  "('h \<Rightarrow> ('e, 'p) res) \<Rightarrow> ('p \<Rightarrow> nat) \<Rightarrow> ('p \<Rightarrow> nat \<Rightarrow> ('e, 's) res) \<Rightarrow> 'h execute_request \<Rightarrow> ('e, 'p) res option \<Rightarrow>
   ('e execute_error, 's list) res \<times> ('e, 'p) res option" where
  "execute_task_data insert_head partition_count execute req final_plan =
     (case task_plan insert_head (producer_head_of req) final_plan of
        (Inl e, final_plan) \<Rightarrow> (Inl (PlanError e), final_plan)
      | (Inr plan, final_plan) \<Rightarrow>
          (execute_partitions partition_count execute plan (target_partition_start req) (target_partition_end req), final_plan))"

section \<open>Task metrics\<close>

record task_data_metrics =
  query_start_time_ns :: nat
  plan_added_at :: nat
  plan_executed_at :: nat
  plan_finished_at :: nat

text \<open>The maximum latency metric, given the current time; differences of times saturate at zero.\<close>

definition latency_since :: "nat \<Rightarrow> nat \<Rightarrow> nat \<Rightarrow> nat" where
  "latency_since start now v = max v (max ((now - start) mod 2 ^ 64) 1)"

definition task_data_metrics_new :: "nat \<Rightarrow> nat \<Rightarrow> task_data_metrics" where
  "task_data_metrics_new start now =
     \<lparr>query_start_time_ns = start, plan_added_at = latency_since start now 0, plan_executed_at = 0, plan_finished_at = 0\<rparr>"

definition mark_execution_started_once :: "nat \<Rightarrow> task_data_metrics \<Rightarrow> task_data_metrics" where
  "mark_execution_started_once now m =
     (if plan_executed_at m = 0
      then m\<lparr>plan_executed_at := latency_since (query_start_time_ns m) now (plan_executed_at m)\<rparr> else m)"

definition mark_execution_finished :: "nat \<Rightarrow> task_data_metrics \<Rightarrow> task_data_metrics" where
  "mark_execution_finished now m = m\<lparr>plan_finished_at := latency_since (query_start_time_ns m) now (plan_finished_at m)\<rparr>"

definition task_metrics_set :: "task_data_metrics \<Rightarrow> (string \<times> 'sk custom_metric) list" where
  "task_metrics_set m =
     [(''plan_added_at'', MaxLatency (plan_added_at m)),
      (''plan_executed_at'', MaxLatency (plan_executed_at m)),
      (''plan_finished_at'', MaxLatency (plan_finished_at m))]"

section \<open>Invariants\<close>

text \<open>
  What holds of every slot: a reservation in it is the latest one and belongs to a setup that is
  still being prepared; a task in it is being served; what was read from it is still there, or it
  was sealed.
\<close>

definition slot_ok :: "(nat \<Rightarrow> 'k channel_phase) \<Rightarrow> (nat \<Rightarrow> request) \<Rightarrow> nat \<Rightarrow> task_result swmr \<Rightarrow> bool" where
  "slot_ok phase req sl c \<longleftrightarrow>
     (\<forall>g. slot c = Reserved g \<longrightarrow> g = latest_reserved_generation c \<and> (\<exists>i key. phase i = Preparing key sl g)) \<and>
     (\<forall>i key g. phase i = Preparing key sl g \<longrightarrow> 0 < g \<and> g \<le> latest_reserved_generation c \<and> slot c \<noteq> Empty) \<and>
     (\<forall>i. slot c = Written (TaskReady i) \<longrightarrow> (\<exists>key. phase i = Serving key sl)) \<and>
     (\<forall>j. req j = AwaitingSetup sl \<longrightarrow> read_started c) \<and>
     (\<forall>j. req j = AwaitingResult sl \<longrightarrow> read_started c \<and> slot c \<noteq> Empty) \<and>
     (\<forall>j v. req j = Answered sl (Inr v) \<longrightarrow> read_started c \<and> slot c \<in> {Written v, Written ChannelClosed})"

definition generations_unique :: "(nat \<Rightarrow> 'k channel_phase) \<Rightarrow> bool" where
  "generations_unique phase \<longleftrightarrow>
     (\<forall>i j key key' sl g. phase i = Preparing key sl g \<longrightarrow> phase j = Preparing key' sl g \<longrightarrow> i = j)"

definition worker_inv :: "'k worker \<Rightarrow> bool" where
  "worker_inv w \<longleftrightarrow>
     (\<forall>sl. slot_ok (w_setups w) (w_requests w) sl (w_slots w sl)) \<and> generations_unique (w_setups w)"

lemma get_entry_same [simp]:
  "w_slots (snd (get_entry key w)) = w_slots w" "w_setups (snd (get_entry key w)) = w_setups w"
  "w_requests (snd (get_entry key w)) = w_requests w"
  by (simp_all add: get_entry_def split: option.split)

lemma worker_inv_init: "worker_inv worker_new"
  by (simp add: worker_inv_def slot_ok_def generations_unique_def worker_new_def swmr_new_def)

lemma slot_okI:
  assumes "\<And>g. slot c = Reserved g \<Longrightarrow> g = latest_reserved_generation c \<and> (\<exists>i key. phase i = Preparing key sl g)"
    and "\<And>i key g. phase i = Preparing key sl g \<Longrightarrow> 0 < g \<and> g \<le> latest_reserved_generation c \<and> slot c \<noteq> Empty"
    and "\<And>i. slot c = Written (TaskReady i) \<Longrightarrow> \<exists>key. phase i = Serving key sl"
    and "\<And>j. req j = AwaitingSetup sl \<Longrightarrow> read_started c"
    and "\<And>j. req j = AwaitingResult sl \<Longrightarrow> read_started c \<and> slot c \<noteq> Empty"
    and "\<And>j v. req j = Answered sl (Inr v) \<Longrightarrow> read_started c \<and> slot c \<in> {Written v, Written ChannelClosed}"
  shows "slot_ok phase req sl c"
  using assms by (simp add: slot_ok_def)

lemma slot_okD:
  assumes "slot_ok phase req sl c"
  shows "slot c = Reserved g \<Longrightarrow> g = latest_reserved_generation c \<and> (\<exists>i key. phase i = Preparing key sl g)"
    and "phase i = Preparing key sl g \<Longrightarrow> 0 < g \<and> g \<le> latest_reserved_generation c \<and> slot c \<noteq> Empty"
    and "slot c = Written (TaskReady i) \<Longrightarrow> \<exists>key. phase i = Serving key sl"
    and "req j = AwaitingSetup sl \<Longrightarrow> read_started c"
    and "req j = AwaitingResult sl \<Longrightarrow> read_started c \<and> slot c \<noteq> Empty"
    and "req j = Answered sl (Inr v) \<Longrightarrow> read_started c \<and> slot c \<in> {Written v, Written ChannelClosed}"
  using assms unfolding slot_ok_def by blast+

text \<open>A step that leaves a slot alone and changes the phase of a setup that the slot does not depend on.\<close>

lemma slot_ok_other:
  assumes ok: "slot_ok phase req sl c"
    and "\<And>key g. phase i = Preparing key sl g \<Longrightarrow> slot c \<noteq> Reserved g \<or> (\<exists>k. p = Preparing k sl g)"
    and "\<And>key g. p = Preparing key sl g \<Longrightarrow> \<exists>k. phase i = Preparing k sl g"
    and "slot c \<noteq> Written (TaskReady i) \<or> (\<exists>key. p = Serving key sl)"
  shows "slot_ok (phase(i := p)) req sl c"
proof (rule slot_okI)
  fix g
  assume g: "slot c = Reserved g"
  then obtain k key where k: "phase k = Preparing key sl g" "g = latest_reserved_generation c"
    using slot_okD(1) [OF ok] by blast
  then show "g = latest_reserved_generation c \<and> (\<exists>i' key. (phase(i := p)) i' = Preparing key sl g)"
    using assms(2) g by (cases "k = i") (auto intro: exI [of _ k])
next
  fix j key g
  assume "(phase(i := p)) j = Preparing key sl g"
  then have "\<exists>j key. phase j = Preparing key sl g"
    using assms(3) by (cases "j = i") auto
  then show "0 < g \<and> g \<le> latest_reserved_generation c \<and> slot c \<noteq> Empty"
    using slot_okD(2) [OF ok] by blast
next
  fix j
  assume "slot c = Written (TaskReady j)"
  then show "\<exists>key. (phase(i := p)) j = Serving key sl"
    using slot_okD(3) [OF ok, of j] assms(4) by auto
qed (use slot_okD(4-6) [OF ok] in blast)+

text \<open>Opening a channel.\<close>

lemma slot_ok_reserve:
  assumes ok: "slot_ok phase req sl c" and "phase i = NotOpened" "reserve_write c = (g, c')"
  shows "slot_ok (phase(i := Preparing key sl g)) req sl c'"
proof -
  have c': "latest_reserved_generation c' = Suc (latest_reserved_generation c)" "g = Suc (latest_reserved_generation c)"
    "read_started c' = read_started c" "slot c' = (if is_written (slot c) then slot c else Reserved g)"
    using assms(3) by (auto simp: reserve_write_def Let_def is_written_def split: slot_state.splits)
  show ?thesis
  proof (rule slot_okI)
    fix h
    assume "slot c' = Reserved h"
    then show "h = latest_reserved_generation c' \<and> (\<exists>i' key'. (phase(i := Preparing key sl g)) i' = Preparing key' sl h)"
      using c' by (auto simp: is_written_def split: if_splits)
  next
    fix j k h
    assume "(phase(i := Preparing key sl g)) j = Preparing k sl h"
    then show "0 < h \<and> h \<le> latest_reserved_generation c' \<and> slot c' \<noteq> Empty"
      using c' slot_okD(2) [OF ok, of j k h] by (cases "j = i") (auto simp: is_written_def)
  next
    fix j
    assume "slot c' = Written (TaskReady j)"
    then show "\<exists>k. (phase(i := Preparing key sl g)) j = Serving k sl"
      using c' slot_okD(3) [OF ok, of j] assms(2) by (auto split: if_splits)
  next
    fix j v
    assume "req j = Answered sl (Inr v)"
    then show "read_started c' \<and> slot c' \<in> {Written v, Written ChannelClosed}"
      using c' slot_okD(6) [OF ok, of j v] by (auto simp: is_written_def)
  qed (use c' slot_okD(4,5) [OF ok] in \<open>auto simp: is_written_def\<close>)
qed

text \<open>Publishing the result of a setup.\<close>

lemma slot_ok_write:
  assumes ok: "slot_ok phase req sl c" and unique: "generations_unique phase" and i: "phase i = Preparing key sl g"
    and wr: "write_generation g v c = (r, c')"
    and v: "v = TaskReady i \<and> p = (if r = Inr True then Serving key sl else Ended) \<or> v = SetupFailed i \<and> (\<forall>key g. p \<noteq> Preparing key sl g)"
  shows "slot_ok (phase(i := p)) req sl c'"
proof (cases "r = Inr True")
  case True
  then have c': "slot c' = Written v" "read_started c' = read_started c" "latest_reserved_generation c' = latest_reserved_generation c"
    "is_written (slot c) \<longrightarrow> \<not> read_started c"
    using wr by (auto simp: write_generation_def split: if_splits)
  have not_prep: "p \<noteq> Preparing key' sl h" for key' h
    using v True by auto
  show ?thesis
  proof (rule slot_okI)
    fix j key' h
    assume "(phase(i := p)) j = Preparing key' sl h"
    then show "0 < h \<and> h \<le> latest_reserved_generation c' \<and> slot c' \<noteq> Empty"
      using not_prep c' slot_okD(2) [OF ok, of j key' h] by (cases "j = i") auto
  next
    fix j w
    assume "req j = Answered sl (Inr w)"
    then show "read_started c' \<and> slot c' \<in> {Written w, Written ChannelClosed}"
      using c' slot_okD(6) [OF ok, of j w] by (auto simp: is_written_def)
  next
    fix j
    assume "slot c' = Written (TaskReady j)"
    then show "\<exists>key. (phase(i := p)) j = Serving key sl"
      using c' v True by auto
  qed (use c' slot_okD(4,5) [OF ok] in auto)
next
  case False
  then have c': "c' = c" "is_written (slot c) \<or> g < latest_reserved_generation c"
    using wr by (auto simp: write_generation_def split: if_splits)
  show ?thesis
    unfolding c'(1)
  proof (rule slot_ok_other [OF ok])
    fix key' h
    assume "phase i = Preparing key' sl h"
    then show "slot c \<noteq> Reserved h \<or> (\<exists>k. p = Preparing k sl h)"
      using i c'(2) slot_okD(1) [OF ok, of h] by (auto simp: is_written_def)
  next
    show "slot c \<noteq> Written (TaskReady i) \<or> (\<exists>key. p = Serving key sl)"
      using slot_okD(3) [OF ok, of i] i by auto
  qed (use v False in auto)
qed

text \<open>Dropping a setup.\<close>

lemma slot_ok_abandon:
  assumes ok: "slot_ok phase req sl c" and i: "phase i = Preparing key sl g"
  shows "slot_ok (phase(i := Ended)) req sl (abandon_generation g c)"
proof (cases "slot c = Reserved g \<and> g = latest_reserved_generation c")
  case True
  then have c': "abandon_generation g c = c\<lparr>slot := Abandoned\<rparr>"
    by (simp add: abandon_generation_def)
  show ?thesis
    unfolding c'
  proof (rule slot_okI)
    fix j key' h
    assume "(phase(i := Ended)) j = Preparing key' sl h"
    then show "0 < h \<and> h \<le> latest_reserved_generation (c\<lparr>slot := Abandoned\<rparr>) \<and> slot (c\<lparr>slot := Abandoned\<rparr>) \<noteq> Empty"
      using slot_okD(2) [OF ok, of j key' h] by (cases "j = i") auto
  qed (use slot_okD(4-6) [OF ok] True in auto)
next
  case False
  then have c': "abandon_generation g c = c"
    using slot_okD(1) [OF ok] by (auto simp: abandon_generation_def split: slot_state.split)
  show ?thesis
    unfolding c' using False i slot_okD(1,3) [OF ok] by (intro slot_ok_other [OF ok]) auto
qed

text \<open>Sealing a slot.\<close>

lemma slot_ok_seal:
  assumes ok: "slot_ok phase req sl c"
    and own: "phase i = Serving key sl \<and> own = TaskReady i \<or> phase i = Failing key sl \<and> own = SetupFailed i"
    and seal: "seal_with_value_if (\<lambda>v. v = own) ChannelClosed c = (b, c')" and p: "p = Ended \<or> p = Invalidating key"
  shows "slot_ok (phase(i := p)) req sl c'"
proof (cases "slot c = Written own")
  case True
  then have c': "c' = c\<lparr>read_started := True, slot := Written ChannelClosed\<rparr>"
    using seal by (simp add: seal_with_value_if_def)
  show ?thesis
    unfolding c'
  proof (rule slot_okI)
    fix j key' h
    assume "(phase(i := p)) j = Preparing key' sl h"
    then show "0 < h \<and> h \<le> latest_reserved_generation (c\<lparr>read_started := True, slot := Written ChannelClosed\<rparr>) \<and>
        slot (c\<lparr>read_started := True, slot := Written ChannelClosed\<rparr>) \<noteq> Empty"
      using p slot_okD(2) [OF ok, of j key' h] by (cases "j = i") auto
  qed auto
next
  case False
  then have c': "c' = c"
    using seal by (auto simp: seal_with_value_if_def split: slot_state.splits if_splits)
  show ?thesis
    unfolding c' using own p False slot_okD(3) [OF ok, of i] by (intro slot_ok_other [OF ok]) auto
qed

text \<open>The whole worker: a step concerns one slot.\<close>

definition concerns :: "'k channel_phase \<Rightarrow> nat \<Rightarrow> bool" where
  "concerns p sl \<longleftrightarrow>
     (case p of Preparing _ s _ \<Rightarrow> s = sl | Serving _ s \<Rightarrow> s = sl | Failing _ s \<Rightarrow> s = sl | _ \<Rightarrow> True)"

lemma worker_invD:
  "worker_inv w \<Longrightarrow> slot_ok (w_setups w) (w_requests w) sl (w_slots w sl)"
  "worker_inv w \<Longrightarrow> generations_unique (w_setups w)"
  by (simp_all add: worker_inv_def)

lemma worker_inv_update:
  assumes inv: "worker_inv w" and "concerns (w_setups w i) sl" "concerns p sl"
    and "slot_ok ((w_setups w)(i := p)) (w_requests w) sl c" "generations_unique ((w_setups w)(i := p))"
  shows "worker_inv (set_setup i p (set_slot sl c w))"
proof -
  have "slot_ok ((w_setups w)(i := p)) (w_requests w) sl' (w_slots w sl')" if "sl' \<noteq> sl" for sl'
  proof (rule slot_ok_other [OF worker_invD(1) [OF inv]])
    show "slot (w_slots w sl') \<noteq> Written (TaskReady i) \<or> (\<exists>key. p = Serving key sl')"
      using slot_okD(3) [OF worker_invD(1) [OF inv], of sl' i] assms(2) that by (auto simp: concerns_def)
  qed (use assms(2,3) that in \<open>auto simp: concerns_def\<close>)
  then show ?thesis
    using assms(4,5) by (simp add: worker_inv_def set_setup_def set_slot_def)
qed

lemma generations_unique_other:
  "generations_unique phase \<Longrightarrow> (\<forall>key sl g. p \<noteq> Preparing key sl g) \<Longrightarrow> generations_unique (phase(i := p))"
  by (auto simp: generations_unique_def)

lemma worker_inv_cong:
  "w_slots w' = w_slots w \<Longrightarrow> w_setups w' = w_setups w \<Longrightarrow> w_requests w' = w_requests w \<Longrightarrow> worker_inv w \<Longrightarrow> worker_inv w'"
  by (simp add: worker_inv_def)

lemma open_channel_inv:
  assumes "worker_inv w" "w_setups w i = NotOpened"
  shows "worker_inv (open_channel i key w)"
proof -
  obtain sl w' where w': "get_entry key w = (sl, w')"
    by (cases "get_entry key w")
  then have same: "w_slots w' = w_slots w" "w_setups w' = w_setups w" "w_requests w' = w_requests w"
    using get_entry_same [of key w] by simp_all
  then have inv: "worker_inv w'"
    using assms(1) by (rule worker_inv_cong)
  obtain g c where c: "reserve_write (w_slots w' sl) = (g, c)"
    by (cases "reserve_write (w_slots w' sl)")
  then have g: "g = Suc (latest_reserved_generation (w_slots w' sl))"
    by (simp add: reserve_write_def Let_def)
  have "generations_unique ((w_setups w')(i := Preparing key sl g))"
    using worker_invD(2) [OF inv] slot_okD(2) [OF worker_invD(1) [OF inv], of _ _ sl] g
    by (fastforce simp: generations_unique_def)
  then have "worker_inv (set_setup i (Preparing key sl g) (set_slot sl c w'))"
    using slot_ok_reserve [OF worker_invD(1) [OF inv] _ c] assms(2) same
    by (intro worker_inv_update inv) (simp_all add: concerns_def)
  then show ?thesis
    by (simp add: open_channel_def w' c)
qed

lemma publish_setup_inv:
  assumes inv: "worker_inv w" and i: "w_setups w i = Preparing key sl g"
  shows "worker_inv (publish_setup i key sl g ready w)" "worker_inv (refuse_channel i sl g w)"
proof -
  note ok = worker_invD [OF inv]
  have update: "worker_inv (set_setup i p (set_slot sl c w))"
    if "write_generation g v (w_slots w sl) = (r, c)" "concerns p sl" "\<forall>key sl g. p \<noteq> Preparing key sl g"
      "v = TaskReady i \<and> p = (if r = Inr True then Serving key sl else Ended) \<or> v = SetupFailed i" for v r c p
    using that i slot_ok_write [OF ok i that(1), of p] generations_unique_other [OF ok(2)]
    by (intro worker_inv_update inv) (auto simp: concerns_def)
  obtain r c where rc: "write_generation g (if ready then TaskReady i else SetupFailed i) (w_slots w sl) = (r, c)"
    by (cases "write_generation g (if ready then TaskReady i else SetupFailed i) (w_slots w sl)")
  show "worker_inv (publish_setup i key sl g ready w)"
    unfolding publish_setup_def Let_def rc using update [OF rc] by (auto simp: concerns_def split: sum.split bool.split)
  show "worker_inv (refuse_channel i sl g w)"
    unfolding refuse_channel_def
    using update [of "SetupFailed i" "fst (write_generation g (SetupFailed i) (w_slots w sl))"
        "snd (write_generation g (SetupFailed i) (w_slots w sl))" Ended]
    by (simp add: concerns_def)
qed

lemma drop_setup_inv:
  assumes "worker_inv w" "w_setups w i = Preparing key sl g"
  shows "worker_inv (drop_setup i sl g w)"
  unfolding drop_setup_def
  using assms slot_ok_abandon [OF worker_invD(1) [OF assms(1)] assms(2)] generations_unique_other [OF worker_invD(2) [OF assms(1)]]
  by (intro worker_inv_update) (simp_all add: concerns_def)

lemma close_channel_inv:
  assumes inv: "worker_inv w"
    and own: "w_setups w i = Serving key sl \<and> own = TaskReady i \<or> w_setups w i = Failing key sl \<and> own = SetupFailed i"
  shows "worker_inv (close_channel i key sl own w)"
proof -
  obtain b c where bc: "seal_with_value_if (\<lambda>v. v = own) ChannelClosed (w_slots w sl) = (b, c)"
    by (cases "seal_with_value_if (\<lambda>v. v = own) ChannelClosed (w_slots w sl)")
  show ?thesis
    unfolding close_channel_def Let_def bc prod.case
    using own slot_ok_seal [OF worker_invD(1) [OF inv] own bc] generations_unique_other [OF worker_invD(2) [OF inv]]
    by (intro worker_inv_update inv) (auto simp: concerns_def)
qed

lemma slot_ok_request:
  assumes ok: "slot_ok phase req sl' c"
    and "r = AwaitingSetup sl' \<Longrightarrow> read_started c" "r = AwaitingResult sl' \<Longrightarrow> read_started c \<and> slot c \<noteq> Empty"
    and "\<And>v. r = Answered sl' (Inr v) \<Longrightarrow> read_started c \<and> slot c \<in> {Written v, Written ChannelClosed}"
  shows "slot_ok phase (req(j := r)) sl' c"
  using ok assms(2-4) by (intro slot_okI) (auto dest: slot_okD [OF ok] split: if_splits)

lemma set_request_inv:
  assumes "worker_inv w"
    and "\<And>sl. r = AwaitingSetup sl \<Longrightarrow> read_started (w_slots w sl)"
    and "\<And>sl. r = AwaitingResult sl \<Longrightarrow> read_started (w_slots w sl) \<and> slot (w_slots w sl) \<noteq> Empty"
    and "\<And>sl v. r = Answered sl (Inr v) \<Longrightarrow> read_started (w_slots w sl) \<and> slot (w_slots w sl) \<in> {Written v, Written ChannelClosed}"
  shows "worker_inv (set_request j r w)"
  using assms worker_invD [OF assms(1)] unfolding worker_inv_def set_request_def
  by (auto intro: slot_ok_request)

lemma slot_ok_start: "slot_ok phase req sl c \<Longrightarrow> slot_ok phase req sl (start_reading c)"
  by (simp add: slot_ok_def start_reading_def)

lemma send_request_inv:
  assumes "worker_inv w"
  shows "worker_inv (send_request j key w)"
proof -
  obtain sl w' where w': "get_entry key w = (sl, w')"
    by (cases "get_entry key w")
  then have "w_slots w' = w_slots w" "w_setups w' = w_setups w" "w_requests w' = w_requests w"
    using get_entry_same [of key w] by simp_all
  then have inv: "worker_inv w'"
    using assms by (rule worker_inv_cong)
  then have "worker_inv (set_slot sl (start_reading (w_slots w' sl)) w')"
    using slot_ok_start [OF worker_invD(1) [OF inv], of sl] by (simp add: worker_inv_def set_slot_def)
  then show ?thesis
    unfolding send_request_def Let_def w' prod.case
    by (rule set_request_inv) (simp_all add: set_slot_def start_reading_def)
qed

lemma worker_step_inv:
  assumes "worker_step w w'" "worker_inv w"
  shows "worker_inv w'"
  using assms
proof (cases rule: worker_step.cases)
  case (invalidated i key)
  have "worker_inv (set_setup i Ended (set_slot sl (w_slots w sl) w))" for sl
    using assms(2) invalidated worker_invD [OF assms(2)] slot_okD(3) [OF worker_invD(1) [OF assms(2)], of _ i]
    by (intro worker_inv_update slot_ok_other generations_unique_other) (auto simp: concerns_def)
  then show ?thesis
    unfolding invalidated by (rule worker_inv_cong [rotated 3, where w = "set_setup i Ended (set_slot 0 (w_slots w 0) w)"])
      (simp_all add: invalidate_entry_def set_setup_def set_slot_def)
next
  case (evicted key)
  show ?thesis
    unfolding evicted by (rule worker_inv_cong [OF _ _ _ assms(2)]) simp_all
next
  case (arrived j sl elapsed)
  then show ?thesis
    using assms(2) slot_okD(4) [OF worker_invD(1) [OF assms(2)], of j sl]
    by (auto simp: read_arrival_def intro!: set_request_inv split: if_splits)
next
  case (timed_out j sl elapsed e)
  then show ?thesis
    using assms(2) by (auto intro!: set_request_inv)
next
  case (answered j sl r)
  then show ?thesis
    using assms(2) slot_okD(5) [OF worker_invD(1) [OF assms(2)], of j sl]
    by (auto simp: read_value_def intro!: set_request_inv split: slot_state.splits)
qed (auto intro: open_channel_inv publish_setup_inv drop_setup_inv close_channel_inv send_request_inv)

lemma worker_reach_inv: "worker_reach w \<Longrightarrow> worker_inv w"
  by (induction rule: worker_reach.induct) (auto intro: worker_inv_init worker_step_inv)

text \<open>Answers from one slot agree, before and after it is sealed.\<close>

definition answers_agree :: "(nat \<Rightarrow> request) \<Rightarrow> bool" where
  "answers_agree req \<longleftrightarrow>
     (\<forall>sl j k u v. req j = Answered sl (Inr u) \<longrightarrow> req k = Answered sl (Inr v) \<longrightarrow> u = v \<or> u = ChannelClosed \<or> v = ChannelClosed)"

lemma answers_agree_other:
  "answers_agree req \<Longrightarrow> (\<forall>sl v. r \<noteq> Answered sl (Inr v)) \<Longrightarrow> answers_agree (req(j := r))"
  by (auto simp: answers_agree_def)

lemma worker_step_agree:
  assumes "worker_step w w'" "worker_inv w" "answers_agree (w_requests w)"
  shows "answers_agree (w_requests w')"
  using assms(1)
proof (cases rule: worker_step.cases)
  case (answered j sl r)
  show ?thesis
  proof (cases r)
    case (Inr v)
    then have "slot (w_slots w sl) = Written v"
      using answered by (auto simp: read_value_def split: slot_state.splits)
    then have "u = v \<or> v = ChannelClosed" if "w_requests w k = Answered sl (Inr u)" for k u
      using slot_okD(6) [OF worker_invD(1) [OF assms(2)], of k sl u] that by auto
    then show ?thesis
      using assms(3) answered(1) Inr by (auto simp: answers_agree_def set_request_def)
  qed (use answered(1) assms(3) in \<open>simp add: set_request_def answers_agree_other\<close>)
qed (use assms(3) in \<open>auto simp: open_channel_def publish_setup_def refuse_channel_def drop_setup_def close_channel_def invalidate_entry_def
    send_request_def set_request_def set_setup_def set_slot_def Let_def case_prod_unfold answers_agree_other
    split: sum.split bool.split\<close>)

lemma worker_reach_agree: "worker_reach w \<Longrightarrow> answers_agree (w_requests w)"
proof (induction rule: worker_reach.induct)
  case (step w w')
  then show ?case
    using worker_step_agree worker_reach_inv by blast
qed (simp add: answers_agree_def worker_new_def)

text \<open>A run with one channel and a request that arrives before the task is set up.\<close>

definition example_waiting :: "unit worker" where
  "example_waiting = set_request 0 (AwaitingResult 0) (send_request 0 () (open_channel 0 () worker_new))"

definition example_served :: "unit worker" where
  "example_served = publish_setup 0 () 0 1 True example_waiting"

definition example_answered :: "unit worker" where
  "example_answered = set_request 0 (Answered 0 (Inr (TaskReady 0))) example_served"

lemmas example_worker_defs = example_answered_def example_served_def example_waiting_def publish_setup_def send_request_def
  open_channel_def get_entry_def worker_new_def set_request_def set_setup_def set_slot_def swmr_new_def slot_op_defs

lemma example_waiting_reach: "worker_reach example_waiting"
proof -
  have "worker_reach (send_request 0 () (open_channel 0 () (worker_new :: unit worker)))"
    by (rule worker_reach.step [OF worker_reach.step [OF worker_reach.init]], rule worker_step.opened [where i = 0],
        simp add: worker_new_def, rule worker_step.sent, simp add: example_worker_defs)
  then show ?thesis
    unfolding example_waiting_def
    by (rule worker_reach.step) (rule worker_step.arrived [where elapsed = False], simp_all add: example_worker_defs)
qed

lemma example_served_reach: "worker_reach example_served"
  unfolding example_served_def
  by (rule worker_reach.step [OF example_waiting_reach], rule worker_step.published) (simp add: example_worker_defs)

lemma example_answered_reach: "worker_reach example_answered"
  unfolding example_answered_def
  by (rule worker_reach.step [OF example_served_reach], rule worker_step.answered) (simp_all add: example_worker_defs)

section \<open>Properties\<close>

text \<open>C35. A worker holds the data of a task only while the channel of the coordinator is open:
  whatever retries, cancelled setups, evictions and requests there are, the data that a slot has
  are those of a setup whose channel is being served; after the channel has ended no slot, cached
  or not, refers to them.\<close>

theorem worker_releases_tasks:
  assumes "worker_reach w" "slot (w_slots w sl) = Written (TaskReady i)"
  shows "(\<exists>key. w_setups w i = Serving key sl) \<and> (\<forall>sl'. slot (w_slots w sl') = Written (TaskReady i) \<longrightarrow> sl' = sl)"
proof -
  have "\<exists>key. w_setups w i = Serving key sl'" if "slot (w_slots w sl') = Written (TaskReady i)" for sl'
    using slot_okD(3) [OF worker_invD(1) [OF worker_reach_inv [OF assms(1)]]] that by blast
  then show ?thesis
    using assms(2) by (metis channel_phase.inject(2))
qed

theorem worker_releases_tasks_witness: "\<exists>key. w_setups example_served 0 = Serving key 0"
  using worker_releases_tasks [OF example_served_reach, of 0 0] by (simp add: example_worker_defs)

text \<open>C34. All requests that were given a task by one slot were given the same one, even if the
  coordinator retried meanwhile: the slot has that task until it is sealed, and no other setup can
  publish there.\<close>

theorem worker_requests_agree:
  assumes "worker_reach w" "w_requests w j = Answered sl (Inr u)" "u \<noteq> ChannelClosed"
  shows "slot (w_slots w sl) \<in> {Written u, Written ChannelClosed} \<and>
    (\<forall>k v. w_requests w k = Answered sl (Inr v) \<longrightarrow> v = u \<or> v = ChannelClosed) \<and>
    snd (write_generation g x (w_slots w sl)) = w_slots w sl"
proof -
  have "read_started (w_slots w sl)" "slot (w_slots w sl) \<in> {Written u, Written ChannelClosed}"
    using slot_okD(6) [OF worker_invD(1) [OF worker_reach_inv [OF assms(1)]] assms(2)] by blast+
  moreover have "v = u \<or> v = ChannelClosed" if "w_requests w k = Answered sl (Inr v)" for k v
    using worker_reach_agree [OF assms(1)] assms(2,3) that unfolding answers_agree_def by blast
  ultimately show ?thesis
    by (auto simp: write_generation_def is_written_def)
qed

theorem worker_requests_agree_witness:
  "snd (write_generation 1 (TaskReady 3) (w_slots (example_answered :: unit worker) 0)) = w_slots example_answered 0"
  using worker_requests_agree [OF example_answered_reach, of 0 0 "TaskReady 0" 1 "TaskReady 3"] by (simp add: example_worker_defs)

text \<open>C36. A request never waits for a setup that is gone: if it waits for a result, it can be
  answered, or the setup that reserved the slot last is still being prepared, and publishing or
  dropping that setup makes the answer available.\<close>

theorem worker_requests_progress:
  assumes "worker_reach w" "w_requests w j = AwaitingResult sl"
  shows "(\<exists>r. worker_step w (set_request j (Answered sl r) w)) \<or>
    (\<exists>i key g. w_setups w i = Preparing key sl g \<and> slot (w_slots w sl) = Reserved g \<and>
      read_value (w_slots (publish_setup i key sl g ready w) sl) = Some (Inr (if ready then TaskReady i else SetupFailed i)) \<and>
      read_value (w_slots (drop_setup i sl g w) sl) = Some (Inl NoValue))"
proof (cases "read_value (w_slots w sl)")
  case None
  note ok = worker_invD(1) [OF worker_reach_inv [OF assms(1)]]
  obtain g where g: "slot (w_slots w sl) = Reserved g"
    using None slot_okD(5) [OF ok assms(2)] by (auto simp: read_value_def split: slot_state.splits)
  then obtain i key where "w_setups w i = Preparing key sl g" "g = latest_reserved_generation (w_slots w sl)"
    using slot_okD(1) [OF ok] by blast
  then show ?thesis
    using g by (auto simp: publish_setup_def drop_setup_def write_generation_def abandon_generation_def is_written_def
        set_setup_def set_slot_def read_value_def)
next
  case (Some r)
  then show ?thesis
    using worker_step.answered [OF assms(2)] by blast
qed

theorem worker_requests_progress_witness:
  "(\<exists>r. worker_step example_waiting (set_request 0 (Answered 0 r) example_waiting)) \<or>
    (\<exists>i key g. w_setups example_waiting i = Preparing key 0 g \<and> slot (w_slots example_waiting 0) = Reserved g \<and>
      read_value (w_slots (publish_setup i key 0 g True example_waiting) 0) = Some (Inr (if True then TaskReady i else SetupFailed i)) \<and>
      read_value (w_slots (drop_setup i 0 g example_waiting) 0) = Some (Inl NoValue))"
proof (rule worker_requests_progress [OF example_waiting_reach])
  show "w_requests example_waiting 0 = AwaitingResult 0"
    by (simp add: example_worker_defs)
qed

text \<open>The requests of a task all execute the plan of the first one, whatever head they ask for.\<close>

lemma task_plan_once:
  assumes "task_plan insert_head h f = (r, f')"
  shows "f' = Some r" "task_plan insert_head h' f' = (r, f')"
  using assms by (auto simp: task_plan_def split: option.splits)

lemma execute_partitions_bounds:
  assumes "execute_partitions partition_count execute plan first stop = Inr streams"
  shows "length streams = stop - first" "first < stop \<Longrightarrow> stop \<le> partition_count plan"
proof -
  let ?f = "\<lambda>k. if partition_count plan \<le> k then Inl (NoSuchPartition k (partition_count plan))
    else case execute plan k of Inr s \<Rightarrow> Inr s | Inl e \<Rightarrow> Inl (ExecuteError e)"
  have run: "map_res ?f [first..<stop] = Inr streams"
    using assms by (simp add: execute_partitions_def split: if_splits)
  then show "length streams = stop - first"
    using map_res_length by fastforce
  assume less: "first < stop"
  then have "?f ([first..<stop] ! (stop - 1 - first)) = Inr (streams ! (stop - 1 - first))"
    by (intro list_all2_nthD [OF run [unfolded map_res_Inr_iff]]) simp
  moreover have "[first..<stop] ! (stop - 1 - first) = stop - 1"
    using less by simp
  ultimately have "\<not> partition_count plan \<le> stop - 1"
    by (metis Inl_Inr_False)
  then show "stop \<le> partition_count plan"
    by simp
qed

end
