(* ===== verification/TaskReports.thy ===== *)
theory TaskReports
  imports PrepareBoundaries WorkerTasks
begin

text \<open>
  What the workers report to the coordinator: the final metrics of a task, its dynamic filters, and
  samples of its load (\<open>worker_to_coordinator_task\<close> in \<open>src/src/coordinator/query_coordinator.rs\<close>, the
  end of the channel in \<open>src/src/worker/impl_coordinator_channel.rs\<close>), and the store in which the
  coordinator waits for the reports of all tasks (\<open>src/src/coordinator/store.rs\<close>,
  \<open>src/src/coordinator/distributed.rs\<close>).

  For every task the coordinator runs three concurrent loops: the reader of the worker's stream,
  the handler of updates and the handler of final reports. The first two belong to the query and
  are aborted with it; the third one is not. The step relation interleaves the loops of all
  tasks.
\<close>

section \<open>Messages\<close>

record task_key =
  tk_query_id :: uuid
  tk_stage_id :: nat
  tk_task_number :: nat

record 'ms task_metrics =
  pre_order_plan_metrics :: "'ms list"
  own_metrics :: 'ms

datatype ('m, 'f, 'p, 'l) w2c_msg =
    TaskMetrics 'm
  | TaskCompletedDynamicFilters 'f
  | ProducedDynamicFilter 'p
  | LoadInfo 'l
  | LoadInfoEos

datatype ('m, 'f) final_report = MetricsReport 'm | FiltersReport 'f

datatype ('p, 'l) runtime_update = FilterUpdate 'p | LoadInfoUpdate 'l | LoadInfoEosUpdate

section \<open>Worker\<close>

text \<open>
  The metrics of a task: those of every node that it executed, in the order of the visit, and its own.
  A panic ends the background task, and nothing is sent.
\<close>

definition collect_task_metrics ::
  "('e, 'ms list) visit_lib \<Rightarrow> 'e \<Rightarrow> (('x, 'r, 'q, 'o) plan \<Rightarrow> 'ms option) \<Rightarrow> 'ms \<Rightarrow>
   ('x, 'r, 'q, 'o) plan \<Rightarrow> task_ctx \<Rightarrow> 'ms \<Rightarrow> 'ms task_metrics option" where
  "collect_task_metrics L panic node_metrics no_metrics plan ctx own =
     (case apply_with_dt_ctx L panic
             (\<lambda>node _ ms. Inr (Continue, ms @ [case node_metrics node of Some m \<Rightarrow> m | None \<Rightarrow> no_metrics])) plan ctx [] of
        Inr (_, ms) \<Rightarrow> Some \<lparr>pre_order_plan_metrics = ms, own_metrics = own\<rparr>
      | Inl _ \<Rightarrow> None)"

text \<open>
  The end of a channel: a task whose plan was executed sends its metrics and filters, if they are
  collected; filters that cannot be found are sent as none.
\<close>

definition worker_final_reports ::
  "bool \<Rightarrow> bool \<Rightarrow> ('p \<Rightarrow> 'm option) \<Rightarrow> ('p \<Rightarrow> ('e, 'f) res) \<Rightarrow> 'f \<Rightarrow> ('e, 'p) res option \<Rightarrow> ('m, 'f) final_report list" where
  "worker_final_reports collect_metrics collect_filters metrics filters no_filters final_plan =
     (case final_plan of
        Some (Inr plan) \<Rightarrow>
          (case (if collect_metrics then metrics plan else None) of
             Some m \<Rightarrow> [MetricsReport m]
           | None \<Rightarrow> []) @
          (if collect_filters then [FiltersReport (case filters plan of Inr f \<Rightarrow> f | Inl _ \<Rightarrow> no_filters)] else [])
      | _ \<Rightarrow> [])"

section \<open>Store\<close>

type_synonym 't store = "task_key \<rightharpoonup> 't"

definition store_insert :: "task_key \<Rightarrow> 't \<Rightarrow> 't store \<Rightarrow> 't store" where
  "store_insert key v st = st(key \<mapsto> v)"

text \<open>\<open>wait_for\<close> returns once every expected key is there; until then it waits.\<close>

definition store_wait_for :: "task_key list \<Rightarrow> 't store \<Rightarrow> 't store option" where
  "store_wait_for expected st = (if list_all (\<lambda>k. st k \<noteq> None) expected then Some st else None)"

definition boundary_task_keys :: "('x, 'r, 'q, 'o) node \<Rightarrow> task_key list" where
  "boundary_task_keys n =
     (case input_stage n of
        None \<Rightarrow> []
      | Some st \<Rightarrow> map (\<lambda>i. \<lparr>tk_query_id = stage_query_id st, tk_stage_id = stage_num st, tk_task_number = i\<rparr>)
                     [0..<stage_task_count st])"

definition task_keys_for_plan :: "(unit, task_key list) visit_lib \<Rightarrow> ('x, 'r, 'q, 'o) plan \<Rightarrow> task_key list" where
  "task_keys_for_plan L p =
     (case tree_apply L (\<lambda>p keys. Inr (Continue, keys @ boundary_task_keys (node_of p))) p [] of
        Inr (_, keys) \<Rightarrow> keys
      | Inl _ \<Rightarrow> [])"

text \<open>\<open>DistributedExec::wait_for_metrics\<close>: \<open>None\<close> if the metrics are not collected or nothing was executed.\<close>

definition wait_for_metrics ::
  "(unit, task_key list) visit_lib \<Rightarrow> 't store option \<Rightarrow> ('x, 'r, 'q, 'o) plan option \<Rightarrow> 't store option option" where
  "wait_for_metrics L st plan_for_viz =
     (case st of
        None \<Rightarrow> Some None
      | Some st \<Rightarrow>
          (case plan_for_viz of
             None \<Rightarrow> Some None
           | Some p \<Rightarrow> (case store_wait_for (task_keys_for_plan L p) st of Some m \<Rightarrow> Some (Some m) | None \<Rightarrow> None)))"

section \<open>Coordinator\<close>

datatype 'e loop_state = Running | Finished | LoopFailed 'e | Aborted

text \<open>
  The loops of one task with the channels between them. \<open>co_metrics\<close> and \<open>co_filters\<close> say whether the
  handler of reports still has its handle to the store, \<open>co_load_tx\<close> whether the receiver of load
  samples can expect more. \<open>co_log\<close> records what the reader received.
\<close>

record ('m, 'f, 'p, 'l, 'e) collector =
  co_reader :: "'e loop_state"
  co_runtime :: "'e loop_state"
  co_reporter :: bool
  co_reports :: "('m, 'f) final_report list"
  co_updates :: "('p, 'l) runtime_update list"
  co_metrics :: bool
  co_filters :: bool
  co_load_tx :: bool
  co_load_infos :: "'l list"
  co_log :: "('m, 'f, 'p, 'l) w2c_msg list"

definition collector_new :: "bool \<Rightarrow> bool \<Rightarrow> ('m, 'f, 'p, 'l, 'e) collector" where
  "collector_new collect_metrics collect_filters =
     \<lparr>co_reader = Running, co_runtime = Running, co_reporter = True, co_reports = [], co_updates = [],
      co_metrics = collect_metrics, co_filters = collect_filters, co_load_tx = True, co_load_infos = [], co_log = []\<rparr>"

text \<open>A channel whose receiver is gone ends the reader.\<close>

definition send_report :: "('m, 'f) final_report \<Rightarrow> ('m, 'f, 'p, 'l, 'e) collector \<Rightarrow> ('m, 'f, 'p, 'l, 'e) collector" where
  "send_report r c =
     (if co_reporter c then c\<lparr>co_reports := co_reports c @ [r]\<rparr> else c\<lparr>co_reader := Finished\<rparr>)"

definition send_update :: "('p, 'l) runtime_update \<Rightarrow> ('m, 'f, 'p, 'l, 'e) collector \<Rightarrow> ('m, 'f, 'p, 'l, 'e) collector" where
  "send_update u c =
     (if co_runtime c = Running then c\<lparr>co_updates := co_updates c @ [u]\<rparr> else c\<lparr>co_reader := Finished\<rparr>)"

fun forward_msg :: "('m, 'f, 'p, 'l) w2c_msg \<Rightarrow> ('m, 'f, 'p, 'l, 'e) collector \<Rightarrow> ('m, 'f, 'p, 'l, 'e) collector" where
  "forward_msg (TaskMetrics m) c = send_report (MetricsReport m) c"
| "forward_msg (TaskCompletedDynamicFilters f) c = send_report (FiltersReport f) c"
| "forward_msg (ProducedDynamicFilter p) c = send_update (FilterUpdate p) c"
| "forward_msg (LoadInfo l) c = send_update (LoadInfoUpdate l) c"
| "forward_msg LoadInfoEos c = send_update LoadInfoEosUpdate c"

definition read_msg :: "('m, 'f, 'p, 'l) w2c_msg \<Rightarrow> ('m, 'f, 'p, 'l, 'e) collector \<Rightarrow> ('m, 'f, 'p, 'l, 'e) collector" where
  "read_msg m c = forward_msg m (c\<lparr>co_log := co_log c @ [m]\<rparr>)"

fun handle_update ::
  "('p \<Rightarrow> 'e option) \<Rightarrow> ('p, 'l) runtime_update \<Rightarrow> ('m, 'f, 'p, 'l, 'e) collector \<Rightarrow> ('m, 'f, 'p, 'l, 'e) collector" where
  "handle_update record_filter (FilterUpdate p) c =
     (case record_filter p of None \<Rightarrow> c | Some e \<Rightarrow> c\<lparr>co_runtime := LoopFailed e\<rparr>)"
| "handle_update record_filter (LoadInfoUpdate l) c =
     (if co_load_tx c then c\<lparr>co_load_infos := co_load_infos c @ [l]\<rparr> else c)"
| "handle_update record_filter LoadInfoEosUpdate c = c\<lparr>co_load_tx := False\<rparr>"

text \<open>The whole coordinator: the collectors of the tasks and the two stores.\<close>

record ('m, 'f, 'p, 'l, 'e) reports =
  rp_tasks :: "task_key \<rightharpoonup> ('m, 'f, 'p, 'l, 'e) collector"
  rp_metrics :: "'m store"
  rp_filters :: "'f store"

definition reports_new :: "('m, 'f, 'p, 'l, 'e) reports" where
  "reports_new = \<lparr>rp_tasks = Map.empty, rp_metrics = Map.empty, rp_filters = Map.empty\<rparr>"

definition set_collector :: "task_key \<Rightarrow> ('m, 'f, 'p, 'l, 'e) collector \<Rightarrow> ('m, 'f, 'p, 'l, 'e) reports \<Rightarrow> ('m, 'f, 'p, 'l, 'e) reports" where
  "set_collector key c s = s\<lparr>rp_tasks := (rp_tasks s)(key \<mapsto> c)\<rparr>"

text \<open>The first report of a kind takes the handle and is stored; later ones are ignored.\<close>

fun handle_report ::
  "task_key \<Rightarrow> ('m, 'f) final_report \<Rightarrow> ('m, 'f, 'p, 'l, 'e) collector \<Rightarrow> ('m, 'f, 'p, 'l, 'e) reports \<Rightarrow> ('m, 'f, 'p, 'l, 'e) reports" where
  "handle_report key (MetricsReport v) c s =
     (if co_metrics c
      then set_collector key (c\<lparr>co_metrics := False\<rparr>) (s\<lparr>rp_metrics := store_insert key v (rp_metrics s)\<rparr>)
      else set_collector key c s)"
| "handle_report key (FiltersReport f) c s =
     (if co_filters c
      then set_collector key (c\<lparr>co_filters := False\<rparr>) (s\<lparr>rp_filters := store_insert key f (rp_filters s)\<rparr>)
      else set_collector key c s)"

text \<open>A task that sent no report gets the default one.\<close>

definition finish_reports ::
  "'m \<Rightarrow> 'f \<Rightarrow> task_key \<Rightarrow> ('m, 'f, 'p, 'l, 'e) collector \<Rightarrow> ('m, 'f, 'p, 'l, 'e) reports \<Rightarrow> ('m, 'f, 'p, 'l, 'e) reports" where
  "finish_reports no_metrics no_filters key c s =
     set_collector key (c\<lparr>co_reporter := False, co_metrics := False, co_filters := False\<rparr>)
       (s\<lparr>rp_metrics := (if co_metrics c then store_insert key no_metrics (rp_metrics s) else rp_metrics s),
          rp_filters := (if co_filters c then store_insert key no_filters (rp_filters s) else rp_filters s)\<rparr>)"

inductive report_step ::
  "bool \<Rightarrow> bool \<Rightarrow> ('p \<Rightarrow> 'e option) \<Rightarrow> 'm \<Rightarrow> 'f \<Rightarrow> ('m, 'f, 'p, 'l, 'e) reports \<Rightarrow> ('m, 'f, 'p, 'l, 'e) reports \<Rightarrow> bool"
  for collect_metrics collect_filters record_filter no_metrics no_filters where
  started: "rp_tasks s key = None \<Longrightarrow>
    report_step collect_metrics collect_filters record_filter no_metrics no_filters s
      (set_collector key (collector_new collect_metrics collect_filters) s)"
| received: "\<lbrakk>rp_tasks s key = Some c; co_reader c = Running\<rbrakk> \<Longrightarrow>
    report_step collect_metrics collect_filters record_filter no_metrics no_filters s (set_collector key (read_msg m c) s)"
| reader_over: "\<lbrakk>rp_tasks s key = Some c; co_reader c = Running; st \<noteq> Running\<rbrakk> \<Longrightarrow>
    report_step collect_metrics collect_filters record_filter no_metrics no_filters s (set_collector key (c\<lparr>co_reader := st\<rparr>) s)"
| runtime_aborted: "\<lbrakk>rp_tasks s key = Some c; co_runtime c = Running\<rbrakk> \<Longrightarrow>
    report_step collect_metrics collect_filters record_filter no_metrics no_filters s (set_collector key (c\<lparr>co_runtime := Aborted\<rparr>) s)"
| updated: "\<lbrakk>rp_tasks s key = Some c; co_runtime c = Running; co_updates c = u # us\<rbrakk> \<Longrightarrow>
    report_step collect_metrics collect_filters record_filter no_metrics no_filters s
      (set_collector key (handle_update record_filter u (c\<lparr>co_updates := us\<rparr>)) s)"
| updates_over: "\<lbrakk>rp_tasks s key = Some c; co_runtime c = Running; co_updates c = []; co_reader c \<noteq> Running\<rbrakk> \<Longrightarrow>
    report_step collect_metrics collect_filters record_filter no_metrics no_filters s (set_collector key (c\<lparr>co_runtime := Finished\<rparr>) s)"
| reported: "\<lbrakk>rp_tasks s key = Some c; co_reporter c; co_reports c = r # rs\<rbrakk> \<Longrightarrow>
    report_step collect_metrics collect_filters record_filter no_metrics no_filters s (handle_report key r (c\<lparr>co_reports := rs\<rparr>) s)"
| reports_over: "\<lbrakk>rp_tasks s key = Some c; co_reporter c; co_reports c = []; co_reader c \<noteq> Running\<rbrakk> \<Longrightarrow>
    report_step collect_metrics collect_filters record_filter no_metrics no_filters s (finish_reports no_metrics no_filters key c s)"

inductive report_reach ::
  "bool \<Rightarrow> bool \<Rightarrow> ('p \<Rightarrow> 'e option) \<Rightarrow> 'm \<Rightarrow> 'f \<Rightarrow> ('m, 'f, 'p, 'l, 'e) reports \<Rightarrow> bool"
  for collect_metrics collect_filters record_filter no_metrics no_filters where
  init: "report_reach collect_metrics collect_filters record_filter no_metrics no_filters reports_new"
| step: "\<lbrakk>report_reach collect_metrics collect_filters record_filter no_metrics no_filters s;
    report_step collect_metrics collect_filters record_filter no_metrics no_filters s s'\<rbrakk> \<Longrightarrow>
    report_reach collect_metrics collect_filters record_filter no_metrics no_filters s'"

section \<open>One store\<close>

text \<open>The reports among the received messages, and the first one of a kind.\<close>

fun report_of :: "('m, 'f, 'p, 'l) w2c_msg \<Rightarrow> ('m, 'f) final_report option" where
  "report_of (TaskMetrics m) = Some (MetricsReport m)"
| "report_of (TaskCompletedDynamicFilters f) = Some (FiltersReport f)"
| "report_of _ = None"

definition reports_of :: "('m, 'f, 'p, 'l) w2c_msg list \<Rightarrow> ('m, 'f) final_report list" where
  "reports_of msgs = List.map_filter report_of msgs"

fun metrics_report :: "('m, 'f) final_report \<Rightarrow> 'm option" where
  "metrics_report (MetricsReport m) = Some m"
| "metrics_report (FiltersReport _) = None"

fun filters_report :: "('m, 'f) final_report \<Rightarrow> 'f option" where
  "filters_report (MetricsReport _) = None"
| "filters_report (FiltersReport f) = Some f"

fun first_report :: "('r \<Rightarrow> 'v option) \<Rightarrow> 'r list \<Rightarrow> 'v option" where
  "first_report pick [] = None"
| "first_report pick (r # rs) = (case pick r of Some v \<Rightarrow> Some v | None \<Rightarrow> first_report pick rs)"

definition report_or :: "('r \<Rightarrow> 'v option) \<Rightarrow> 'v \<Rightarrow> 'r list \<Rightarrow> 'v" where
  "report_or pick dflt rs = (case first_report pick rs of Some v \<Rightarrow> v | None \<Rightarrow> dflt)"

text \<open>
  The entry of a store for one task: \<open>h\<close> is the handle of the task's handler of reports and \<open>entry\<close> what the
  store has. The handled reports are those that were received and are no longer queued.
\<close>

definition slot_inv ::
  "('r \<Rightarrow> 'v option) \<Rightarrow> bool \<Rightarrow> 'v \<Rightarrow> bool \<Rightarrow> 'v option \<Rightarrow> 'r list \<Rightarrow> 'r list \<Rightarrow> bool \<Rightarrow> bool" where
  "slot_inv pick enabled dflt h entry handled queue reporter \<longleftrightarrow>
     (h \<longleftrightarrow> enabled \<and> reporter \<and> first_report pick handled = None) \<and>
     entry = (if \<not> enabled then None
       else case first_report pick handled of Some v \<Rightarrow> Some v | None \<Rightarrow> if reporter then None else Some dflt) \<and>
     (\<not> reporter \<longrightarrow> queue = [])"

lemma first_report_append:
  "first_report pick (xs @ ys) = (case first_report pick xs of Some v \<Rightarrow> Some v | None \<Rightarrow> first_report pick ys)"
  by (induction xs) (simp_all split: option.splits)

lemma slot_inv_handle:
  assumes "slot_inv pick enabled dflt h entry handled (r # queue) reporter"
  shows "slot_inv pick enabled dflt (h \<and> pick r = None) (if h then (case pick r of Some v \<Rightarrow> Some v | None \<Rightarrow> entry) else entry)
    (handled @ [r]) queue reporter"
  using assms by (auto simp: slot_inv_def first_report_append split: option.splits if_splits)

lemma slot_inv_finish:
  assumes "slot_inv pick enabled dflt h entry handled [] True"
  shows "slot_inv pick enabled dflt False (if h then Some dflt else entry) handled [] False"
  using assms by (auto simp: slot_inv_def split: option.splits if_splits)

lemma slot_inv_new: "slot_inv pick enabled dflt enabled None [] [] True"
  by (simp add: slot_inv_def)

section \<open>All tasks\<close>

definition collector_inv ::
  "bool \<Rightarrow> bool \<Rightarrow> 'm \<Rightarrow> 'f \<Rightarrow> 'm option \<Rightarrow> 'f option \<Rightarrow> ('m, 'f, 'p, 'l, 'e) collector \<Rightarrow> bool" where
  "collector_inv cm cf dm df me fe c \<longleftrightarrow>
     (\<not> co_reporter c \<longrightarrow> co_reader c \<noteq> Running) \<and>
     (\<exists>handled. reports_of (co_log c) = handled @ co_reports c \<and>
        slot_inv metrics_report cm dm (co_metrics c) me handled (co_reports c) (co_reporter c) \<and>
        slot_inv filters_report cf df (co_filters c) fe handled (co_reports c) (co_reporter c))"

definition reports_inv :: "bool \<Rightarrow> bool \<Rightarrow> 'm \<Rightarrow> 'f \<Rightarrow> ('m, 'f, 'p, 'l, 'e) reports \<Rightarrow> bool" where
  "reports_inv cm cf dm df s \<longleftrightarrow>
     (\<forall>key. case rp_tasks s key of
        None \<Rightarrow> rp_metrics s key = None \<and> rp_filters s key = None
      | Some c \<Rightarrow> collector_inv cm cf dm df (rp_metrics s key) (rp_filters s key) c)"

lemma reports_invD:
  "reports_inv cm cf dm df s \<Longrightarrow> rp_tasks s key = Some c \<Longrightarrow>
    collector_inv cm cf dm df (rp_metrics s key) (rp_filters s key) c"
  by (auto simp: reports_inv_def dest: spec [of _ key])

lemma reports_inv_set:
  assumes "reports_inv cm cf dm df s" "rp_tasks s' = (rp_tasks s)(key \<mapsto> c)"
    "\<And>k. k \<noteq> key \<Longrightarrow> rp_metrics s' k = rp_metrics s k" "\<And>k. k \<noteq> key \<Longrightarrow> rp_filters s' k = rp_filters s k"
    "collector_inv cm cf dm df (rp_metrics s' key) (rp_filters s' key) c"
  shows "reports_inv cm cf dm df s'"
  unfolding reports_inv_def
proof
  fix k
  show "case rp_tasks s' k of
      None \<Rightarrow> rp_metrics s' k = None \<and> rp_filters s' k = None
    | Some c \<Rightarrow> collector_inv cm cf dm df (rp_metrics s' k) (rp_filters s' k) c"
    using assms(1) [unfolded reports_inv_def, rule_format, of k] assms(2-5) by (cases "k = key") (auto split: option.splits)
qed

lemma set_collector_inv:
  assumes "reports_inv cm cf dm df s" "collector_inv cm cf dm df (rp_metrics s key) (rp_filters s key) c"
  shows "reports_inv cm cf dm df (set_collector key c s)"
  by (rule reports_inv_set [OF assms(1), of _ key c]) (simp_all add: set_collector_def assms(2))

lemma collector_inv_new: "collector_inv cm cf dm df None None (collector_new cm cf)"
  by (simp add: collector_inv_def collector_new_def reports_of_def slot_inv_new List.map_filter_def)

lemma collector_inv_read:
  assumes "collector_inv cm cf dm df me fe c" "co_reader c = Running"
  shows "collector_inv cm cf dm df me fe (read_msg m c)"
proof -
  have "co_reporter c"
    using assms by (auto simp: collector_inv_def)
  then show ?thesis
    using assms(1) by (cases m)
      (auto simp: collector_inv_def read_msg_def send_report_def send_update_def reports_of_def List.map_filter_def slot_inv_def)
qed

lemma collector_inv_frame:
  assumes "collector_inv cm cf dm df me fe c" "co_reader c = Running \<or> co_reader c' = co_reader c \<or> co_reader c' \<noteq> Running"
    "co_reporter c' = co_reporter c" "co_reports c' = co_reports c" "co_metrics c' = co_metrics c"
    "co_filters c' = co_filters c" "co_log c' = co_log c" "co_reader c' = Running \<longrightarrow> co_reader c = Running"
  shows "collector_inv cm cf dm df me fe c'"
  using assms unfolding collector_inv_def by auto

lemma handle_update_frame:
  "co_reader (handle_update rf u c) = co_reader c" "co_reporter (handle_update rf u c) = co_reporter c"
  "co_reports (handle_update rf u c) = co_reports c" "co_metrics (handle_update rf u c) = co_metrics c"
  "co_filters (handle_update rf u c) = co_filters c" "co_log (handle_update rf u c) = co_log c"
  by (cases u; simp split: option.splits)+

lemma handle_report_tasks:
  "rp_tasks (handle_report key r c s) =
     (rp_tasks s)(key \<mapsto> c\<lparr>co_metrics := co_metrics c \<and> metrics_report r = None,
                        co_filters := co_filters c \<and> filters_report r = None\<rparr>)"
  by (cases r; cases c) (auto simp: set_collector_def)

lemma handle_report_spec:
  assumes "reports_inv cm cf dm df s" "rp_tasks s key = Some c" "co_reporter c" "co_reports c = r # rs"
  shows "reports_inv cm cf dm df (handle_report key r (c\<lparr>co_reports := rs\<rparr>) s)"
proof -
  let ?m = "if co_metrics c then (case metrics_report r of Some v \<Rightarrow> Some v | None \<Rightarrow> rp_metrics s key) else rp_metrics s key"
  let ?f = "if co_filters c then (case filters_report r of Some v \<Rightarrow> Some v | None \<Rightarrow> rp_filters s key) else rp_filters s key"
  let ?c = "c\<lparr>co_reports := rs, co_metrics := co_metrics c \<and> metrics_report r = None, co_filters := co_filters c \<and> filters_report r = None\<rparr>"
  obtain handled where "reports_of (co_log c) = handled @ r # rs"
    "slot_inv metrics_report cm dm (co_metrics c) (rp_metrics s key) handled (r # rs) (co_reporter c)"
    "slot_inv filters_report cf df (co_filters c) (rp_filters s key) handled (r # rs) (co_reporter c)"
    using reports_invD [OF assms(1,2)] assms(4) by (auto simp: collector_inv_def)
  then have "collector_inv cm cf dm df ?m ?f ?c"
    using assms(3) unfolding collector_inv_def
    by (intro conjI exI [of _ "handled @ [r]"]) (auto dest: slot_inv_handle)
  then show ?thesis
    by (cases r; cases "co_metrics c"; cases "co_filters c"; intro reports_inv_set [OF assms(1), of _ key ?c])
      (auto simp: set_collector_def store_insert_def)
qed

lemma finish_reports_spec:
  assumes "reports_inv cm cf dm df s" "rp_tasks s key = Some c" "co_reporter c" "co_reports c = []" "co_reader c \<noteq> Running"
  shows "reports_inv cm cf dm df (finish_reports dm df key c s)"
proof -
  let ?c = "c\<lparr>co_reporter := False, co_metrics := False, co_filters := False\<rparr>"
  have "collector_inv cm cf dm df (if co_metrics c then Some dm else rp_metrics s key)
      (if co_filters c then Some df else rp_filters s key) ?c"
    using reports_invD [OF assms(1,2)] assms(3-5) unfolding collector_inv_def
    by (auto dest: slot_inv_finish)
  then show ?thesis
    by (intro reports_inv_set [OF assms(1), of _ key ?c]) (auto simp: finish_reports_def set_collector_def store_insert_def)
qed

lemma report_step_inv:
  assumes "report_step cm cf rf dm df s s'" "reports_inv cm cf dm df s"
  shows "reports_inv cm cf dm df s'"
  using assms
proof (induction rule: report_step.induct)
  case (started s key)
  then have "rp_metrics s key = None" "rp_filters s key = None"
    by (simp_all add: reports_inv_def) (metis option.simps(4))+
  then show ?case
    using started by (simp add: set_collector_inv collector_inv_new)
next
  case (received s key c m)
  then show ?case
    using collector_inv_read [OF reports_invD [OF received(3,1)] received(2), of m]
    by (simp add: set_collector_inv)
next
  case (reported s key c r rs)
  then show ?case
    by (intro handle_report_spec)
next
  case (reports_over s key c)
  then show ?case
    by (intro finish_reports_spec)
next
  case (reader_over s key c st)
  then show ?case
    using collector_inv_frame [OF reports_invD [OF reader_over(4,1)], of "c\<lparr>co_reader := st\<rparr>"]
    by (simp add: set_collector_inv)
next
  case (runtime_aborted s key c)
  then show ?case
    using collector_inv_frame [OF reports_invD [OF runtime_aborted(3,1)], of "c\<lparr>co_runtime := Aborted\<rparr>"]
    by (simp add: set_collector_inv)
next
  case (updated s key c u us)
  then show ?case
    using collector_inv_frame [OF reports_invD [OF updated(4,1)], of "handle_update rf u (c\<lparr>co_updates := us\<rparr>)"]
    by (simp add: set_collector_inv handle_update_frame)
next
  case (updates_over s key c)
  then show ?case
    using collector_inv_frame [OF reports_invD [OF updates_over(5,1)], of "c\<lparr>co_runtime := Finished\<rparr>"]
    by (simp add: set_collector_inv)
qed

lemma report_reach_inv: "report_reach cm cf rf dm df s \<Longrightarrow> reports_inv cm cf dm df s"
  by (induction rule: report_reach.induct)
    (simp add: reports_inv_def reports_new_def, rule report_step_inv)

lemma report_reach_steps:
  "(report_step cm cf rf dm df)\<^sup>*\<^sup>* s s' \<Longrightarrow> report_reach cm cf rf dm df s \<Longrightarrow> report_reach cm cf rf dm df s'"
  by (induction rule: rtranclp_induct) (auto intro: report_reach.step)

text \<open>An entry of the store is the first report of its task, or the default if there is none.\<close>

lemma metrics_entry:
  assumes "report_reach True cf rf dm df s" "rp_tasks s key = Some c"
  shows "rp_metrics s key = Some v \<Longrightarrow> v = report_or metrics_report dm (reports_of (co_log c))"
    and "\<not> co_reporter c \<Longrightarrow> rp_metrics s key = Some (report_or metrics_report dm (reports_of (co_log c)))"
proof -
  obtain handled where "reports_of (co_log c) = handled @ co_reports c"
    "slot_inv metrics_report True dm (co_metrics c) (rp_metrics s key) handled (co_reports c) (co_reporter c)"
    using reports_invD [OF report_reach_inv [OF assms(1)] assms(2)] by (auto simp: collector_inv_def)
  then show "rp_metrics s key = Some v \<Longrightarrow> v = report_or metrics_report dm (reports_of (co_log c))"
    and "\<not> co_reporter c \<Longrightarrow> rp_metrics s key = Some (report_or metrics_report dm (reports_of (co_log c)))"
    by (auto simp: slot_inv_def report_or_def first_report_append split: option.splits if_splits)
qed

text \<open>Once the reader is over, the log of a task stays.\<close>

lemma reader_over_log:
  assumes "report_step cm cf rf dm df s s'" "rp_tasks s key = Some c" "co_reader c \<noteq> Running"
  shows "\<exists>c'. rp_tasks s' key = Some c' \<and> co_reader c' \<noteq> Running \<and> co_log c' = co_log c"
  using assms
proof (induction rule: report_step.induct)
qed (auto simp: set_collector_def finish_reports_def handle_update_frame handle_report_tasks)

lemma reader_over_logs:
  assumes "(report_step cm cf rf dm df)\<^sup>*\<^sup>* s s'" "rp_tasks s key = Some c" "co_reader c \<noteq> Running"
  shows "\<exists>c'. rp_tasks s' key = Some c' \<and> co_reader c' \<noteq> Running \<and> co_log c' = co_log c"
  using assms(1)
proof (induction rule: rtranclp_induct)
  case base
  then show ?case using assms(2,3) by blast
next
  case (step t u)
  then obtain c' where "rp_tasks t key = Some c'" "co_reader c' \<noteq> Running" "co_log c' = co_log c"
    by blast
  then show ?case
    using reader_over_log [OF step(2)] by fastforce
qed

text \<open>The handler of reports can run to its end, whatever the other tasks do.\<close>

lemma reporter_drains:
  assumes "rp_tasks s key = Some c" "co_reader c \<noteq> Running"
  shows "\<exists>s' c'. (report_step cm cf rf dm df)\<^sup>*\<^sup>* s s' \<and> rp_tasks s' key = Some c' \<and> \<not> co_reporter c' \<and>
    (\<forall>k. k \<noteq> key \<longrightarrow> rp_tasks s' k = rp_tasks s k)"
  using assms
proof (induction "co_reports c" arbitrary: s c)
  case Nil
  show ?case
  proof (cases "co_reporter c")
    case True
    then have "report_step cm cf rf dm df s (finish_reports dm df key c s)"
      using Nil by (intro report_step.reports_over) simp_all
    moreover have "rp_tasks (finish_reports dm df key c s) = (rp_tasks s)(key \<mapsto> c\<lparr>co_reporter := False, co_metrics := False, co_filters := False\<rparr>)"
      by (simp add: finish_reports_def set_collector_def)
    ultimately show ?thesis
      by (intro exI [of _ "finish_reports dm df key c s"]) (auto intro: r_into_rtranclp)
  qed (use Nil in blast)
next
  case (Cons r rs)
  show ?case
  proof (cases "co_reporter c")
    case True
    let ?s = "handle_report key r (c\<lparr>co_reports := rs\<rparr>) s"
    have step: "report_step cm cf rf dm df s ?s"
      using Cons(2-4) True by (intro report_step.reported) simp_all
    obtain c' where c': "rp_tasks ?s = (rp_tasks s)(key \<mapsto> c')" "co_reports c' = rs" "co_reader c' = co_reader c"
      by (auto simp: handle_report_tasks)
    obtain s' c'' where "(report_step cm cf rf dm df)\<^sup>*\<^sup>* ?s s'" "rp_tasks s' key = Some c''" "\<not> co_reporter c''"
      "\<forall>k. k \<noteq> key \<longrightarrow> rp_tasks s' k = rp_tasks ?s k"
      using Cons(1) [of c' ?s] c' Cons(4) by auto
    then show ?thesis
      using step c'(1) by (intro exI [of _ s'] exI [of _ c'']) (auto intro: converse_rtranclp_into_rtranclp)
  qed (use Cons(3) in blast)
qed

lemma reporter_stays_over:
  assumes "(report_step cm cf rf dm df)\<^sup>*\<^sup>* s s'" "rp_tasks s key = Some c" "\<not> co_reporter c"
  shows "\<exists>c'. rp_tasks s' key = Some c' \<and> \<not> co_reporter c'"
  using assms(1)
proof (induction rule: rtranclp_induct)
  case (step t u)
  then obtain c' where "rp_tasks t key = Some c'" "\<not> co_reporter c'"
    by blast
  with step(2) show ?case
  proof (induction rule: report_step.induct)
    case (received s k c m)
    then show ?case
      by (cases m) (auto simp: set_collector_def read_msg_def send_report_def send_update_def)
  qed (auto simp: set_collector_def finish_reports_def handle_update_frame handle_report_tasks)
qed (use assms in blast)

lemma reporters_drain:
  assumes "\<forall>key \<in> set keys. \<exists>c. rp_tasks s key = Some c \<and> co_reader c \<noteq> Running"
  shows "\<exists>s'. (report_step cm cf rf dm df)\<^sup>*\<^sup>* s s' \<and>
    (\<forall>key \<in> set keys. \<exists>c. rp_tasks s' key = Some c \<and> \<not> co_reporter c)"
  using assms
proof (induction keys arbitrary: s)
  case (Cons key keys)
  then obtain c where "rp_tasks s key = Some c" "co_reader c \<noteq> Running"
    by auto
  then obtain t c' where t: "(report_step cm cf rf dm df)\<^sup>*\<^sup>* s t" "rp_tasks t key = Some c'" "\<not> co_reporter c'"
    using reporter_drains [of s key c cm cf rf dm df] by blast
  have "\<forall>k \<in> set keys. \<exists>c. rp_tasks t k = Some c \<and> co_reader c \<noteq> Running"
    using Cons(2) reader_over_logs [OF t(1)] by fastforce
  then obtain s' where s': "(report_step cm cf rf dm df)\<^sup>*\<^sup>* t s'"
    "\<forall>k \<in> set keys. \<exists>c. rp_tasks s' k = Some c \<and> \<not> co_reporter c"
    using Cons(1) by blast
  moreover have "\<exists>c. rp_tasks s' key = Some c \<and> \<not> co_reporter c"
    using reporter_stays_over [OF s'(1) t(2,3)] .
  ultimately show ?case
    using t(1) by (intro exI [of _ s']) (auto intro: rtranclp_trans)
qed auto

section \<open>Tasks of a plan\<close>

lemma fold_append_concat: "fold (\<lambda>x acc. acc @ g x) xs acc = acc @ concat (map g xs)"
  by (induction xs arbitrary: acc) simp_all

lemma task_keys_pre_order:
  assumes "visit_law L"
  shows "task_keys_for_plan L p = concat (map boundary_task_keys (pre_order p))"
  using tree_apply_pre_order [OF assms, where h = "\<lambda>n keys. keys @ boundary_task_keys n", of p "[]"]
  by (simp add: task_keys_for_plan_def fold_append_concat)

lemma distinct_concat_tags:
  assumes "distinct (concat (map tags xs))" "\<And>x. x \<in> set xs \<Longrightarrow> distinct (g x)"
    "\<And>x y. x \<in> set xs \<Longrightarrow> y \<in> set (g x) \<Longrightarrow> tag y \<in> set (tags x)"
  shows "distinct (concat (map g xs))"
  using assms
proof (induction xs)
  case (Cons x xs)
  then have "distinct (g x)" "distinct (concat (map g xs))"
    by simp_all
  moreover have "y \<notin> set (g z)" if "y \<in> set (g x)" "z \<in> set xs" for y z
  proof
    assume "y \<in> set (g z)"
    then have "tag y \<in> set (tags x)" "tag y \<in> set (concat (map tags xs))"
      using Cons.prems(3) that by auto
    then show False
      using Cons.prems(1) by auto
  qed
  ultimately show ?case
    by auto
qed simp

text \<open>The tasks of a prepared plan have keys of their own, since its stages have numbers of their own.\<close>

definition stage_tag :: "('x, 'r, 'q, 'o) node \<Rightarrow> (uuid \<times> nat) list" where
  "stage_tag n = (case input_stage n of Some st \<Rightarrow> [(stage_query_id st, stage_num st)] | None \<Rightarrow> [])"

definition all_local :: "('x, 'r, 'q, 'o) plan \<Rightarrow> bool" where
  "all_local p \<longleftrightarrow> list_all (\<lambda>n. case input_stage n of Some (Remote _) \<Rightarrow> False | _ \<Rightarrow> True) (pre_order p)"

lemma local_stages_tags:
  "all_local p \<Longrightarrow> mset (concat (map stage_tag (pre_order p))) = mset (local_stages p)"
proof (induction p)
  case (Plan n cs)
  have "mset (concat (map stage_tag (concat (map pre_order ds)))) = mset (concat (map local_stages ds))"
    if "set ds \<subseteq> set cs" for ds
    using that Plan by (induction ds) (auto simp: all_local_def list_all_iff)
  from this [OF subset_refl] have "mset (concat (map stage_tag (pre_order (Plan n cs)))) = mset (concat (map local_stages cs)) + mset (stage_tag n)"
    by simp
  moreover have "stage_tag n = (case input_stage n of Some (Local l) \<Rightarrow> [(ls_query_id l, ls_num l)] | _ \<Rightarrow> [])"
    using Plan.prems by (auto simp: stage_tag_def all_local_def split: option.splits stage.splits)
  ultimately show ?case
    by simp
qed

lemma task_keys_distinct:
  assumes "visit_law L" "all_local p" "distinct (local_stages p)"
  shows "distinct (task_keys_for_plan L p)"
  unfolding task_keys_pre_order [OF assms(1)]
proof (rule distinct_concat_tags [where tags = stage_tag and tag = "\<lambda>k. (tk_query_id k, tk_stage_id k)"])
  show "distinct (concat (map stage_tag (pre_order p)))"
    using assms(3) local_stages_tags [OF assms(2)] mset_eq_imp_distinct_iff by blast
qed (auto simp: boundary_task_keys_def stage_tag_def distinct_map inj_on_def split: option.splits)

section \<open>Properties\<close>

text \<open>What the worker of an executed task reports: the metrics of exactly the nodes that the task executes.\<close>

definition executed_metrics ::
  "(('x, 'r, 'q, 'o) plan \<Rightarrow> 'ms option) \<Rightarrow> 'ms \<Rightarrow> 'ms task_metrics \<Rightarrow>
   ('err, ('x, 'r, 'q, 'o) plan \<times> task_ctx \<times> 'ms) res option \<Rightarrow> 'ms task_metrics" where
  "executed_metrics node_metrics no_metrics dflt final_plan =
     (case final_plan of
        Some (Inr (plan, ctx, own)) \<Rightarrow>
          \<lparr>pre_order_plan_metrics =
             map (\<lambda>(node, _). case node_metrics node of Some m \<Rightarrow> m | None \<Rightarrow> no_metrics) (task_nodes plan ctx),
           own_metrics = own\<rparr>
      | _ \<Rightarrow> dflt)"

lemma fold_snoc_fst: "fold (\<lambda>(x, y) acc. acc @ [g x]) xs acc = acc @ map (\<lambda>(x, _). g x) xs"
  by (induction xs arbitrary: acc) auto

lemma collect_task_metrics_nodes:
  assumes "visit_law L" "stage_ok plan (task_count ctx)" "task_index ctx < task_count ctx"
  shows "collect_task_metrics L panic node_metrics no_metrics plan ctx own =
    Some \<lparr>pre_order_plan_metrics =
            map (\<lambda>(node, _). case node_metrics node of Some m \<Rightarrow> m | None \<Rightarrow> no_metrics) (task_nodes plan ctx),
          own_metrics = own\<rparr>"
  using apply_with_dt_ctx_task_nodes [OF assms, where h = "\<lambda>node _ ms. ms @ [case node_metrics node of Some m \<Rightarrow> m | None \<Rightarrow> no_metrics]"]
  by (simp add: collect_task_metrics_def fold_snoc_fst)

lemma worker_reports_metrics:
  assumes "visit_law L" "\<And>plan ctx own. final_plan = Some (Inr (plan, ctx, own)) \<Longrightarrow>
    stage_ok plan (task_count ctx) \<and> task_index ctx < task_count ctx"
  shows "report_or metrics_report dflt
      (worker_final_reports True cf (\<lambda>(plan, ctx, own). collect_task_metrics L panic nm empty_ms plan ctx own) filters df final_plan) =
    executed_metrics nm empty_ms dflt final_plan"
proof (cases "\<exists>plan ctx own. final_plan = Some (Inr (plan, ctx, own))")
  case True
  then obtain plan ctx own where "final_plan = Some (Inr (plan, ctx, own))"
    by blast
  then show ?thesis
    using assms(2) collect_task_metrics_nodes [OF assms(1), of plan ctx panic nm empty_ms own]
    by (simp add: report_or_def worker_final_reports_def executed_metrics_def)
qed (auto simp: report_or_def worker_final_reports_def executed_metrics_def split: option.splits sum.splits prod.splits)

text \<open>C33. The metrics of a query arrive: once the streams of the workers have ended, in whatever order
  the coordinator's loops run, waiting for the metrics of all tasks of the plan can return, and
  whenever it returns it has for every task what its worker reported, which is the metrics of
  the nodes that the task executed in the order of the visit, or the default if the task was never
  executed. The tasks of a plan whose stages have numbers of their own never share an entry.\<close>

theorem task_metrics_collected:
  fixes final_plan :: "task_key \<Rightarrow> ('err, ('x, 'r, 'q, 'o) plan \<times> task_ctx \<times> 'ms) res option"
  assumes "visit_law L" "visit_law L'" "report_reach True cf rf dm df s"
    and over: "\<forall>key \<in> set (task_keys_for_plan L p). \<exists>c. rp_tasks s key = Some c \<and> co_reader c \<noteq> Running \<and>
      reports_of (co_log c) =
        worker_final_reports True cf (\<lambda>(plan, ctx, own). collect_task_metrics L' panic nm empty_ms plan ctx own) filters df (final_plan key)"
    and ok: "\<And>key plan ctx own. final_plan key = Some (Inr (plan, ctx, own)) \<Longrightarrow>
      stage_ok plan (task_count ctx) \<and> task_index ctx < task_count ctx"
  shows "(\<exists>s'. (report_step True cf rf dm df)\<^sup>*\<^sup>* s s' \<and> (\<exists>m. wait_for_metrics L (Some (rp_metrics s')) (Some p) = Some (Some m))) \<and>
    (\<forall>s' m. (report_step True cf rf dm df)\<^sup>*\<^sup>* s s' \<longrightarrow> wait_for_metrics L (Some (rp_metrics s')) (Some p) = Some (Some m) \<longrightarrow>
      (\<forall>key \<in> set (task_keys_for_plan L p). m key = Some (executed_metrics nm empty_ms dm (final_plan key)))) \<and>
    (all_local p \<longrightarrow> distinct (local_stages p) \<longrightarrow> distinct (task_keys_for_plan L p))"
proof (intro conjI allI impI ballI)
  have "\<forall>key \<in> set (task_keys_for_plan L p). \<exists>c. rp_tasks s key = Some c \<and> co_reader c \<noteq> Running"
    using over by blast
  then obtain s' where s': "(report_step True cf rf dm df)\<^sup>*\<^sup>* s s'"
    "\<forall>key \<in> set (task_keys_for_plan L p). \<exists>c. rp_tasks s' key = Some c \<and> \<not> co_reporter c"
    using reporters_drain [of "task_keys_for_plan L p" s True cf rf dm df] by blast
  then have "list_all (\<lambda>k. rp_metrics s' k \<noteq> None) (task_keys_for_plan L p)"
    using metrics_entry(2) [OF report_reach_steps [OF s'(1) assms(3)]] by (fastforce simp: list_all_iff)
  then show "\<exists>s'. (report_step True cf rf dm df)\<^sup>*\<^sup>* s s' \<and> (\<exists>m. wait_for_metrics L (Some (rp_metrics s')) (Some p) = Some (Some m))"
    using s'(1) by (auto simp: wait_for_metrics_def store_wait_for_def)
next
  fix s' m key
  assume run: "(report_step True cf rf dm df)\<^sup>*\<^sup>* s s'" and m: "wait_for_metrics L (Some (rp_metrics s')) (Some p) = Some (Some m)"
    and key: "key \<in> set (task_keys_for_plan L p)"
  obtain c where c: "rp_tasks s' key = Some c" "reports_of (co_log c) =
      worker_final_reports True cf (\<lambda>(plan, ctx, own). collect_task_metrics L' panic nm empty_ms plan ctx own) filters df (final_plan key)"
    using over key reader_over_logs [OF run] by fastforce
  obtain v where "m = rp_metrics s'" "rp_metrics s' key = Some v"
    using m key by (auto simp: wait_for_metrics_def store_wait_for_def list_all_iff split: option.splits if_splits)
  then show "m key = Some (executed_metrics nm empty_ms dm (final_plan key))"
    using metrics_entry(1) [OF report_reach_steps [OF run assms(3)] c(1)] worker_reports_metrics [OF assms(2) ok] c(2) by simp
qed (rule task_keys_distinct [OF assms(1)])

text \<open>A stage with two tasks, the second of which was executed.\<close>

definition example_key :: "nat \<Rightarrow> task_key" where
  "example_key i = \<lparr>tk_query_id = 0, tk_stage_id = 0, tk_task_number = i\<rparr>"

definition example_query :: "(unit, unit, unit, nat) plan" where
  "example_query =
     Plan (NetworkCoalesceNode (coalesce_try_from_stage (\<lambda>_. 0) (example_stage 2) (example_props (Hash [()] 2)) 1)) [example_plan]"

definition example_node_metrics :: "(unit, unit, unit, nat) plan \<Rightarrow> nat option" where
  "example_node_metrics p = (case node_of p of OtherNode x \<Rightarrow> Some x | _ \<Rightarrow> None)"

definition example_final_plan :: "task_key \<Rightarrow> (unit, (unit, unit, unit, nat) plan \<times> task_ctx \<times> nat) res option" where
  "example_final_plan key = (if key = example_key 1 then Some (Inr (example_plan, \<lparr>task_index = 1, task_count = 2\<rparr>, 9)) else None)"

definition example_reported :: "(nat task_metrics, unit, unit, unit, unit) collector" where
  "example_reported = read_msg (TaskMetrics \<lparr>pre_order_plan_metrics = [0, 2], own_metrics = 9\<rparr>) (collector_new True False)"

definition example_reports :: "(nat task_metrics, unit, unit, unit, unit) reports" where
  "example_reports =
     set_collector (example_key 1) (example_reported\<lparr>co_reader := Finished\<rparr>)
      (set_collector (example_key 1) example_reported
        (set_collector (example_key 0) ((collector_new True False)\<lparr>co_reader := Finished\<rparr>)
          (set_collector (example_key 1) (collector_new True False)
            (set_collector (example_key 0) (collector_new True False) reports_new))))"

lemma example_reports_reach: "report_reach True False rf dm df example_reports"
  unfolding example_reports_def example_reported_def
  apply (rule report_reach.step [OF _ report_step.reader_over])
     apply (rule report_reach.step [OF _ report_step.received])
       apply (rule report_reach.step [OF _ report_step.reader_over])
          apply (rule report_reach.step [OF _ report_step.started])
           apply (rule report_reach.step [OF _ report_step.started])
            apply (rule report_reach.init)
           apply (simp_all add: set_collector_def reports_new_def example_key_def collector_new_def read_msg_def send_report_def)
  done

theorem task_metrics_collected_witness:
  "\<exists>s' m. (report_step True False (\<lambda>_. None) \<lparr>pre_order_plan_metrics = [], own_metrics = 0\<rparr> ())\<^sup>*\<^sup>* example_reports s' \<and>
     wait_for_metrics example_visit_lib (Some (rp_metrics s')) (Some example_query) = Some (Some m) \<and>
     m (example_key 0) = Some \<lparr>pre_order_plan_metrics = [], own_metrics = 0\<rparr> \<and>
     m (example_key 1) = Some \<lparr>pre_order_plan_metrics = [0, 2], own_metrics = 9\<rparr>"
proof -
  let ?dm = "\<lparr>pre_order_plan_metrics = [], own_metrics = 0 :: nat\<rparr>"
  let ?collect = "\<lambda>(plan, ctx, own). collect_task_metrics example_visit_lib () example_node_metrics 0 plan ctx own"
  have keys: "task_keys_for_plan example_visit_lib example_query = [example_key 0, example_key 1]"
    by code_simp
  have report: "worker_final_reports True False ?collect (\<lambda>_. Inr () :: (unit, unit) res) () (example_final_plan (example_key 1)) =
      [MetricsReport \<lparr>pre_order_plan_metrics = [0, 2], own_metrics = 9\<rparr>]"
    by code_simp
  have "\<forall>key \<in> set (task_keys_for_plan example_visit_lib example_query). \<exists>c. rp_tasks example_reports key = Some c \<and>
      co_reader c \<noteq> Running \<and> reports_of (co_log c) = worker_final_reports True False ?collect (\<lambda>_. Inr ()) () (example_final_plan key)"
    using report by (simp add: keys example_reports_def example_reported_def set_collector_def example_key_def collector_new_def
        read_msg_def send_report_def reports_of_def List.map_filter_def worker_final_reports_def example_final_plan_def)
  moreover have "stage_ok plan (task_count ctx) \<and> task_index ctx < task_count ctx"
    if "example_final_plan key = Some (Inr (plan, ctx, own))" for key plan ctx own
  proof -
    have "stage_ok example_plan 2"
      by code_simp
    then show ?thesis
      using that by (auto simp: example_final_plan_def split: if_splits)
  qed
  moreover have "executed_metrics example_node_metrics 0 ?dm (example_final_plan (example_key 1)) = \<lparr>pre_order_plan_metrics = [0, 2], own_metrics = 9\<rparr>"
    "executed_metrics example_node_metrics 0 ?dm (example_final_plan (example_key 0)) = ?dm"
    by code_simp+
  ultimately show ?thesis
    using task_metrics_collected [OF example_visit_lib_law example_visit_lib_law example_reports_reach,
        where p = example_query and panic = "()" and nm = example_node_metrics and empty_ms = 0 and
          filters = "\<lambda>_. Inr ()" and final_plan = example_final_plan and rf = "\<lambda>_. None" and dm = ?dm and df = "()"]
    by (auto simp: keys)
qed

end
