(* ===== verification/Spec2Isabelle.thy ===== *)
theory Spec2Isabelle
  imports ChildrenIsolatorUnion NetworkShuffle NetworkCoalesce NetworkBroadcast BroadcastQueue DatafusionErrors SingleWriteMultiRead QueryPlanner Routing MetricsProto WorkUnitFeed TaskReports
begin

text \<open>
  A verification development of the distributed query engine under \<open>src/src\<close>, which runs the plans of
  the DataFusion query engine on many workers.

  \<^bold>\<open>The program.\<close> A coordinator plans a query, cuts the plan at network boundaries into stages, gives
  every stage a number of tasks, and sends the tasks to workers. Workers execute the tasks; the
  boundaries of a stage read the partitions of the tasks of the stage below over the network. While
  a query runs, the coordinator streams work units to the tasks, and the workers report errors and
  metrics. The theories follow this order.

  \<^bold>\<open>Shared vocabulary.\<close> \<open>Prelude\<close> has the result type of fallible code, the bounds of machine words and
  the pieces of the standard library that several components use; \<open>F64\<close> has double precision
  arithmetic with its rounding. \<open>usize\<close> values are natural numbers, with saturation and wrap-around
  written out where the code has them.

  \<^bold>\<open>Task counts\<close> (\<open>events/desired_task_count.rs\<close>, \<open>events/common.rs\<close>, \<open>stage.rs\<close>): \<open>EventHandlers\<close>,
  \<open>TaskCount\<close>, \<open>Stage\<close>. Restrictions are merged by intersection, in any order, and an
  annotation resolves to the closest admitted count.

  \<^bold>\<open>Distributed unions\<close> (\<open>execution_plans/children_isolator_union.rs\<close>): \<open>SplitChildren\<close> and
  \<open>ChildrenIsolatorUnion\<close>. The children share the tasks of the union; every partition of every task of
  every child is executed exactly once, whatever the rounding of the shares.

  \<^bold>\<open>Network boundaries\<close> (\<open>execution_plans/common.rs\<close>, \<open>network_shuffle.rs\<close>, \<open>network_coalesce.rs\<close>,
  \<open>network_broadcast.rs\<close>): \<open>Partitioning\<close>, \<open>Exchange\<close>, \<open>NetworkShuffle\<close>, \<open>NetworkCoalesce\<close>,
  \<open>NetworkBroadcast\<close>. The locales of \<open>Exchange\<close> say which partitions a boundary has to read; each
  boundary interprets them, which yields that no row is lost or duplicated. \<open>BroadcastQueue\<close>
  (\<open>execution_plans/broadcast.rs\<close>) is the queue that several consumers read: it refines a log that is
  never truncated, and no interleaving makes it panic.

  \<^bold>\<open>Plans and traversals\<close> (\<open>common/recursion.rs\<close>, \<open>distributed_planner/network_boundary.rs\<close>): \<open>PlanTree\<close>
  has the plans, \<open>TreeRewrite\<close> the laws of the engine's tree operations, \<open>RewriteExamples\<close> rewriters
  that meet them, \<open>Recursion\<close> the traversals that carry task contexts, equal to direct recursions.

  \<^bold>\<open>Planner\<close> (\<open>distributed_planner/*.rs\<close>): \<open>InjectBoundaries\<close>, \<open>PrepareBoundaries\<close>, \<open>PassRules\<close>,
  \<open>PlannerPasses\<close> and \<open>QueryPlanner\<close>. Injection only adds nodes and puts every operator into a stage
  where it may run; preparation numbers the stages and gives them the heads that their
  consumers read; the passes terminate; in their composition a join that collects its build side is
  never run where it would lose or duplicate rows.

  \<^bold>\<open>Routing\<close> (\<open>events/defaults/routing.rs\<close>, \<open>events/route_tasks.rs\<close>, \<open>common/retry_outcome.rs\<close>): \<open>Routing\<close>.
  Dialing with failover asks every worker in turn within the limits on retries and finds a healthy one.

  \<^bold>\<open>Workers\<close> (\<open>worker/single_write_multi_read.rs\<close>, \<open>worker/impl_coordinator_channel.rs\<close>,
  \<open>worker/impl_execute_task.rs\<close>, \<open>worker/task_data.rs\<close>): \<open>SingleWriteMultiRead\<close> is the slot in which a
  task is published, \<open>WorkerTasks\<close> the worker with its slots, channels and requests. Requests for a task
  agree on it, never wait for a setup that is gone, and tasks are released with their channel.

  \<^bold>\<open>Work units\<close> (\<open>work_unit_feed/*.rs\<close>, \<open>coordinator/query_coordinator.rs\<close>): \<open>WorkUnitFeed\<close>. Every unit of
  every feed reaches the queue of exactly one task and partition, once and in order.

  \<^bold>\<open>Metrics\<close> (\<open>metrics/*.rs\<close>, \<open>coordinator/latency_metric.rs\<close>, \<open>protocol/grpc/metrics_proto.rs\<close>):
  \<open>CustomMetrics\<close> and \<open>MetricsProto\<close>. Recording in many tasks and merging is the same as recording in
  one, for every kind of metric by one locale; a set of metrics survives its transport.

  \<^bold>\<open>Errors\<close> (\<open>protocol/grpc/errors/*.rs\<close>): \<open>ErrorCodec\<close>, \<open>LeafErrors\<close>, \<open>SchemaErrors\<close>,
  \<open>DatafusionErrors\<close>. The contract of a conversion is a locale that every error type interprets. An error
  is faithful over any number of boundaries, or settles after the first one.

  \<^bold>\<open>Reports\<close> (\<open>coordinator/store.rs\<close>, \<open>worker_to_coordinator_task\<close> in \<open>coordinator/query_coordinator.rs\<close>,
  \<open>coordinator/distributed.rs\<close>): \<open>TaskReports\<close>. Whatever the order of the coordinator's loops, waiting for
  the metrics of a query returns, for every task, those of the nodes that it executed.

  \<^bold>\<open>Parameters.\<close> The query engine, the Protobuf and sketch libraries, the network and the random number
  generator are arguments of the definitions. What is relied on is stated as named laws, such as
  \<open>visit_law\<close>, \<open>prost_codec\<close> and \<open>metric_law\<close>, and every witness instantiates them.

  \<^bold>\<open>Bounds and termination.\<close> All functions terminate: loops are recursions on what remains to be done.
  The passes that insert nodes below the visited one terminate by the measures of
  \<open>PlannerPasses\<close>; retries are limited by the configuration. The decoder of nested errors
  has the depth limit of the Protobuf library. Concurrent components are step relations with
  invariants, so their theorems hold for runs of any length.

  \<^bold>\<open>Not modelled.\<close> The first four items have logic of their own that no theorem covers yet; the others
  are heuristics whose result the theorems do not depend on, or text output and settings.
  \<^item> Dynamic filters (\<open>coordinator/dynamic_filter_registry.rs\<close>, \<open>dynamic_filtering/\<close>): the policies by
    which the coordinator merges and forwards the filters of several tasks. Channels carry filters as
    opaque values here.
  \<^item> Codecs of plans (\<open>codec/\<close>): the translation of the crate's nodes and its round trip.
  \<^item> Opening of channels, specialization of plans and adaptive planning (the rest of \<open>coordinator/\<close>): the
    loops that run afterwards are modelled, and specialization of unions is in \<open>ChildrenIsolatorUnion\<close>.
  \<^item> Transport of record batches (\<open>worker/worker_connection_pool.rs\<close>, \<open>protocol/grpc/worker_client.rs\<close>,
    \<open>protocol/grpc/worker_service.rs\<close>, \<open>protocol/in_process/\<close>): sharing of connections and flow control.
  \<^item> Cost model (\<open>distributed_planner/statistics/\<close>), scaling of file scans and sampling
    (\<open>events/defaults/file_scan_config.rs\<close>, \<open>execution_plans/sampler.rs\<close>, \<open>distributed_leaf.rs\<close>): heuristics; the
    planner's theorems hold for any estimate and any scaled leaf.
  \<^item> Display of plans and metrics, session configuration, the observability service, the command line,
    the console, Iceberg tables and benchmarks: text output, settings, and programs on top.
\<close>

end
